(* ===== verification/Prelude.thy ===== *)
theory Prelude
  imports
    "HOL-Library.Word"
    "HOL-Library.Char_ord"
    "HOL-Library.List_Lexorder"
    "HOL-Library.AList"
    "HOL-Library.Sublist"
begin

section \<open>Shared vocabulary of the development\<close>

text \<open>
  What every component uses of Rust and of its standard library, modelled once:
  \<^item> machine integers as words (\<open>i64\<close>, \<open>u64\<close>, \<open>i32\<close>, \<open>u8\<close>) and \<open>f64\<close> as its IEEE 754 bit
    pattern;
  \<^item> \<open>Result\<close>, the question-mark operator, \<open>map_err\<close> and \<open>collect\<close> into a \<open>Result\<close>;
  \<^item> the methods of \<open>str\<close> the source calls, on UTF-8 byte strings;
  \<^item> \<open>HashMap\<close> as an association list with distinct keys in an arbitrary order, \<open>BTreeMap\<close> as a
    sorted association list, with their contracts as locales;
  \<^item> transition systems: reachable states, and invariants as a locale.
  The collections \<open>rust_simps\<close>, \<open>map_simps\<close> and \<open>reach_rules\<close> carry the component proofs.
\<close>

unbundle bit_operations_syntax

named_theorems rust_simps \<open>evaluation of Rust results, options and strings\<close>
named_theorems map_simps \<open>lookups in the map models\<close>
named_theorems reach_rules \<open>introduction rules of reachable states\<close>

subsection \<open>Machine integers\<close>

type_synonym u8 = "8 word"
type_synonym i32 = "32 word"
type_synonym i64 = "64 word"
type_synonym u64 = "64 word"
type_synonym usize = "64 word"

text \<open>A 64-bit float is its bit pattern; all ones in the exponent are the infinities and NaNs.\<close>

type_synonym f64 = "64 word"

definition f64_is_finite :: "f64 \<Rightarrow> bool" where
  "f64_is_finite x \<longleftrightarrow> (drop_bit 52 x) AND 0x7FF \<noteq> (0x7FF :: 64 word)"

subsection \<open>Results\<close>

datatype ('a, 'e) result = Ok 'a | Err 'e

text \<open>\<open>r?\<close> followed by the rest of the function.\<close>

fun and_then :: "('a, 'e) result \<Rightarrow> ('a \<Rightarrow> ('b, 'e) result) \<Rightarrow> ('b, 'e) result" where
  "and_then (Ok x) f = f x"
| "and_then (Err e) f = Err e"

fun map_err :: "('e \<Rightarrow> 'f) \<Rightarrow> ('a, 'e) result \<Rightarrow> ('a, 'f) result" where
  "map_err f (Ok x) = Ok x"
| "map_err f (Err e) = Err (f e)"

fun result_ok :: "('a, 'e) result \<Rightarrow> 'a option" where
  "result_ok (Ok x) = Some x"
| "result_ok (Err e) = None"

fun is_ok :: "('a, 'e) result \<Rightarrow> bool" where
  "is_ok (Ok x) = True"
| "is_ok (Err e) = False"

definition ok_or :: "'a option \<Rightarrow> 'e \<Rightarrow> ('a, 'e) result" where
  "ok_or x e = (case x of Some a \<Rightarrow> Ok a | None \<Rightarrow> Err e)"

definition unwrap_or :: "'a option \<Rightarrow> 'a \<Rightarrow> 'a" where
  "unwrap_or x d = (case x of Some a \<Rightarrow> a | None \<Rightarrow> d)"

text \<open>
  \<open>iter.map(f).collect::<Result<Vec<_>, _>>()\<close>: elements in order, stopping at the first error.
\<close>

fun collect_map :: "('a \<Rightarrow> ('b, 'e) result) \<Rightarrow> 'a list \<Rightarrow> ('b list, 'e) result" where
  "collect_map f [] = Ok []"
| "collect_map f (x # xs) =
     and_then (f x) (\<lambda>y. and_then (collect_map f xs) (\<lambda>ys. Ok (y # ys)))"

text \<open>\<open>iter.find_map(f)\<close>.\<close>

fun find_map :: "('a \<Rightarrow> 'b option) \<Rightarrow> 'a list \<Rightarrow> 'b option" where
  "find_map f [] = None"
| "find_map f (x # xs) = (case f x of Some y \<Rightarrow> Some y | None \<Rightarrow> find_map f xs)"

text \<open>
  An operation with effects on the outside world: it returns a result and the world it leaves, also
  when it fails. \<open>io_then\<close> is \<open>m?\<close> followed by the rest of the function.
\<close>

type_synonym ('w, 'a, 'e) io = "'w \<Rightarrow> ('a, 'e) result \<times> 'w"

definition io_return :: "('a, 'e) result \<Rightarrow> ('w, 'a, 'e) io" where
  "io_return r w = (r, w)"

definition io_then :: "('w, 'a, 'e) io \<Rightarrow> ('a \<Rightarrow> ('w, 'b, 'e) io) \<Rightarrow> ('w, 'b, 'e) io" where
  "io_then m f w = (case m w of (Ok x, w') \<Rightarrow> f x w' | (Err e, w') \<Rightarrow> (Err e, w'))"

definition io_map_err :: "('e \<Rightarrow> 'f) \<Rightarrow> ('w, 'a, 'e) io \<Rightarrow> ('w, 'a, 'f) io" where
  "io_map_err f m w = (case m w of (r, w') \<Rightarrow> (map_err f r, w'))"

subsection \<open>Strings\<close>

text \<open>
  A Rust \<open>String\<close> is its UTF-8 bytes: a \<open>char\<close> of HOL is a byte. The functions below are the
  methods of \<open>str\<close> under their Rust names.
\<close>

definition strip_prefix :: "string \<Rightarrow> string \<Rightarrow> string option" where
  "strip_prefix s p = (if prefix p s then Some (drop (length p) s) else None)"

definition starts_with :: "string \<Rightarrow> string \<Rightarrow> bool" where
  "starts_with s p \<longleftrightarrow> prefix p s"

text \<open>\<open>s.strip_suffix(c)\<close> for a one-byte character \<open>c\<close>.\<close>

definition strip_suffix_char :: "string \<Rightarrow> char \<Rightarrow> string option" where
  "strip_suffix_char s c = (if s \<noteq> [] \<and> last s = c then Some (butlast s) else None)"

fun contains_str :: "string \<Rightarrow> string \<Rightarrow> bool" where
  "contains_str [] p \<longleftrightarrow> p = []"
| "contains_str (c # s) p \<longleftrightarrow> prefix p (c # s) \<or> contains_str s p"

text \<open>\<open>s.split(c)\<close>: always at least one piece; an empty string gives one empty piece.\<close>

fun split_char :: "char \<Rightarrow> string \<Rightarrow> string list" where
  "split_char c [] = [[]]"
| "split_char c (x # s) =
     (if x = c then [] # split_char c s
      else (case split_char c s of [] \<Rightarrow> [[x]] | p # ps \<Rightarrow> (x # p) # ps))"

text \<open>
  The characters \<open>str::trim\<close> removes are those with the Unicode property White\_Space: U+0009 to
  U+000D, U+0020, U+0085, U+00A0, U+1680, U+2000 to U+200A, U+2028, U+2029, U+202F, U+205F and
  U+3000, here by their UTF-8 encodings.
\<close>

definition rust_whitespace :: "string list" where
  "rust_whitespace =
     [[CHR 0x09], [CHR 0x0A], [CHR 0x0B], [CHR 0x0C], [CHR 0x0D], [CHR 0x20],
      [CHR 0xC2, CHR 0x85], [CHR 0xC2, CHR 0xA0], [CHR 0xE1, CHR 0x9A, CHR 0x80],
      [CHR 0xE2, CHR 0x80, CHR 0x80], [CHR 0xE2, CHR 0x80, CHR 0x81],
      [CHR 0xE2, CHR 0x80, CHR 0x82], [CHR 0xE2, CHR 0x80, CHR 0x83],
      [CHR 0xE2, CHR 0x80, CHR 0x84], [CHR 0xE2, CHR 0x80, CHR 0x85],
      [CHR 0xE2, CHR 0x80, CHR 0x86], [CHR 0xE2, CHR 0x80, CHR 0x87],
      [CHR 0xE2, CHR 0x80, CHR 0x88], [CHR 0xE2, CHR 0x80, CHR 0x89],
      [CHR 0xE2, CHR 0x80, CHR 0x8A], [CHR 0xE2, CHR 0x80, CHR 0xA8],
      [CHR 0xE2, CHR 0x80, CHR 0xA9], [CHR 0xE2, CHR 0x80, CHR 0xAF],
      [CHR 0xE2, CHR 0x81, CHR 0x9F], [CHR 0xE3, CHR 0x80, CHR 0x80]]"

fun strip_any :: "string list \<Rightarrow> string \<Rightarrow> string option" where
  "strip_any [] s = None"
| "strip_any (w # ws) s =
     (if w \<noteq> [] \<and> prefix w s then Some (drop (length w) s) else strip_any ws s)"

lemma strip_any_shorter: "strip_any ws s = Some t \<Longrightarrow> length t < length s"
  by (induction ws) (auto simp: prefix_def split: if_splits)

function trim_by :: "string list \<Rightarrow> string \<Rightarrow> string" where
  "trim_by ws s = (case strip_any ws s of None \<Rightarrow> s | Some t \<Rightarrow> trim_by ws t)"
  by pat_completeness auto
termination
  by (relation "measure (\<lambda>(ws, s). length s)") (auto simp: strip_any_shorter)

declare trim_by.simps [simp del]

definition trim_start :: "string \<Rightarrow> string" where
  "trim_start s = trim_by rust_whitespace s"

definition trim_end :: "string \<Rightarrow> string" where
  "trim_end s = rev (trim_by (map rev rust_whitespace) (rev s))"

definition trim :: "string \<Rightarrow> string" where
  "trim s = trim_end (trim_start s)"

text \<open>Decimal notation, as \<open>format!\<close> prints integers.\<close>

definition digit_char :: "nat \<Rightarrow> char" where
  "digit_char d = char_of (48 + d)"

fun show_nat :: "nat \<Rightarrow> string" where
  "show_nat n = (if n < 10 then [digit_char n] else show_nat (n div 10) @ [digit_char (n mod 10)])"

declare show_nat.simps [simp del]

definition show_int :: "int \<Rightarrow> string" where
  "show_int i = (if i < 0 then CHR ''-'' # show_nat (nat (- i)) else show_nat (nat i))"

definition show_i64 :: "i64 \<Rightarrow> string" where
  "show_i64 w = show_int (sint w)"

definition show_i32 :: "i32 \<Rightarrow> string" where
  "show_i32 w = show_int (sint w)"

subsection \<open>Maps and sets\<close>

text \<open>
  A \<open>HashMap\<close> is an association list with distinct keys; its order stands for the unspecified
  iteration order. \<open>collect\<close> into a \<open>HashMap\<close> inserts in turn, later pairs overwriting.
\<close>

type_synonym 'v hash_map = "(string \<times> 'v) list"

definition hm_wf :: "'v hash_map \<Rightarrow> bool" where
  "hm_wf m \<longleftrightarrow> distinct (map fst m)"

definition hm_collect :: "(string \<times> 'v) list \<Rightarrow> 'v hash_map" where
  "hm_collect kvs = fold (\<lambda>(k, v). AList.update k v) kvs []"

text \<open>A \<open>BTreeMap\<close> is an association list with strictly increasing keys.\<close>

fun bt_insert :: "'k::linorder \<Rightarrow> 'v \<Rightarrow> ('k \<times> 'v) list \<Rightarrow> ('k \<times> 'v) list" where
  "bt_insert k v [] = [(k, v)]"
| "bt_insert k v (p # m) =
     (if fst p < k then p # bt_insert k v m
      else if fst p = k then (k, v) # m
      else (k, v) # p # m)"

definition bt_wf :: "('k::linorder \<times> 'v) list \<Rightarrow> bool" where
  "bt_wf m \<longleftrightarrow> sorted_wrt (<) (map fst m)"

text \<open>A \<open>BTreeSet\<close> is a strictly increasing list; \<open>extend\<close> inserts in turn.\<close>

definition bset_extend :: "'k::linorder list \<Rightarrow> 'k list \<Rightarrow> 'k list" where
  "bset_extend s ks = fold insort_insert ks s"

subsection \<open>Transition systems\<close>

inductive reach :: "('s \<Rightarrow> bool) \<Rightarrow> ('s \<Rightarrow> 's \<Rightarrow> bool) \<Rightarrow> 's \<Rightarrow> bool"
  for init :: "'s \<Rightarrow> bool" and step :: "'s \<Rightarrow> 's \<Rightarrow> bool"
where
  reach_init [reach_rules]: "init s \<Longrightarrow> reach init step s"
| reach_step [reach_rules]: "reach init step s \<Longrightarrow> step s t \<Longrightarrow> reach init step t"

text \<open>A sequence of actions of a system whose actions may be impossible in a state.\<close>

fun runs :: "('s \<Rightarrow> 'a \<Rightarrow> 's option) \<Rightarrow> 'a list \<Rightarrow> 's \<Rightarrow> 's option" where
  "runs exec [] s = Some s"
| "runs exec (a # acts) s = (case exec s a of None \<Rightarrow> None | Some t \<Rightarrow> runs exec acts t)"

section \<open>Lemmas\<close>

subsection \<open>Results\<close>

lemma and_then_Ok_iff [rust_simps]:
  "and_then r f = Ok y \<longleftrightarrow> (\<exists>x. r = Ok x \<and> f x = Ok y)"
  by (cases r) auto

lemma and_then_Err_iff [rust_simps]:
  "and_then r f = Err e \<longleftrightarrow> r = Err e \<or> (\<exists>x. r = Ok x \<and> f x = Err e)"
  by (cases r) auto

lemma map_err_Ok_iff [rust_simps]: "map_err f r = Ok x \<longleftrightarrow> r = Ok x"
  by (cases r) auto

lemma map_err_Err_iff [rust_simps]: "map_err f r = Err e \<longleftrightarrow> (\<exists>e'. r = Err e' \<and> e = f e')"
  by (cases r) auto

lemma ok_or_simps [rust_simps]:
  "ok_or (Some x) e = Ok x"
  "ok_or None e = Err e"
  by (simp_all add: ok_or_def)

lemma unwrap_or_simps [rust_simps]:
  "unwrap_or (Some x) d = x"
  "unwrap_or None d = d"
  by (simp_all add: unwrap_or_def)

lemma io_then_Ok_iff [rust_simps]:
  "io_then m f w = (Ok y, w') \<longleftrightarrow> (\<exists>x w1. m w = (Ok x, w1) \<and> f x w1 = (Ok y, w'))"
  by (auto simp: io_then_def split: prod.splits result.splits)

lemma io_then_Err_iff [rust_simps]:
  "io_then m f w = (Err e, w') \<longleftrightarrow>
     m w = (Err e, w') \<or> (\<exists>x w1. m w = (Ok x, w1) \<and> f x w1 = (Err e, w'))"
  by (auto simp: io_then_def split: prod.splits result.splits)

lemma io_map_err_Ok_iff [rust_simps]:
  "io_map_err f m w = (Ok x, w') \<longleftrightarrow> m w = (Ok x, w')"
  by (auto simp: io_map_err_def rust_simps split: prod.splits)

lemma io_map_err_Err_iff [rust_simps]:
  "io_map_err f m w = (Err e, w') \<longleftrightarrow> (\<exists>e'. m w = (Err e', w') \<and> e = f e')"
  by (auto simp: io_map_err_def rust_simps split: prod.splits)

lemma io_return_iff [rust_simps]:
  "io_return r w = (r', w') \<longleftrightarrow> r = r' \<and> w = w'"
  by (auto simp: io_return_def)

lemma collect_map_Ok_iff:
  "collect_map f xs = Ok ys \<longleftrightarrow> map f xs = map Ok ys"
  by (induction xs arbitrary: ys) (auto simp: rust_simps Cons_eq_map_conv)

lemma first_error_Cons:
  "(\<exists>pre x post. a # xs = pre @ x # post \<and> (\<forall>y\<in>set pre. P y) \<and> Q x) \<longleftrightarrow>
     Q a \<or> (P a \<and> (\<exists>pre x post. xs = pre @ x # post \<and> (\<forall>y\<in>set pre. P y) \<and> Q x))"
  (is "?L \<longleftrightarrow> ?R")
proof
  assume ?L
  then obtain pre x post where
    "a # xs = pre @ x # post" and pre: "\<forall>y\<in>set pre. P y" and x: "Q x"
    by blast
  then show ?R by (cases pre) auto
next
  assume ?R
  then show ?L
  proof (elim disjE conjE exE)
    assume "Q a"
    then show ?L by (intro exI [of _ "[]"] exI [of _ a] exI [of _ xs]) simp
  next
    fix pre x post
    assume "P a" "xs = pre @ x # post" "\<forall>y\<in>set pre. P y" "Q x"
    then show ?L by (intro exI [of _ "a # pre"] exI [of _ x] exI [of _ post]) simp
  qed
qed

lemma collect_map_Err_iff:
  "collect_map f xs = Err e \<longleftrightarrow>
     (\<exists>pre x post. xs = pre @ x # post \<and> (\<forall>y\<in>set pre. is_ok (f y)) \<and> f x = Err e)"
proof (induction xs)
  case Nil
  then show ?case by simp
next
  case (Cons a xs)
  show ?case
    unfolding first_error_Cons using Cons.IH by (cases "f a") (auto simp: rust_simps)
qed

lemma collect_map_Err_nth:
  "collect_map f xs = Err e \<longleftrightarrow>
     (\<exists>i<length xs. f (xs ! i) = Err e \<and> (\<forall>j<i. is_ok (f (xs ! j))))"
  (is "_ \<longleftrightarrow> ?R")
proof
  assume "collect_map f xs = Err e"
  then obtain pre x post where "xs = pre @ x # post" "\<forall>y\<in>set pre. is_ok (f y)" "f x = Err e"
    by (auto simp: collect_map_Err_iff)
  then show ?R by (intro exI [of _ "length pre"]) (auto simp: nth_append)
next
  assume ?R
  then obtain i where i: "i < length xs" "f (xs ! i) = Err e" "\<forall>j<i. is_ok (f (xs ! j))"
    by blast
  show "collect_map f xs = Err e"
    unfolding collect_map_Err_iff
  proof (intro exI conjI)
    show "xs = take i xs @ xs ! i # drop (Suc i) xs" using i by (simp add: id_take_nth_drop)
    show "\<forall>y\<in>set (take i xs). is_ok (f y)" using i by (auto simp: in_set_conv_nth)
  qed (rule i)
qed

text \<open>Results up to the first error.\<close>

lemma list_of_results:
  obtains fvs where "xs = map Ok fvs" | fvs e rest where "xs = map Ok fvs @ Err e # rest"
proof (induction xs arbitrary: thesis)
  case Nil
  then show ?case by simp
next
  case (Cons x xs)
  show ?case
  proof (cases x)
    case (Ok fv)
    show ?thesis
    proof (rule Cons.IH)
      show "xs = map Ok fvs \<Longrightarrow> thesis" for fvs
        using Cons.prems(1) [of "fv # fvs"] Ok by simp
      show "xs = map Ok fvs @ Err e # rest \<Longrightarrow> thesis" for fvs e rest
        using Cons.prems(2) [of "fv # fvs" e rest] Ok by simp
    qed
  next
    case (Err e)
    with Cons.prems(2) [of "[]" e xs] show ?thesis by simp
  qed
qed

lemma find_map_None_iff: "find_map f xs = None \<longleftrightarrow> (\<forall>x\<in>set xs. f x = None)"
  by (induction xs) (auto split: option.splits)

lemma find_map_SomeD: "find_map f xs = Some y \<Longrightarrow> \<exists>x\<in>set xs. f x = Some y"
  by (induction xs) (auto split: option.splits)

subsection \<open>Strings\<close>

lemma strip_prefix_Some_iff [rust_simps]:
  "strip_prefix s p = Some t \<longleftrightarrow> s = p @ t"
  by (auto simp: strip_prefix_def prefix_def)

lemma strip_prefix_None_iff [rust_simps]:
  "strip_prefix s p = None \<longleftrightarrow> \<not> prefix p s"
  by (auto simp: strip_prefix_def)

lemma strip_suffix_char_Some_iff [rust_simps]:
  "strip_suffix_char s c = Some t \<longleftrightarrow> s = t @ [c]"
  by (cases s rule: rev_cases) (auto simp: strip_suffix_char_def)

lemma contains_str_iff: "contains_str s p \<longleftrightarrow> sublist p s"
  by (induction s) (auto simp: sublist_Cons_right)

lemma split_char_not_Nil [simp]: "split_char c s \<noteq> []"
  by (induction s) (auto split: list.splits)

lemma split_char_no_sep: "p \<in> set (split_char c s) \<Longrightarrow> c \<notin> set p"
proof (induction s arbitrary: p)
  case Nil
  then show ?case by simp
next
  case (Cons x s)
  obtain q qs where q: "split_char c s = q # qs"
    by (meson list.exhaust split_char_not_Nil)
  with Cons show ?case by (auto split: if_splits)
qed

text \<open>Joining the pieces with the separator gives the string back.\<close>

fun join_char :: "char \<Rightarrow> string list \<Rightarrow> string" where
  "join_char c [] = []"
| "join_char c [p] = p"
| "join_char c (p # ps) = p @ c # join_char c ps"

lemma join_char_Cons: "ps \<noteq> [] \<Longrightarrow> join_char c (p # ps) = p @ c # join_char c ps"
  by (cases ps) auto

lemma join_split_char: "join_char c (split_char c s) = s"
proof (induction s)
  case Nil
  then show ?case by simp
next
  case (Cons x s)
  obtain q qs where q: "split_char c s = q # qs"
    by (meson list.exhaust split_char_not_Nil)
  with Cons show ?case
    by (cases qs) (auto simp: join_char_Cons)
qed

lemma strip_any_None_iff:
  "strip_any ws s = None \<longleftrightarrow> (\<forall>w\<in>set ws. w \<noteq> [] \<longrightarrow> \<not> prefix w s)"
  by (induction ws) auto

lemma strip_any_suffix: "strip_any ws s = Some t \<Longrightarrow> suffix t s"
  by (induction ws) (auto simp: suffix_drop split: if_splits)

lemma trim_by_suffix: "suffix (trim_by ws s) s"
proof (induction ws s rule: trim_by.induct)
  case (1 ws s)
  then show ?case
    by (subst trim_by.simps)
      (auto split: option.splits dest: strip_any_suffix intro: suffix_order.trans)
qed

lemma trim_by_clean: "strip_any ws (trim_by ws s) = None"
proof (induction ws s rule: trim_by.induct)
  case (1 ws s)
  then show ?case
    by (subst trim_by.simps) (auto split: option.splits)
qed

lemma trim_by_id: "strip_any ws s = None \<Longrightarrow> trim_by ws s = s"
  by (subst trim_by.simps) simp

lemma trim_sublist: "sublist (trim s) s"
proof -
  have "suffix (trim_start s) s"
    by (simp add: trim_start_def trim_by_suffix)
  moreover have "prefix (trim s) (trim_start s)"
    using trim_by_suffix [of "map rev rust_whitespace" "rev (trim_start s)"]
    by (simp add: trim_def trim_end_def suffix_to_prefix)
  ultimately show ?thesis
    unfolding sublist_altdef' by blast
qed

subsection \<open>Maps\<close>

lemma map_of_rev_distinct: "distinct (map fst m) \<Longrightarrow> map_of (rev m) = map_of m"
  by (subst map_of_inject_set) (simp_all flip: rev_map)

text \<open>
  The contract of a finite map: what a lookup returns after an insertion. Its clients reason about
  whole sequences of insertions (\<open>collect\<close>, \<open>extend\<close>, the \<open>json!\<close> macro).
\<close>

locale map_adt =
  fixes empty :: "'m"
    and put :: "'k \<Rightarrow> 'v \<Rightarrow> 'm \<Rightarrow> 'm"
    and get :: "'m \<Rightarrow> 'k \<Rightarrow> 'v option"
    and well_formed :: "'m \<Rightarrow> bool"
  assumes well_formed_empty: "well_formed empty"
    and well_formed_put: "well_formed m \<Longrightarrow> well_formed (put k v m)"
    and get_empty: "get empty = Map.empty"
    and get_put: "well_formed m \<Longrightarrow> get (put k v m) = (get m)(k \<mapsto> v)"
begin

lemma well_formed_fold: "well_formed m \<Longrightarrow> well_formed (fold (\<lambda>(k, v). put k v) kvs m)"
  by (induction kvs arbitrary: m) (auto simp: well_formed_put)

lemma get_fold:
  "well_formed m \<Longrightarrow> get (fold (\<lambda>(k, v). put k v) kvs m) = get m ++ map_of (rev kvs)"
proof (induction kvs arbitrary: m)
  case Nil
  then show ?case by simp
next
  case (Cons p kvs)
  obtain k v where p: "p = (k, v)" by (cases p)
  from Cons.prems have "well_formed (put k v m)" by (rule well_formed_put)
  from Cons.IH [OF this] Cons.prems p show ?case
    by (simp add: get_put map_add_def fun_eq_iff split: option.splits)
qed

lemma get_collect: "get (fold (\<lambda>(k, v). put k v) kvs empty) = map_of (rev kvs)"
  by (simp add: get_fold well_formed_empty get_empty)

lemma get_collect_distinct:
  "distinct (map fst kvs) \<Longrightarrow> get (fold (\<lambda>(k, v). put k v) kvs empty) = map_of kvs"
  by (simp add: get_collect map_of_rev_distinct)

end

locale ordered_map_adt = map_adt empty put get well_formed
  for empty :: "'m"
    and put :: "'k::linorder \<Rightarrow> 'v \<Rightarrow> 'm \<Rightarrow> 'm"
    and get :: "'m \<Rightarrow> 'k \<Rightarrow> 'v option"
    and well_formed :: "'m \<Rightarrow> bool" +
  fixes keys :: "'m \<Rightarrow> 'k list"
  assumes keys_sorted: "well_formed m \<Longrightarrow> sorted_wrt (<) (keys m)"
    and keys_dom: "well_formed m \<Longrightarrow> set (keys m) = dom (get m)"
begin

lemma keys_unique:
  assumes "well_formed m" "well_formed n" "get m = get n"
  shows "keys m = keys n"
  using assms keys_sorted [of m] keys_sorted [of n] keys_dom [of m] keys_dom [of n]
  by (metis strict_sorted_equal)

end

lemma map_of_bt_insert: "bt_wf m \<Longrightarrow> map_of (bt_insert k v m) = (map_of m)(k \<mapsto> v)"
proof (induction m)
  case Nil
  then show ?case by simp
next
  case (Cons p m)
  obtain l w where p: "p = (l, w)" by (cases p)
  have "bt_wf m" using Cons.prems by (simp add: bt_wf_def)
  with Cons.IH p show ?case by (auto simp: fun_eq_iff)
qed

lemma fst_set_bt_insert: "fst ` set (bt_insert k v m) = insert k (fst ` set m)"
  by (induction m) auto

lemma bt_wf_bt_insert: "bt_wf m \<Longrightarrow> bt_wf (bt_insert k v m)"
  by (induction m) (auto simp: bt_wf_def fst_set_bt_insert simp flip: image_set)

lemma bt_wf_distinct: "bt_wf m \<Longrightarrow> distinct (map fst m)"
  by (simp add: bt_wf_def strict_sorted_iff)

lemma bt_wf_ext: "bt_wf m \<Longrightarrow> bt_wf n \<Longrightarrow> map_of m = map_of n \<Longrightarrow> m = n"
proof -
  assume m: "bt_wf m" and n: "bt_wf n" and eq: "map_of m = map_of n"
  have d: "distinct (map fst m)" "distinct (map fst n)"
    using m n by (auto dest: bt_wf_distinct)
  have s: "set m = set n"
    using d eq by (simp add: map_of_inject_set)
  have "inj_on fst (set m \<union> set n)"
    using d s by (simp add: distinct_map)
  then show ?thesis
    using m n d s by (intro map_sorted_distinct_set_unique [of fst])
      (auto simp: bt_wf_def strict_sorted_iff)
qed

interpretation hm: map_adt "[]" AList.update map_of hm_wf
  by unfold_locales (auto simp: hm_wf_def distinct_update update_conv')

interpretation bt: ordered_map_adt "[]" bt_insert map_of bt_wf "map fst"
  by unfold_locales
    (auto simp: bt_wf_bt_insert map_of_bt_insert dom_map_of_conv_image_fst, auto simp: bt_wf_def)

lemma hm_wf_collect [simp]: "hm_wf (hm_collect kvs)"
  using hm.well_formed_fold [of "[]" kvs] by (simp add: hm_collect_def hm.well_formed_empty)

lemma map_of_hm_collect [map_simps]:
  "distinct (map fst kvs) \<Longrightarrow> map_of (hm_collect kvs) = map_of kvs"
  unfolding hm_collect_def by (rule hm.get_collect_distinct)

lemma update_new: "k \<notin> fst ` set m \<Longrightarrow> AList.update k v m = m @ [(k, v)]"
  by (induction m) auto

lemma fold_update_distinct:
  "distinct (map fst (m @ kvs)) \<Longrightarrow> fold (\<lambda>(k, v). AList.update k v) kvs m = m @ kvs"
proof (induction kvs arbitrary: m)
  case Nil
  then show ?case by simp
next
  case (Cons p kvs)
  obtain k v where p: "p = (k, v)" by (cases p)
  have "AList.update k v m = m @ [(k, v)]"
    using Cons.prems p by (intro update_new) auto
  with Cons.IH [of "m @ [(k, v)]"] Cons.prems p show ?case by simp
qed

lemma hm_collect_distinct: "distinct (map fst kvs) \<Longrightarrow> hm_collect kvs = kvs"
  using fold_update_distinct [of "[]" kvs] by (simp add: hm_collect_def)

lemma map_of_map_snd [map_simps]:
  "map_of (map (\<lambda>(k, v). (k, f v)) m) = map_option f \<circ> map_of m"
  by (induction m) (auto simp: fun_eq_iff)

lemma map_fst_map_snd [simp]: "map fst (map (\<lambda>(k, v). (k, f v)) m) = map fst m"
  by (induction m) auto

lemma hm_collect_map:
  "hm_wf m \<Longrightarrow> hm_collect (map (\<lambda>(k, v). (k, f v)) m) = map (\<lambda>(k, v). (k, f v)) m"
  by (rule hm_collect_distinct) (unfold map_fst_map_snd hm_wf_def)

lemma map_of_hm_collect_map:
  "hm_wf m \<Longrightarrow> map_of (hm_collect (map (\<lambda>(k, v). (k, f v)) m)) = map_option f \<circ> map_of m"
  by (simp only: hm_collect_map map_of_map_snd)

lemma set_bset_extend: "set (bset_extend s ks) = set s \<union> set ks"
  by (induction ks arbitrary: s) (auto simp: bset_extend_def set_insort_insert)

lemma sorted_bset_extend: "sorted_wrt (<) s \<Longrightarrow> sorted_wrt (<) (bset_extend s ks)"
proof (induction ks arbitrary: s)
  case Nil
  then show ?case by (simp add: bset_extend_def)
next
  case (Cons k ks)
  have "sorted_wrt (<) (insort_insert k s)"
    using Cons.prems by (simp add: strict_sorted_iff sorted_insort_insert distinct_insort_insert)
  with Cons.IH show ?case by (simp add: bset_extend_def)
qed

subsection \<open>Transition systems\<close>

text \<open>An invariant: true at the start and kept by every step.\<close>

locale inductive_invariant =
  fixes init :: "'s \<Rightarrow> bool"
    and step :: "'s \<Rightarrow> 's \<Rightarrow> bool"
    and invariant :: "'s \<Rightarrow> bool"
  assumes invariant_init: "init s \<Longrightarrow> invariant s"
    and invariant_step: "invariant s \<Longrightarrow> step s t \<Longrightarrow> invariant t"
begin

lemma reach_invariant: "reach init step s \<Longrightarrow> invariant s"
  by (induction rule: reach.induct) (auto intro: invariant_init invariant_step)

end

text \<open>
  A system whose runs end: an action takes its cost from the rank of the state. The costs of a run
  are then bounded by the rank it starts with, and from every state a run of actions with a cost
  leads to one in which no such action is possible.
\<close>

locale ranked_system =
  fixes exec :: "'s \<Rightarrow> 'a \<Rightarrow> 's option"
    and invariant :: "'s \<Rightarrow> bool"
    and cost :: "'a \<Rightarrow> nat"
    and rank :: "'s \<Rightarrow> nat"
  assumes invariant_exec: "invariant s \<Longrightarrow> exec s a = Some t \<Longrightarrow> invariant t"
    and rank_exec: "invariant s \<Longrightarrow> exec s a = Some t \<Longrightarrow> cost a + rank t \<le> rank s"
begin

lemma runs_invariant: "invariant s \<Longrightarrow> runs exec acts s = Some t \<Longrightarrow> invariant t"
  by (induction acts arbitrary: s) (auto split: option.splits intro: invariant_exec)

lemma runs_bounded:
  "invariant s \<Longrightarrow> runs exec acts s = Some t \<Longrightarrow> (\<Sum>a\<leftarrow>acts. cost a) + rank t \<le> rank s"
proof (induction acts arbitrary: s)
  case (Cons a acts)
  then obtain u where u: "exec s a = Some u" "runs exec acts u = Some t"
    by (auto split: option.splits)
  have "invariant u" using Cons.prems(1) u(1) by (rule invariant_exec)
  then show ?case
    using Cons.IH [of u] u(2) rank_exec [OF Cons.prems(1) u(1)] by simp
qed simp

lemma runs_end:
  "invariant s \<Longrightarrow> \<exists>acts t. runs exec acts s = Some t \<and> (\<forall>a\<in>set acts. 0 < cost a)
     \<and> (\<forall>a. 0 < cost a \<longrightarrow> exec t a = None)"
proof (induction "rank s" arbitrary: s rule: less_induct)
  case less
  show ?case
  proof (cases "\<exists>a t. 0 < cost a \<and> exec s a = Some t")
    case True
    then obtain a t where a: "0 < cost a" "exec s a = Some t" by blast
    then have "rank t < rank s" using rank_exec [OF less.prems a(2)] by simp
    then obtain acts u where "runs exec acts t = Some u" "\<forall>a\<in>set acts. 0 < cost a"
        "\<forall>a. 0 < cost a \<longrightarrow> exec u a = None"
      using less.hyps invariant_exec [OF less.prems a(2)] by blast
    then show ?thesis using a by (intro exI [of _ "a # acts"] exI [of _ u]) auto
  next
    case False
    then have stuck: "\<forall>a. 0 < cost a \<longrightarrow> exec s a = None" by (metis not_None_eq)
    show ?thesis by (intro exI [of _ "[]"] exI [of _ s] conjI stuck) simp_all
  qed
qed

end

lemma runs_append:
  "runs exec (xs @ ys) s = (case runs exec xs s of None \<Rightarrow> None | Some t \<Rightarrow> runs exec ys t)"
  by (induction xs arbitrary: s) (auto split: option.splits)

lemma runs_keep:
  assumes "\<And>s a t. P s \<Longrightarrow> exec s a = Some t \<Longrightarrow> P t"
  shows "P s \<Longrightarrow> runs exec acts s = Some t \<Longrightarrow> P t"
  by (induction acts arbitrary: s) (auto split: option.splits intro: assms)

text \<open>Where something becomes true in a run, one action makes it true.\<close>

lemma runs_change:
  assumes "runs exec acts s = Some t" "\<not> P s" "P t"
  obtains before a after s1 s2 where "acts = before @ a # after" "runs exec before s = Some s1"
    "\<not> P s1" "exec s1 a = Some s2" "P s2" "runs exec after s2 = Some t"
  using assms
proof (induction acts arbitrary: s thesis)
  case (Cons a acts)
  then obtain u where u: "exec s a = Some u" "runs exec acts u = Some t"
    by (auto split: option.splits)
  show ?case
  proof (cases "P u")
    case True
    with Cons.prems(3) u show ?thesis by (intro Cons.prems(1) [of "[]" a acts s u]) auto
  next
    case False
    then obtain before b after s1 s2 where "acts = before @ b # after" "runs exec before u = Some s1"
        "\<not> P s1" "exec s1 b = Some s2" "P s2" "runs exec after s2 = Some t"
      using Cons.IH u(2) Cons.prems(4) by blast
    with u(1) show ?thesis by (intro Cons.prems(1) [of "a # before" b after s1 s2]) auto
  qed
qed simp

text \<open>
  A system explained by a simpler one that works in single atomic events: each of its steps adds
  events to the history, mostly none, and the simpler system performs exactly these. \<open>explained a h s\<close>
  relates a state of the simpler system and the history so far with a state of the system.
\<close>

locale history_simulation =
  fixes step :: "'s \<Rightarrow> 's \<Rightarrow> bool"
    and exec :: "'a \<Rightarrow> 'e \<Rightarrow> 'a option"
    and invariant :: "'s \<Rightarrow> bool"
    and explained :: "'a \<Rightarrow> 'e list \<Rightarrow> 's \<Rightarrow> bool"
  assumes invariant_step: "invariant s \<Longrightarrow> step s t \<Longrightarrow> invariant t"
    and simulated: "invariant s \<Longrightarrow> step s t \<Longrightarrow> explained a h s \<Longrightarrow>
      \<exists>h' a'. runs exec h' a = Some a' \<and> explained a' (h @ h') t"
begin

lemma steps_invariant: "step\<^sup>*\<^sup>* s t \<Longrightarrow> invariant s \<Longrightarrow> invariant t"
  by (induction rule: rtranclp_induct) (auto intro: invariant_step)

lemma steps_simulated:
  "step\<^sup>*\<^sup>* s t \<Longrightarrow> invariant s \<Longrightarrow> explained a h s \<Longrightarrow>
     \<exists>h' a'. runs exec h' a = Some a' \<and> explained a' (h @ h') t"
proof (induction rule: rtranclp_induct)
  case base
  then show ?case by (intro exI [of _ "[]"] exI [of _ a]) simp
next
  case (step t u)
  then obtain h1 a1 where h1: "runs exec h1 a = Some a1" "explained a1 (h @ h1) t" by blast
  moreover have "invariant t" using steps_invariant step.hyps(1) step.prems(1) by blast
  ultimately obtain h2 a2 where "runs exec h2 a1 = Some a2" "explained a2 ((h @ h1) @ h2) u"
    using simulated [OF _ step.hyps(2) h1(2)] by blast
  with h1(1) show ?case by (intro exI [of _ "h1 @ h2"] exI [of _ a2]) (simp add: runs_append)
qed

end

end
