(* ===== verification/Socket_Addr.thy ===== *)
theory Socket_Addr
  imports Prelude
begin

section \<open>Socket addresses of the standard library\<close>

text \<open>
  \<open>str::parse::<SocketAddr>\<close> as the standard library's parser does it, which the service uses for
  its listening addresses. A parser takes the remaining input and returns a value with the input it
  leaves; a failed alternative leaves the input where it was.
\<close>

type_synonym 'a addr_parser = "string \<Rightarrow> ('a \<times> string) option"

datatype socket_addr =
    SocketAddrV4 "int list" int
      \<comment> \<open>four octets, port\<close>
  | SocketAddrV6 "int list" int int
      \<comment> \<open>eight groups, scope id, port\<close>

definition read_given_char :: "char \<Rightarrow> unit addr_parser" where
  "read_given_char c s = (case s of [] \<Rightarrow> None | x # xs \<Rightarrow> if x = c then Some ((), xs) else None)"

text \<open>\<open>char::to_digit\<close> for radix 10 and 16.\<close>

definition to_digit :: "int \<Rightarrow> char \<Rightarrow> int option" where
  "to_digit radix c =
     (let n = of_char c;
          d = (if 48 \<le> n \<and> n \<le> 57 then n - 48
               else if 97 \<le> n \<and> n \<le> 102 then n - 87
               else if 65 \<le> n \<and> n \<le> 70 then n - 55
               else radix)
      in if d < radix then Some d else None)"

fun read_digits :: "int \<Rightarrow> string \<Rightarrow> int list \<times> string" where
  "read_digits radix [] = ([], [])"
| "read_digits radix (c # s) =
     (case to_digit radix c of
        None \<Rightarrow> ([], c # s)
      | Some d \<Rightarrow> (case read_digits radix s of (ds, rest) \<Rightarrow> (d # ds, rest)))"

definition digits_value :: "int \<Rightarrow> int list \<Rightarrow> int" where
  "digits_value radix ds = foldl (\<lambda>n d. n * radix + d) 0 ds"

text \<open>
  \<open>read_number\<close>: with a bound on the number of digits, or else with checked arithmetic; in both
  cases the value has to fit the target type, whose largest value is \<open>limit\<close>.
\<close>

definition read_number ::
  "int \<Rightarrow> nat option \<Rightarrow> bool \<Rightarrow> int \<Rightarrow> int addr_parser" where
  "read_number radix max_digits allow_zero_prefix limit s =
     (case read_digits radix s of
        (ds, rest) \<Rightarrow>
          if ds = [] then None
          else if (case max_digits of Some m \<Rightarrow> m < length ds | None \<Rightarrow> False) then None
          else if limit < digits_value radix ds then None
          else if \<not> allow_zero_prefix \<and> hd ds = 0 \<and> 1 < length ds then None
          else Some (digits_value radix ds, rest))"

definition read_separator :: "char \<Rightarrow> nat \<Rightarrow> 'a addr_parser \<Rightarrow> 'a addr_parser" where
  "read_separator sep i inner s =
     (if 0 < i then Option.bind (read_given_char sep s) (\<lambda>(_, s'). inner s') else inner s)"

fun read_octets :: "nat \<Rightarrow> nat \<Rightarrow> int list addr_parser" where
  "read_octets i 0 s = Some ([], s)"
| "read_octets i (Suc n) s =
     Option.bind (read_separator (CHR ''.'') i (read_number 10 (Some 3) False 255) s) (\<lambda>(x, s1).
     Option.bind (read_octets (Suc i) n s1) (\<lambda>(xs, s2). Some (x # xs, s2)))"

definition read_ipv4_addr :: "int list addr_parser" where
  "read_ipv4_addr s = read_octets 0 4 s"

text \<open>
  The groups of an IPv6 address, at most \<open>n\<close> more after the first \<open>i\<close>; the flag tells whether they
  end with an embedded IPv4 address, which takes two groups.
\<close>

fun read_groups :: "nat \<Rightarrow> nat \<Rightarrow> string \<Rightarrow> int list \<times> bool \<times> string" where
  "read_groups i 0 s = ([], False, s)"
| "read_groups i (Suc n) s =
     (case (if 0 < n then read_separator (CHR '':'') i read_ipv4_addr s else None) of
        Some (octets, s1) \<Rightarrow>
          ([octets ! 0 * 256 + octets ! 1, octets ! 2 * 256 + octets ! 3], True, s1)
      | None \<Rightarrow>
          (case read_separator (CHR '':'') i (read_number 16 (Some 4) True 65535) s of
             None \<Rightarrow> ([], False, s)
           | Some (g, s1) \<Rightarrow>
               (case read_groups (Suc i) n s1 of (gs, v4, s2) \<Rightarrow> (g # gs, v4, s2))))"

definition read_ipv6_addr :: "int list addr_parser" where
  "read_ipv6_addr s =
     (case read_groups 0 8 s of
        (head, head_ipv4, s1) \<Rightarrow>
          if length head = 8 then Some (head, s1)
          else if head_ipv4 then None
          else
            Option.bind (read_given_char (CHR '':'') s1) (\<lambda>(_, s2).
            Option.bind (read_given_char (CHR '':'') s2) (\<lambda>(_, s3).
            case read_groups 0 (8 - (length head + 1)) s3 of
              (tail, _, s4) \<Rightarrow>
                Some (head @ replicate (8 - length head - length tail) 0 @ tail, s4))))"

definition read_port :: "int addr_parser" where
  "read_port s =
     Option.bind (read_given_char (CHR '':'') s) (\<lambda>(_, s1). read_number 10 None True 65535 s1)"

definition read_scope_id :: "int addr_parser" where
  "read_scope_id s =
     Option.bind (read_given_char (CHR ''%'') s) (\<lambda>(_, s1). read_number 10 None True 4294967295 s1)"

definition read_socket_addr_v4 :: "socket_addr addr_parser" where
  "read_socket_addr_v4 s =
     Option.bind (read_ipv4_addr s) (\<lambda>(ip, s1).
     Option.bind (read_port s1) (\<lambda>(port, s2). Some (SocketAddrV4 ip port, s2)))"

definition read_socket_addr_v6 :: "socket_addr addr_parser" where
  "read_socket_addr_v6 s =
     Option.bind (read_given_char (CHR ''['') s) (\<lambda>(_, s1).
     Option.bind (read_ipv6_addr s1) (\<lambda>(ip, s2).
     let (scope_id, s3) = (case read_scope_id s2 of Some (i, s3) \<Rightarrow> (i, s3) | None \<Rightarrow> (0, s2)) in
     Option.bind (read_given_char (CHR '']'') s3) (\<lambda>(_, s4).
     Option.bind (read_port s4) (\<lambda>(port, s5). Some (SocketAddrV6 ip scope_id port, s5)))))"

definition parse_socket_addr :: "string \<Rightarrow> (socket_addr, string) result" where
  "parse_socket_addr s =
     (case (case read_socket_addr_v4 s of Some r \<Rightarrow> Some r | None \<Rightarrow> read_socket_addr_v6 s) of
        Some (addr, []) \<Rightarrow> Ok addr
      | _ \<Rightarrow> Err ''invalid socket address syntax'')"

subsection \<open>Examples\<close>

lemma parse_any_v4: "parse_socket_addr ''0.0.0.0:50051'' = Ok (SocketAddrV4 [0, 0, 0, 0] 50051)"
  by code_simp

lemma parse_leading_zero: "\<not> is_ok (parse_socket_addr ''0.0.0.01:50051'')"
  by code_simp

lemma parse_loopback_v6:
  "parse_socket_addr ''[::1]:50051'' = Ok (SocketAddrV6 [0, 0, 0, 0, 0, 0, 0, 1] 0 50051)"
  by code_simp

end
