(* ===== verification/Config.thy ===== *)
theory Config
  imports Socket_Addr
begin

section \<open>Configuration from the environment (config/storage.rs, config/grpc.rs)\<close>

text \<open>
  The process environment is the list of its variables as the operating system holds them: arbitrary
  bytes. \<open>std::env::var\<close> fails for a variable that is absent or not UTF-8, and \<open>std::env::vars\<close>
  panics when it meets any name or value that is not UTF-8 (\<open>None\<close> below). The properties: the
  allowlist compares whole path segments; a variable with content that is not UTF-8 cannot switch off
  the API key or the allowlist of a process that starts.
\<close>

type_synonym environment = "(string \<times> string) list"

datatype var_error = NotPresent | NotUnicode string

subsection \<open>UTF-8\<close>

definition byte_in :: "char \<Rightarrow> nat \<Rightarrow> nat \<Rightarrow> bool" where
  "byte_in c lo hi \<longleftrightarrow> lo \<le> of_char c \<and> of_char c \<le> hi"

definition utf8_continuation :: "char \<Rightarrow> bool" where
  "utf8_continuation c \<longleftrightarrow> byte_in c 0x80 0xBF"

text \<open>The well-formed byte sequences of the Unicode standard, as \<open>str::from_utf8\<close> checks them.\<close>

fun utf8_valid :: "string \<Rightarrow> bool" where
  "utf8_valid [] \<longleftrightarrow> True"
| "utf8_valid (a # s) \<longleftrightarrow>
     (if byte_in a 0 0x7F then utf8_valid s
      else if byte_in a 0xC2 0xDF then
        (case s of b # s1 \<Rightarrow> utf8_continuation b \<and> utf8_valid s1 | _ \<Rightarrow> False)
      else if byte_in a 0xE0 0xEF then
        (case s of
           b # c # s1 \<Rightarrow>
             (if byte_in a 0xE0 0xE0 then byte_in b 0xA0 0xBF
              else if byte_in a 0xED 0xED then byte_in b 0x80 0x9F
              else utf8_continuation b)
             \<and> utf8_continuation c \<and> utf8_valid s1
         | _ \<Rightarrow> False)
      else if byte_in a 0xF0 0xF4 then
        (case s of
           b # c # d # s1 \<Rightarrow>
             (if byte_in a 0xF0 0xF0 then byte_in b 0x90 0xBF
              else if byte_in a 0xF4 0xF4 then byte_in b 0x80 0x8F
              else utf8_continuation b)
             \<and> utf8_continuation c \<and> utf8_continuation d \<and> utf8_valid s1
         | _ \<Rightarrow> False)
      else False)"

definition env_var :: "environment \<Rightarrow> string \<Rightarrow> (string, var_error) result" where
  "env_var env key =
     (case map_of env key of
        None \<Rightarrow> Err NotPresent
      | Some v \<Rightarrow> if utf8_valid v then Ok v else Err (NotUnicode v))"

definition env_vars :: "environment \<Rightarrow> environment option" where
  "env_vars env = (if \<forall>(k, v)\<in>set env. utf8_valid k \<and> utf8_valid v then Some env else None)"

subsection \<open>Storage options and the table allowlist\<close>

definition load_storage_options :: "environment \<Rightarrow> string hash_map option" where
  "load_storage_options env =
     map_option
       (\<lambda>vars. fold (\<lambda>(k, v) opts. if starts_with k ''AWS_'' then AList.update k v opts else opts)
          vars [])
       (env_vars env)"

definition load_allowed_table_prefixes :: "environment \<Rightarrow> string list option" where
  "load_allowed_table_prefixes env =
     (case result_ok (env_var env ''DELTA_TXN_ALLOWED_TABLE_PREFIXES'') of
        None \<Rightarrow> None
      | Some raw \<Rightarrow>
          let allowed = filter (\<lambda>s. s \<noteq> []) (map trim (split_char (CHR '','') raw))
          in if allowed = [] then None else Some allowed)"

definition is_table_uri_allowed :: "string \<Rightarrow> string list option \<Rightarrow> bool" where
  "is_table_uri_allowed table_uri allowlist =
     (case allowlist of
        None \<Rightarrow> True
      | Some allowed \<Rightarrow>
          list_ex (\<lambda>pre.
            let pre = unwrap_or (strip_suffix_char pre (CHR ''/'')) pre
            in table_uri = pre
               \<or> (case strip_prefix table_uri pre of
                    None \<Rightarrow> False
                  | Some rest \<Rightarrow> starts_with rest ''/'')) allowed)"

subsection \<open>The gRPC server\<close>

record tls_config =
  cert_path :: string
  key_path :: string

record grpc_config =
  addr :: socket_addr
  tls :: "tls_config option"
  api_key :: "string option"

definition load_api_key :: "environment \<Rightarrow> string option" where
  "load_api_key env =
     Option.bind (result_ok (env_var env ''DELTA_TXN_GRPC_API_KEY'')) (\<lambda>v.
       let trimmed = trim v in if trimmed = [] then None else Some trimmed)"

definition load_grpc_config :: "environment \<Rightarrow> (grpc_config, string) result" where
  "load_grpc_config env =
     (let addr_env = unwrap_or (result_ok (env_var env ''DELTA_TXN_GRPC_ADDR'')) ''0.0.0.0:50051''
      in and_then (parse_socket_addr addr_env) (\<lambda>a.
         let cert = result_ok (env_var env ''DELTA_TXN_GRPC_TLS_CERT'');
             key = result_ok (env_var env ''DELTA_TXN_GRPC_TLS_KEY'')
         in and_then
              (case (cert, key) of
                 (Some cert, Some key) \<Rightarrow> Ok (Some \<lparr>cert_path = cert, key_path = key\<rparr>)
               | (None, None) \<Rightarrow> Ok None
               | _ \<Rightarrow> Err ''DELTA_TXN_GRPC_TLS_CERT and DELTA_TXN_GRPC_TLS_KEY must both be set'')
              (\<lambda>t. Ok \<lparr>addr = a, tls = t, api_key = load_api_key env\<rparr>)))"

section \<open>Lemmas\<close>

subsection \<open>Path segments\<close>

text \<open>A URI lies at or below another when its path segments continue the other's.\<close>

definition segments :: "string \<Rightarrow> string list" where
  "segments uri = split_char (CHR ''/'') uri"

definition at_or_below :: "string \<Rightarrow> string \<Rightarrow> bool" where
  "at_or_below dir uri \<longleftrightarrow> prefix (segments dir) (segments uri)"

definition chop_slash :: "string \<Rightarrow> string" where
  "chop_slash p = unwrap_or (strip_suffix_char p (CHR ''/'')) p"

lemma split_char_append_sep: "split_char c (s @ c # t) = split_char c s @ split_char c t"
proof (induction s)
  case (Cons x s)
  then show ?case by (cases "split_char c s") auto
qed simp

lemma split_char_inject: "split_char c s = split_char c t \<longleftrightarrow> s = t"
  by (metis join_split_char)

lemma join_char_append:
  "ps \<noteq> [] \<Longrightarrow> qs \<noteq> [] \<Longrightarrow> join_char c (ps @ qs) = join_char c ps @ c # join_char c qs"
  by (induction c ps rule: join_char.induct) (auto simp: join_char_Cons)

lemma prefix_split_char_iff:
  "prefix (split_char c p) (split_char c s) \<longleftrightarrow> s = p \<or> (\<exists>t. s = p @ c # t)"
proof
  assume "prefix (split_char c p) (split_char c s)"
  then obtain qs where qs: "split_char c s = split_char c p @ qs"
    by (auto simp: prefix_def)
  show "s = p \<or> (\<exists>t. s = p @ c # t)"
  proof (cases "qs = []")
    case True
    with qs show ?thesis by (simp add: split_char_inject)
  next
    case False
    have "s = join_char c (split_char c p @ qs)"
      by (simp flip: qs add: join_split_char)
    with False show ?thesis by (simp add: join_char_append join_split_char)
  qed
qed (auto simp: split_char_append_sep)

lemma at_or_below_iff: "at_or_below dir uri \<longleftrightarrow> uri = dir \<or> (\<exists>t. uri = dir @ CHR ''/'' # t)"
  unfolding at_or_below_def segments_def by (rule prefix_split_char_iff)

lemma starts_with_slash_iff: "starts_with s ''/'' \<longleftrightarrow> (\<exists>t. s = CHR ''/'' # t)"
  by (cases s) (auto simp: starts_with_def)

lemma prefix_match_iff:
  "uri = p \<or> (case strip_prefix uri p of None \<Rightarrow> False | Some rest \<Rightarrow> starts_with rest ''/'')
     \<longleftrightarrow> at_or_below p uri"
  by (auto simp: at_or_below_iff starts_with_slash_iff strip_prefix_def prefix_def)

lemma is_table_uri_allowed_segments:
  "is_table_uri_allowed uri (Some ps) \<longleftrightarrow> (\<exists>p\<in>set ps. at_or_below (chop_slash p) uri)"
  by (simp add: is_table_uri_allowed_def list_ex_iff Let_def prefix_match_iff chop_slash_def)

subsection \<open>The environment\<close>

lemma env_var_started:
  assumes "load_storage_options env = Some opts"
  shows "result_ok (env_var env key) = map_of env key"
proof -
  have "utf8_valid v" if "map_of env key = Some v" for v
    using assms map_of_SomeD [OF that]
    by (auto simp: load_storage_options_def env_vars_def split: if_splits)
  then show ?thesis by (auto simp: env_var_def split: option.splits)
qed

lemma map_of_storage_fold:
  "map_of (fold (\<lambda>(k, v) opts. if P k then AList.update k v opts else opts) vars opts) k =
     (if P k then (case map_of (rev vars) k of Some v \<Rightarrow> Some v | None \<Rightarrow> map_of opts k)
      else map_of opts k)"
proof (induction vars arbitrary: opts)
  case (Cons p vars)
  then show ?case
    by (cases p) (auto simp: update_conv' map_add_def split: option.splits)
qed simp

section \<open>Properties\<close>

text \<open>
  Property C31 (allowlist_is_segment_aware). With an allowlist a table URI is admitted exactly when
  it is one of the configured prefixes or lies below one segment by segment; a trailing slash of a
  configured prefix makes no difference, and a sibling that only shares characters is refused.
\<close>

theorem allowlist_is_segment_aware:
  "(is_table_uri_allowed uri (Some ps) \<longleftrightarrow>
      (\<exists>p\<in>set ps. prefix (segments (chop_slash p)) (segments uri)))
   \<and> (is_table_uri_allowed uri (Some (map (\<lambda>p. p @ ''/'') qs)) \<longleftrightarrow>
      (\<exists>q\<in>set qs. prefix (segments q) (segments uri)))
   \<and> (\<forall>c t. c \<noteq> CHR ''/'' \<longrightarrow> last p \<noteq> CHR ''/'' \<longrightarrow> p \<noteq> [] \<longrightarrow>
        \<not> is_table_uri_allowed (p @ c # t) (Some [p]))"
proof (intro conjI allI impI)
  show "is_table_uri_allowed uri (Some ps) \<longleftrightarrow>
      (\<exists>p\<in>set ps. prefix (segments (chop_slash p)) (segments uri))"
    by (simp add: is_table_uri_allowed_segments at_or_below_def)
  show "is_table_uri_allowed uri (Some (map (\<lambda>p. p @ ''/'') qs)) \<longleftrightarrow>
      (\<exists>q\<in>set qs. prefix (segments q) (segments uri))"
    by (simp add: is_table_uri_allowed_segments at_or_below_def chop_slash_def
        strip_suffix_char_def rust_simps)
  fix c t assume "c \<noteq> CHR ''/''" "last p \<noteq> CHR ''/''" "p \<noteq> []"
  then show "\<not> is_table_uri_allowed (p @ c # t) (Some [p])"
    by (simp add: is_table_uri_allowed_segments at_or_below_iff chop_slash_def
        strip_suffix_char_def rust_simps)
qed

text \<open>
  When the configuration of a process is read without
  a panic, the API key is absent only if its variable is absent or blank, the allowlist is absent
  only if its variable is absent or has no entry that is not blank, and TLS is on exactly when both
  of its variables are set: a value that is not UTF-8 never counts as unset.
\<close>

theorem startup_cannot_lose_protection:
  assumes "load_grpc_config env = Ok cfg" and "load_storage_options env = Some opts"
  shows "(api_key cfg = None \<longleftrightarrow>
      (\<forall>v. map_of env ''DELTA_TXN_GRPC_API_KEY'' = Some v \<longrightarrow> trim v = []))
    \<and> (load_allowed_table_prefixes env = None \<longleftrightarrow>
      (\<forall>v. map_of env ''DELTA_TXN_ALLOWED_TABLE_PREFIXES'' = Some v \<longrightarrow>
         (\<forall>p\<in>set (split_char (CHR '','') v). trim p = [])))
    \<and> (tls cfg = None \<longleftrightarrow>
      map_of env ''DELTA_TXN_GRPC_TLS_CERT'' = None \<and> map_of env ''DELTA_TXN_GRPC_TLS_KEY'' = None)"
proof (intro conjI)
  note var = env_var_started [OF assms(2)]
  have cfg: "api_key cfg = load_api_key env"
    using assms(1) by (auto simp: load_grpc_config_def Let_def rust_simps)
  show "api_key cfg = None \<longleftrightarrow>
      (\<forall>v. map_of env ''DELTA_TXN_GRPC_API_KEY'' = Some v \<longrightarrow> trim v = [])"
    by (cases "map_of env ''DELTA_TXN_GRPC_API_KEY''") (simp_all add: cfg load_api_key_def var Let_def)
  show "load_allowed_table_prefixes env = None \<longleftrightarrow>
      (\<forall>v. map_of env ''DELTA_TXN_ALLOWED_TABLE_PREFIXES'' = Some v \<longrightarrow>
         (\<forall>p\<in>set (split_char (CHR '','') v). trim p = []))"
    by (auto simp: load_allowed_table_prefixes_def var Let_def filter_empty_conv split: option.splits)
  show "tls cfg = None \<longleftrightarrow>
      map_of env ''DELTA_TXN_GRPC_TLS_CERT'' = None \<and> map_of env ''DELTA_TXN_GRPC_TLS_KEY'' = None"
    using assms(1)
    by (auto simp: load_grpc_config_def Let_def rust_simps var split: option.splits)
qed

text \<open>
  The storage options are exactly the variables
  whose name starts with AWS_, under their own names and values.
\<close>

theorem storage_options_are_the_aws_variables:
  assumes "load_storage_options env = Some opts" and "distinct (map fst env)"
  shows "map_of opts k = (if prefix ''AWS_'' k then map_of env k else None)"
  using assms
  by (auto simp: load_storage_options_def env_vars_def map_of_storage_fold starts_with_def
      map_of_rev_distinct split: if_splits option.splits)

section \<open>Witnesses\<close>

definition sample_env :: environment where
  "sample_env =
     [(''AWS_REGION'', ''eu''), (''HOME'', ''/root''), (''DELTA_TXN_GRPC_API_KEY'', '' key ''),
      (''DELTA_TXN_ALLOWED_TABLE_PREFIXES'', ''s3://b/t, ,'')]"

lemma sample_env_options: "load_storage_options sample_env = Some [(''AWS_REGION'', ''eu'')]"
  by code_simp

lemma sample_env_config:
  "load_grpc_config sample_env =
     Ok \<lparr>addr = SocketAddrV4 [0, 0, 0, 0] 50051, tls = None, api_key = Some ''key''\<rparr>"
  by code_simp

theorem allowlist_is_segment_aware_witness:
  "is_table_uri_allowed ''s3://bucket/tables/foo'' (Some [''s3://bucket/tables/''])
   \<and> \<not> is_table_uri_allowed ''s3://bucket/tables-other/x'' (Some [''s3://bucket/tables''])"
proof
  have "\<exists>q\<in>set [''s3://bucket/tables'']. prefix (segments q) (segments ''s3://bucket/tables/foo'')"
    by code_simp
  then show "is_table_uri_allowed ''s3://bucket/tables/foo'' (Some [''s3://bucket/tables/''])"
    using allowlist_is_segment_aware
      [of "''s3://bucket/tables/foo''" "[]" "[''s3://bucket/tables'']" "''x''"]
    by (auto simp del: One_nat_def)
  show "\<not> is_table_uri_allowed ''s3://bucket/tables-other/x'' (Some [''s3://bucket/tables''])"
    using allowlist_is_segment_aware [of "[]" "[]" "[]" "''s3://bucket/tables''",
        THEN conjunct2, THEN conjunct2, rule_format, of "CHR ''-''" "''other/x''"]
    by simp
qed

theorem startup_cannot_lose_protection_witness:
  "load_grpc_config sample_env =
     Ok \<lparr>addr = SocketAddrV4 [0, 0, 0, 0] 50051, tls = None, api_key = Some ''key''\<rparr>
   \<and> load_allowed_table_prefixes sample_env \<noteq> None"
proof -
  have "\<exists>p\<in>set (split_char (CHR '','') ''s3://b/t, ,''). trim p \<noteq> []"
    by code_simp
  then show ?thesis
    using startup_cannot_lose_protection [OF sample_env_config sample_env_options] sample_env_config
    by (simp add: sample_env_def)
qed

theorem storage_options_are_the_aws_variables_witness:
  "map_of [(''AWS_REGION'', ''eu'')] ''AWS_REGION'' = Some ''eu''
   \<and> load_storage_options sample_env = Some [(''AWS_REGION'', ''eu'')]"
  using storage_options_are_the_aws_variables [OF sample_env_options, of "''AWS_REGION''"]
    sample_env_options
  by (simp add: sample_env_def)

end
