(* ===== verification/Json.thy ===== *)
theory Json
  imports Prelude
begin

section \<open>JSON documents and the JSON library\<close>

text \<open>
  \<open>serde_json::Value\<close> as a datatype with the variants the source matches on. An object is a
  \<open>BTreeMap\<close> (the library's default map), here a sorted association list. The representation of
  numbers, and the conversion between documents and text, belong to the library: the type of numbers
  is a type parameter and the functions the source calls are the fields of a record of parameters.
  What the mapping code relies on is stated as predicates on that record; they are hypotheses of the
  theorems that need them.
\<close>

datatype 'n json =
    JNull
  | JBool bool
  | JNumber 'n
  | JString string
  | JArray "'n json list"
  | JObject "(string \<times> 'n json) list"

record 'n serde =
  num_from_i64 :: "i64 \<Rightarrow> 'n"                         \<comment> \<open>\<open>Value::from(i64)\<close>, \<open>json!\<close> on integers\<close>
  num_from_f64 :: "f64 \<Rightarrow> 'n option"                  \<comment> \<open>\<open>Number::from_f64\<close>\<close>
  num_as_i64 :: "'n \<Rightarrow> i64 option"                    \<comment> \<open>\<open>Number::as_i64\<close>\<close>
  num_as_u64 :: "'n \<Rightarrow> u64 option"                    \<comment> \<open>\<open>Number::as_u64\<close>\<close>
  num_as_f64 :: "'n \<Rightarrow> f64 option"                    \<comment> \<open>\<open>Number::as_f64\<close>\<close>
  value_to_string :: "'n json \<Rightarrow> string option"       \<comment> \<open>\<open>to_string(&Value).ok()\<close>\<close>
  value_from_str :: "string \<Rightarrow> 'n json option"        \<comment> \<open>\<open>from_str::<Value>(..).ok()\<close>\<close>
  strings_to_string :: "string hash_map \<Rightarrow> (string, string) result"
                                                      \<comment> \<open>\<open>to_string(&HashMap<String, String>)\<close>\<close>

subsection \<open>Accessors of a document\<close>

fun json_get :: "'n json \<Rightarrow> string \<Rightarrow> 'n json option" where
  "json_get (JObject m) k = map_of m k"
| "json_get v k = None"

fun as_object :: "'n json \<Rightarrow> (string \<times> 'n json) list option" where
  "as_object (JObject m) = Some m"
| "as_object v = None"

fun as_str :: "'n json \<Rightarrow> string option" where
  "as_str (JString s) = Some s"
| "as_str v = None"

fun as_i64 :: "('n, 'z) serde_scheme \<Rightarrow> 'n json \<Rightarrow> i64 option" where
  "as_i64 sj (JNumber n) = num_as_i64 sj n"
| "as_i64 sj v = None"

fun as_u64 :: "('n, 'z) serde_scheme \<Rightarrow> 'n json \<Rightarrow> u64 option" where
  "as_u64 sj (JNumber n) = num_as_u64 sj n"
| "as_u64 sj v = None"

text \<open>\<open>json!({..})\<close> inserts its keys in turn; \<open>json!\<close> of an \<open>Option<String>\<close> is null for \<open>None\<close>.\<close>

definition json_object :: "(string \<times> 'n json) list \<Rightarrow> 'n json" where
  "json_object kvs = JObject (fold (\<lambda>(k, v). bt_insert k v) kvs [])"

definition json_opt :: "('a \<Rightarrow> 'n json) \<Rightarrow> 'a option \<Rightarrow> 'n json" where
  "json_opt f x = (case x of None \<Rightarrow> JNull | Some a \<Rightarrow> f a)"

subsection \<open>What the service relies on\<close>

text \<open>
  Integers come back as the integers they were; a float is a number exactly when it is finite, and
  then it is no integer and comes back as the float it was.
\<close>

definition serde_numbers_ok :: "('n, 'z) serde_scheme \<Rightarrow> bool" where
  "serde_numbers_ok sj \<longleftrightarrow>
     (\<forall>v. num_as_i64 sj (num_from_i64 sj v) = Some v) \<and>
     (\<forall>v. num_from_f64 sj v = None \<longleftrightarrow> \<not> f64_is_finite v) \<and>
     (\<forall>v n. num_from_f64 sj v = Some n \<longrightarrow> num_as_i64 sj n = None \<and> num_as_f64 sj n = Some v)"

text \<open>
  A document is written as text that reads back as the same document. This is a hypothesis on single
  documents: the library promises it for integers, strings and booleans, and for floats only where
  reading rounds correctly.
\<close>

definition json_text_ok :: "('n, 'z) serde_scheme \<Rightarrow> 'n json \<Rightarrow> bool" where
  "json_text_ok sj v \<longleftrightarrow> (\<exists>s. value_to_string sj v = Some s \<and> value_from_str sj s = Some v)"

subsection \<open>Lemmas\<close>

lemma json_object_get [map_simps]:
  "distinct (map fst kvs) \<Longrightarrow> json_get (json_object kvs) k = map_of kvs k"
  by (simp add: json_object_def bt.get_collect_distinct)

lemma serde_numbersD:
  assumes "serde_numbers_ok sj"
  shows "num_as_i64 sj (num_from_i64 sj v) = Some v"
    and "num_from_f64 sj x = None \<longleftrightarrow> \<not> f64_is_finite x"
    and "num_from_f64 sj x = Some n \<Longrightarrow> num_as_i64 sj n = None"
    and "num_from_f64 sj x = Some n \<Longrightarrow> num_as_f64 sj n = Some x"
  using assms by (auto simp: serde_numbers_ok_def)

lemma serde_f64_not_finite:
  "serde_numbers_ok sj \<Longrightarrow> \<not> f64_is_finite x \<Longrightarrow> num_from_f64 sj x = None"
  by (simp add: serde_numbersD)

lemma serde_f64_finite:
  assumes "serde_numbers_ok sj" "f64_is_finite x"
  shows "\<exists>n. num_from_f64 sj x = Some n \<and> num_as_i64 sj n = None \<and> num_as_f64 sj n = Some x"
proof -
  obtain n where n: "num_from_f64 sj x = Some n"
    using assms serde_numbersD(2) [of sj x] by auto
  then show ?thesis using serde_numbersD(3,4) [OF assms(1) n] by simp
qed

end
