(* ===== verification/Kernel_Types.thy ===== *)
theory Kernel_Types
  imports Json
begin

section \<open>The actions and operations of delta-rs the service builds\<close>

text \<open>
  The structures of the delta-rs kernel with the fields the source sets. \<open>Protocol\<close> and \<open>Metadata\<close>
  are only built by the library's own deserializer and only read through its accessors, so they are
  the type parameters \<open>'p\<close> and \<open>'m\<close>.
\<close>

typedecl deletion_vector
typedecl merge_predicate

record kernel_add =
  ka_path :: string
  ka_size :: i64
  ka_modification_time :: i64
  ka_partition_values :: "string option hash_map"
  ka_data_change :: bool
  ka_stats :: "string option"
  ka_tags :: "string option hash_map option"
  ka_deletion_vector :: "deletion_vector option"
  ka_base_row_id :: "i64 option"
  ka_default_row_commit_version :: "i64 option"
  ka_clustering_provider :: "string option"

record kernel_remove =
  kr_path :: string
  kr_deletion_timestamp :: "i64 option"
  kr_data_change :: bool
  kr_extended_file_metadata :: "bool option"
  kr_partition_values :: "string option hash_map option"
  kr_size :: "i64 option"
  kr_tags :: "string option hash_map option"
  kr_deletion_vector :: "deletion_vector option"
  kr_base_row_id :: "i64 option"
  kr_default_row_commit_version :: "i64 option"

record 'n kernel_commit_info =
  kc_timestamp :: "i64 option"
  kc_operation :: "string option"
  kc_operation_parameters :: "'n json hash_map option"
  kc_engine_info :: "string option"
  kc_user_metadata :: "string option"

datatype ('n, 'p, 'm) kernel_action =
    KAdd kernel_add
  | KRemove kernel_remove
  | KProtocol 'p
  | KMetadata 'm
  | KCommitInfo "'n kernel_commit_info"

datatype save_mode = Append | ErrorIfExists

datatype ('p, 'm) delta_operation =
    OpWrite save_mode "string list option" "string option"
      \<comment> \<open>mode, \<open>partition_by\<close>, \<open>predicate\<close>\<close>
  | OpMerge "string option" "string option" "merge_predicate list" "merge_predicate list"
      "merge_predicate list"
      \<comment> \<open>\<open>predicate\<close>, \<open>merge_predicate\<close> and the three lists of clause predicates\<close>
  | OpUpdate "string option"
  | OpDelete "string option"
  | OpOptimize "string option" i64
      \<comment> \<open>\<open>predicate\<close>, \<open>target_size\<close>\<close>
  | OpVacuumStart bool "i64 option" i64
      \<comment> \<open>\<open>retention_check_enabled\<close>, \<open>specified_retention_millis\<close>, \<open>default_retention_millis\<close>\<close>
  | OpRestore "u64 option" "i64 option"
      \<comment> \<open>\<open>version\<close>, \<open>datetime\<close>\<close>
  | OpCreate save_mode string 'p 'm
      \<comment> \<open>mode, location, protocol, metadata\<close>

text \<open>The deserializers of the library that \<open>serde_json::from_value\<close> runs.\<close>

record ('n, 'p, 'm) kernel_serde = "'n serde" +
  protocol_from_value :: "'n json \<Rightarrow> ('p, string) result"
  metadata_from_value :: "'n json \<Rightarrow> ('m, string) result"

subsection \<open>A sample JSON library\<close>

text \<open>
  An instance of the parameters for concrete evaluations: a number is an integer or a finite float,
  one document \<open>doc\<close> has a text, and the deserializers accept every document as it is.
\<close>

datatype sample_number = SampleInt i64 | SampleFloat f64

fun sample_as_i64 :: "sample_number \<Rightarrow> i64 option" where
  "sample_as_i64 (SampleInt v) = Some v"
| "sample_as_i64 (SampleFloat v) = None"

fun sample_as_f64 :: "sample_number \<Rightarrow> f64 option" where
  "sample_as_f64 (SampleInt v) = None"
| "sample_as_f64 (SampleFloat v) = Some v"

definition sample_serde ::
  "sample_number json \<Rightarrow>
     (sample_number, sample_number json, sample_number json) kernel_serde" where
  "sample_serde doc =
     \<lparr>num_from_i64 = SampleInt,
      num_from_f64 = (\<lambda>v. if f64_is_finite v then Some (SampleFloat v) else None),
      num_as_i64 = sample_as_i64,
      num_as_u64 = sample_as_i64,
      num_as_f64 = sample_as_f64,
      value_to_string = (\<lambda>v. if v = doc then Some ''doc'' else None),
      value_from_str = (\<lambda>s. if s = ''doc'' then Some doc else None),
      strings_to_string = (\<lambda>m. Ok (concat (map (\<lambda>(k, v). k @ v) m))),
      protocol_from_value = Ok,
      metadata_from_value = Ok\<rparr>"

lemma sample_serde_numbers_ok: "serde_numbers_ok (sample_serde doc)"
  by (auto simp: serde_numbers_ok_def sample_serde_def)

lemma sample_serde_text_ok: "json_text_ok (sample_serde doc) doc"
  by (simp add: json_text_ok_def sample_serde_def)

end
