(* ===== verification/Delta_Errors.thy ===== *)
theory Delta_Errors
  imports Prelude
begin

section \<open>Errors of the service and gRPC status values (delta/errors.rs)\<close>

text \<open>
  \<open>DeltaTxnError\<close> as a datatype, \<open>tonic::Status\<close> as a code and a message, and the conversion
  between them. A conversion may write one line to the operator's log; \<open>error_log\<close> is that line.
  The lemmas show that decimal notation is injective, so that a client can read both versions off
  the message of a version conflict.
\<close>

datatype code =
    CodeOk
  | Cancelled
  | Unknown
  | InvalidArgument
  | DeadlineExceeded
  | NotFound
  | AlreadyExists
  | PermissionDenied
  | ResourceExhausted
  | FailedPrecondition
  | Aborted
  | OutOfRange
  | Unimplemented
  | Internal
  | Unavailable
  | DataLoss
  | Unauthenticated

record status =
  status_code :: code
  status_message :: string

definition mk_status :: "code \<Rightarrow> string \<Rightarrow> status" where
  "mk_status c msg = \<lparr>status_code = c, status_message = msg\<rparr>"

datatype delta_txn_error =
    OpenFailed string
  | CommitFailed string
  | VersionConflict i64 i64
      \<comment> \<open>\<open>expected\<close>, \<open>actual\<close>\<close>

text \<open>\<open>Display\<close>, from the \<open>#[error(..)]\<close> attributes.\<close>

fun error_display :: "delta_txn_error \<Rightarrow> string" where
  "error_display (OpenFailed e) = ''Delta table open failed: '' @ e"
| "error_display (CommitFailed e) = ''Delta commit failed: '' @ e"
| "error_display (VersionConflict expected actual) =
     ''Version conflict: expected '' @ show_i64 expected @ '', found '' @ show_i64 actual"

fun status_of_error :: "delta_txn_error \<Rightarrow> status" where
  "status_of_error (VersionConflict expected actual) =
     mk_status Aborted
       (''version conflict: expected '' @ show_i64 expected @ '', found '' @ show_i64 actual)"
| "status_of_error (OpenFailed e) = mk_status Internal ''internal error processing delta table''"
| "status_of_error (CommitFailed e) = mk_status Internal ''internal error processing delta table''"

text \<open>The line \<open>tracing::error!\<close> writes during the conversion, if any.\<close>

fun error_log :: "delta_txn_error \<Rightarrow> string option" where
  "error_log (VersionConflict expected actual) = None"
| "error_log (OpenFailed e) = Some (error_display (OpenFailed e))"
| "error_log (CommitFailed e) = Some (error_display (CommitFailed e))"

section \<open>Lemmas\<close>

lemma mk_status_simps [simp]:
  "status_code (mk_status c m) = c"
  "status_message (mk_status c m) = m"
  "mk_status c m = mk_status d n \<longleftrightarrow> c = d \<and> m = n"
  by (auto simp: mk_status_def)

subsection \<open>Decimal notation is injective\<close>

lemma digit_char_inject: "a < 10 \<Longrightarrow> b < 10 \<Longrightarrow> digit_char a = digit_char b \<longleftrightarrow> a = b"
  using inj_on_char_of_nat by (auto simp: digit_char_def dest!: inj_onD)

lemma digit_char_not_special:
  assumes "d < 10"
  shows "digit_char d \<noteq> CHR ''-''" "digit_char d \<noteq> CHR '',''"
proof -
  have "(of_char (digit_char d) :: nat) = 48 + d"
    using assms by (simp add: digit_char_def)
  then show "digit_char d \<noteq> CHR ''-''" "digit_char d \<noteq> CHR '',''"
    by auto
qed

lemma show_nat_chars: "c \<in> set (show_nat n) \<Longrightarrow> \<exists>d<10. c = digit_char d"
proof (induction n rule: show_nat.induct)
  case (1 n)
  then show ?case
    by (subst (asm) show_nat.simps) (auto split: if_splits intro: exI [of _ "n mod 10"])
qed

lemma show_nat_not_Nil [simp]: "show_nat n \<noteq> []"
  by (subst show_nat.simps) simp

lemma show_nat_digit: "n < 10 \<Longrightarrow> show_nat n = [digit_char n]"
  by (subst show_nat.simps) simp

lemma show_nat_digits:
  "\<not> n < 10 \<Longrightarrow> show_nat n = show_nat (n div 10) @ [digit_char (n mod 10)]"
  by (subst show_nat.simps) simp

lemma show_nat_one_digit: "show_nat n = [c] \<longleftrightarrow> n < 10 \<and> c = digit_char n"
  by (cases "n < 10") (auto simp: show_nat_digit show_nat_digits)

lemma show_nat_inject: "show_nat a = show_nat b \<longleftrightarrow> a = b"
proof
  show "show_nat a = show_nat b \<Longrightarrow> a = b"
  proof (induction a arbitrary: b rule: show_nat.induct)
    case (1 a)
    show ?case
    proof (cases "a < 10")
      case True
      then have "show_nat b = [digit_char a]"
        using "1.prems" by (simp add: show_nat_digit)
      then show ?thesis
        using True by (auto simp: show_nat_one_digit digit_char_inject)
    next
      case False
      then have "\<not> b < 10"
        using "1.prems" show_nat_one_digit [of a "digit_char b"] by (auto simp: show_nat_digit)
      then have "show_nat (a div 10) = show_nat (b div 10)" "a mod 10 = b mod 10"
        using "1.prems" show_nat_digits [OF False] show_nat_digits [of b]
        by (simp_all add: digit_char_inject)
      then have "a div 10 = b div 10" "a mod 10 = b mod 10"
        using "1.IH" False by auto
      then show ?thesis by (metis mult_div_mod_eq)
    qed
  qed
qed simp

lemma show_int_inject: "show_int i = show_int j \<longleftrightarrow> i = j"
proof -
  have minus: "CHR ''-'' # xs \<noteq> show_nat n" for xs n
    using show_nat_chars [of "CHR ''-''" n] digit_char_not_special
    by (metis list.set_intros(1))
  show ?thesis
    using minus minus [symmetric] by (auto simp: show_int_def show_nat_inject)
qed

lemma show_i64_inject: "show_i64 a = show_i64 b \<longleftrightarrow> a = b"
  by (auto simp: show_i64_def show_int_inject intro: signed_word_eqI)

lemma show_i64_no_comma: "CHR '','' \<notin> set (show_i64 a)"
proof -
  have "CHR '','' \<notin> set (show_nat n)" for n
    using show_nat_chars [of "CHR '',''" n] digit_char_not_special(2) by metis
  then show ?thesis by (simp add: show_i64_def show_int_def)
qed

lemma comma_separated_inject:
  assumes "CHR '','' \<notin> set a" "CHR '','' \<notin> set b"
  shows "a @ '','' @ x = b @ '','' @ y \<longleftrightarrow> a = b \<and> x = y"
  using assms
proof (induction a arbitrary: b)
  case Nil
  then show ?case by (cases b) auto
next
  case (Cons c a)
  then show ?case by (cases b) auto
qed

lemma conflict_message_inject:
  "show_i64 a @ '', found '' @ show_i64 b = show_i64 c @ '', found '' @ show_i64 d \<longleftrightarrow>
     a = c \<and> b = d"
  using comma_separated_inject [OF show_i64_no_comma show_i64_no_comma,
      of a "'' found '' @ show_i64 b" c "'' found '' @ show_i64 d"]
  by (simp add: show_i64_inject)

section \<open>Properties\<close>


end
