(* ===== verification/Delta_Store.thy ===== *)
theory Delta_Store
  imports Kernel_Types Delta_Errors
begin

section \<open>The interface of delta-rs and of storage\<close>

text \<open>
  What the service calls of the deltalake crate, as the fields of one record of parameters. Every
  call that does I/O takes the outside world (type \<open>'w\<close>: object storage with all its writers, the
  local file system) and returns the world it leaves; what other writers do in the meantime is part
  of that change. A URL is its normalized text. The other type parameters stand for
  the library's own types: \<open>'p\<close> and \<open>'m\<close> for \<open>Protocol\<close> and \<open>Metadata\<close>, \<open>'b\<close> for
  \<open>DeltaTableBuilder\<close>, \<open>'t\<close> for \<open>DeltaTable\<close>, \<open>'l\<close> for a log store, \<open>'s\<close> for a snapshot
  (\<open>DeltaTableState\<close>), \<open>'c\<close> for a schema, \<open>'v\<close> for a scalar.
\<close>

type_synonym url = string

text \<open>\<open>DeltaTableError\<close>, as far as the source tells its variants apart.\<close>

datatype delta_table_error = NotInitialized | OtherError string

text \<open>\<open>LogicalFileView\<close>: partition values are the field names and the scalars of a \<open>StructData\<close>.\<close>

record 'v file_view =
  fv_path :: string
  fv_size :: i64
  fv_modification_time :: i64
  fv_partition_values :: "(string list \<times> 'v list) option"
  fv_stats :: "string option"

record ('w, 'n, 'p, 'm, 'b, 't, 'l, 's, 'c, 'v) delta_rs =
  ensure_table_uri :: "string \<Rightarrow> ('w, url, string) io"
  builder_from_url :: "url \<Rightarrow> ('b, string) result"
  builder_build :: "'b \<Rightarrow> string hash_map \<Rightarrow> ('t, string) result"
  log_store :: "'t \<Rightarrow> 'l"
  is_delta_table_location :: "'l \<Rightarrow> ('w, bool, string) io"
  open_table_with_storage_options :: "url \<Rightarrow> string hash_map \<Rightarrow> ('w, 't, string) io"
  table_version :: "'t \<Rightarrow> u64 option"
  delta_table_error_to_string :: "delta_table_error \<Rightarrow> string"
  table_snapshot :: "'t \<Rightarrow> ('s, delta_table_error) result"
  commit_builder_build ::
    "('n, 'p, 'm) kernel_action list \<Rightarrow> 's option \<Rightarrow> 'l \<Rightarrow> ('p, 'm) delta_operation
       \<Rightarrow> ('w, u64, string) io"
  snapshot_version :: "'s \<Rightarrow> u64"
  snapshot_metadata :: "'s \<Rightarrow> 'm"
  snapshot_protocol :: "'s \<Rightarrow> 'p"
  metadata_id :: "'m \<Rightarrow> string"
  metadata_name :: "'m \<Rightarrow> string option"
  metadata_description :: "'m \<Rightarrow> string option"
  metadata_parse_schema :: "'m \<Rightarrow> ('c, string) result"
  schema_to_string :: "'c \<Rightarrow> (string, string) result"
  metadata_partition_columns :: "'m \<Rightarrow> string list"
  metadata_configuration :: "'m \<Rightarrow> string hash_map"
  metadata_created_time :: "'m \<Rightarrow> i64 option"
  protocol_min_reader_version :: "'p \<Rightarrow> i32"
  protocol_min_writer_version :: "'p \<Rightarrow> i32"
  file_views :: "'s \<Rightarrow> 'l \<Rightarrow> 'w \<Rightarrow> ('v file_view, string) result list \<times> 'w"
    \<comment> \<open>the items of the stream, in order\<close>
  scalar_is_null :: "'v \<Rightarrow> bool"
  scalar_serialize :: "'v \<Rightarrow> string"

end
