(* ===== verification/Wire_Types.thy ===== *)
theory Wire_Types
  imports Prelude
begin

section \<open>The messages of the gRPC API (proto/delta\_txn.proto)\<close>

text \<open>
  The protobuf messages as the generated Rust types have them: an enum field is an \<open>i32\<close> that may
  hold any number, a \<open>oneof\<close> and an \<open>optional\<close> field are options, a \<open>map\<close> is a \<open>HashMap\<close>. Field
  names carry a prefix for their message, because record fields share one name space.
\<close>

subsection \<open>Enums\<close>

datatype data_change = DataChangeUnspecified | DataChangeTrue | DataChangeFalse

definition data_change_try_from :: "i32 \<Rightarrow> data_change option" where
  "data_change_try_from v =
     (if v = 0 then Some DataChangeUnspecified
      else if v = 1 then Some DataChangeTrue
      else if v = 2 then Some DataChangeFalse
      else None)"

definition data_change_as_i32 :: "data_change \<Rightarrow> i32" where
  "data_change_as_i32 d =
     (case d of DataChangeUnspecified \<Rightarrow> 0 | DataChangeTrue \<Rightarrow> 1 | DataChangeFalse \<Rightarrow> 2)"

datatype commit_operation =
    OperationUnspecified
  | OperationWrite
  | OperationMerge
  | OperationUpdate
  | OperationDelete
  | OperationOptimize
  | OperationVacuum
  | OperationRestore
  | OperationConvert

definition commit_operation_try_from :: "i32 \<Rightarrow> commit_operation option" where
  "commit_operation_try_from v =
     map_of [(0, OperationUnspecified), (1, OperationWrite), (2, OperationMerge),
             (3, OperationUpdate), (4, OperationDelete), (5, OperationOptimize),
             (6, OperationVacuum), (7, OperationRestore), (8, OperationConvert)] v"

subsection \<open>File statistics\<close>

datatype min_value = MinInt i64 | MinDouble f64 | MinString string | MinBool bool

datatype max_value = MaxInt i64 | MaxDouble f64 | MaxString string | MaxBool bool

record column_stats =
  cs_min_value :: "min_value option"
  cs_max_value :: "max_value option"
  cs_null_count :: i64

record file_stats =
  fs_num_records :: i64
  fs_columns :: "column_stats hash_map"

subsection \<open>Actions\<close>

record add_file =
  af_path :: string
  af_size :: i64
  af_modification_time :: i64
  af_partition_values :: "string hash_map"
  af_data_change :: i32
  af_stats :: "file_stats option"
  af_tags :: "string hash_map"

record remove_file =
  rf_path :: string
  rf_deletion_timestamp :: "i64 option"
  rf_data_change :: i32

record protocol_msg =
  pm_min_reader_version :: i32
  pm_min_writer_version :: i32

record table_metadata =
  tm_id :: string
  tm_name :: string
  tm_description :: string
  tm_schema_string :: string
  tm_partition_columns :: "string list"
  tm_configuration :: "string hash_map"
  tm_created_time :: i64

record commit_info_msg =
  ci_engine_name :: string
  ci_engine_version :: string
  ci_operation :: i32
  ci_operation_parameters :: "string hash_map"
  ci_user_metadata :: "string hash_map"
  ci_timestamp :: i64

datatype action_oneof =
    ActionAdd add_file
  | ActionRemove remove_file
  | ActionProtocol protocol_msg
  | ActionMetaData table_metadata
  | ActionCommitInfo commit_info_msg

text \<open>The message \<open>Action\<close> has the \<open>oneof\<close> as its only field, which may be unset.\<close>

type_synonym action_msg = "action_oneof option"

subsection \<open>Requests and responses\<close>

record commit_request =
  cr_table_uri :: string
  cr_expected_version :: "i64 option"
  cr_actions :: "action_msg list"
  cr_app_metadata :: "string hash_map"

record commit_response =
  committed_version :: i64

record get_table_response =
  gt_version :: i64
  gt_metadata :: "table_metadata option"
  gt_protocol :: "protocol_msg option"

record list_header =
  lh_version :: i64
  lh_metadata :: "table_metadata option"
  lh_protocol :: "protocol_msg option"

datatype list_payload = Header list_header | Batch "add_file list"

end
