(* ===== verification/Grpc_Mapping.thy ===== *)
theory Grpc_Mapping
  imports Wire_Types Kernel_Types
begin

section \<open>Between wire messages and kernel actions (grpc/mapping.rs)\<close>

text \<open>
  The write direction (\<open>map_actions\<close> and what it calls) and the read direction
  (\<open>map_active_file_to_pb\<close>, \<open>map_stats_json_to_pb\<close>), one definition per function of the file and
  under its name. The JSON library is the parameter \<open>sj\<close>. The properties: the write direction is
  an ordered translation that stops at the first bad action; file statistics and whole files
  survive a write followed by a read; the text of the statistics does not depend on the iteration
  order of the hash map it is built from.
\<close>

subsection \<open>Scalars\<close>

definition map_data_change :: "i32 \<Rightarrow> (bool, string) result" where
  "map_data_change dc =
     (case data_change_try_from dc of
        Some DataChangeTrue \<Rightarrow> Ok True
      | Some DataChangeFalse \<Rightarrow> Ok False
      | Some DataChangeUnspecified \<Rightarrow> Err ''data_change is unspecified''
      | None \<Rightarrow> Err (''invalid data_change value: '' @ show_i32 dc))"

fun map_column_min_value ::
  "('n, 'z) serde_scheme \<Rightarrow> min_value option \<Rightarrow> 'n json option" where
  "map_column_min_value sj None = None"
| "map_column_min_value sj (Some (MinInt v)) = Some (JNumber (num_from_i64 sj v))"
| "map_column_min_value sj (Some (MinDouble v)) = map_option JNumber (num_from_f64 sj v)"
| "map_column_min_value sj (Some (MinString v)) = Some (JString v)"
| "map_column_min_value sj (Some (MinBool v)) = Some (JBool v)"

fun map_column_max_value ::
  "('n, 'z) serde_scheme \<Rightarrow> max_value option \<Rightarrow> 'n json option" where
  "map_column_max_value sj None = None"
| "map_column_max_value sj (Some (MaxInt v)) = Some (JNumber (num_from_i64 sj v))"
| "map_column_max_value sj (Some (MaxDouble v)) = map_option JNumber (num_from_f64 sj v)"
| "map_column_max_value sj (Some (MaxString v)) = Some (JString v)"
| "map_column_max_value sj (Some (MaxBool v)) = Some (JBool v)"

fun value_to_min :: "('n, 'z) serde_scheme \<Rightarrow> 'n json \<Rightarrow> min_value option" where
  "value_to_min sj (JString s) = Some (MinString s)"
| "value_to_min sj (JBool b) = Some (MinBool b)"
| "value_to_min sj (JNumber n) =
     (case num_as_i64 sj n of
        Some v \<Rightarrow> Some (MinInt v)
      | None \<Rightarrow> map_option MinDouble (num_as_f64 sj n))"
| "value_to_min sj v = None"

fun value_to_max :: "('n, 'z) serde_scheme \<Rightarrow> 'n json \<Rightarrow> max_value option" where
  "value_to_max sj (JString s) = Some (MaxString s)"
| "value_to_max sj (JBool b) = Some (MaxBool b)"
| "value_to_max sj (JNumber n) =
     (case num_as_i64 sj n of
        Some v \<Rightarrow> Some (MaxInt v)
      | None \<Rightarrow> map_option MaxDouble (num_as_f64 sj n))"
| "value_to_max sj v = None"

subsection \<open>File statistics\<close>

text \<open>The three maps of \<open>map_file_stats\<close>, filled by its loop over the columns.\<close>

type_synonym 'n json_map = "(string \<times> 'n json) list"

definition file_stats_column ::
  "('n, 'z) serde_scheme \<Rightarrow> string \<times> column_stats
     \<Rightarrow> 'n json_map \<times> 'n json_map \<times> 'n json_map
     \<Rightarrow> 'n json_map \<times> 'n json_map \<times> 'n json_map" where
  "file_stats_column sj = (\<lambda>(column, cs) (mins, maxs, nulls).
     ((case map_column_min_value sj (cs_min_value cs) of
         Some v \<Rightarrow> bt_insert column v mins | None \<Rightarrow> mins),
      (case map_column_max_value sj (cs_max_value cs) of
         Some v \<Rightarrow> bt_insert column v maxs | None \<Rightarrow> maxs),
      bt_insert column (JNumber (num_from_i64 sj (cs_null_count cs))) nulls))"

definition file_stats_json :: "('n, 'z) serde_scheme \<Rightarrow> file_stats \<Rightarrow> 'n json" where
  "file_stats_json sj st =
     (case fold (file_stats_column sj) (fs_columns st) ([], [], []) of
        (min_values, max_values, null_count) \<Rightarrow>
          json_object
            [(''numRecords'', JNumber (num_from_i64 sj (fs_num_records st))),
             (''minValues'', JObject min_values),
             (''maxValues'', JObject max_values),
             (''nullCount'', JObject null_count)])"

definition map_file_stats ::
  "('n, 'z) serde_scheme \<Rightarrow> file_stats option \<Rightarrow> string option" where
  "map_file_stats sj st =
     (case st of
        None \<Rightarrow> None
      | Some st \<Rightarrow> value_to_string sj (file_stats_json sj st))"

text \<open>The entry \<open>map_stats_json_to_pb\<close> builds for one column.\<close>

definition column_stats_of ::
  "('n, 'z) serde_scheme \<Rightarrow> 'n json_map option \<Rightarrow> 'n json_map option \<Rightarrow> 'n json_map option
     \<Rightarrow> string \<Rightarrow> column_stats" where
  "column_stats_of sj min_values max_values null_counts column =
     \<lparr>cs_min_value =
        Option.bind (Option.bind min_values (\<lambda>m. map_of m column)) (value_to_min sj),
      cs_max_value =
        Option.bind (Option.bind max_values (\<lambda>m. map_of m column)) (value_to_max sj),
      cs_null_count =
        unwrap_or (Option.bind (Option.bind null_counts (\<lambda>m. map_of m column)) (as_i64 sj)) 0\<rparr>"

definition map_stats_json_to_pb ::
  "('n, 'z) serde_scheme \<Rightarrow> string option \<Rightarrow> file_stats option" where
  "map_stats_json_to_pb sj stats_json =
     (case stats_json of
        None \<Rightarrow> None
      | Some stats_json \<Rightarrow>
          (case value_from_str sj stats_json of
             None \<Rightarrow> None
           | Some val \<Rightarrow>
               let num_records =
                     unwrap_or (Option.bind (json_get val ''numRecords'') (as_i64 sj)) 0;
                   min_values = Option.bind (json_get val ''minValues'') as_object;
                   max_values = Option.bind (json_get val ''maxValues'') as_object;
                   null_counts = Option.bind (json_get val ''nullCount'') as_object;
                   keys = (\<lambda>names m. case m of
                             Some m \<Rightarrow> bset_extend names (map fst m) | None \<Rightarrow> names);
                   column_names = keys (keys (keys [] min_values) max_values) null_counts
               in Some
                    \<lparr>fs_num_records = num_records,
                     fs_columns = hm_collect
                       (map (\<lambda>column.
                          (column, column_stats_of sj min_values max_values null_counts column))
                        column_names)\<rparr>))"

subsection \<open>Maps\<close>

definition map_string_map :: "string hash_map \<Rightarrow> string option hash_map" where
  "map_string_map input = hm_collect (map (\<lambda>(k, v). (k, Some v)) input)"

definition map_optional_string_map ::
  "string hash_map \<Rightarrow> string option hash_map option" where
  "map_optional_string_map input = (if input = [] then None else Some (map_string_map input))"

definition map_json_map :: "string hash_map \<Rightarrow> 'n json hash_map option" where
  "map_json_map input =
     (if input = [] then None
      else Some (hm_collect (map (\<lambda>(k, v). (k, JString v)) input)))"

definition map_user_metadata ::
  "('n, 'z) serde_scheme \<Rightarrow> string hash_map \<Rightarrow> (string option, string) result" where
  "map_user_metadata sj input =
     (if input = [] then Ok None
      else and_then (strings_to_string sj input) (\<lambda>s. Ok (Some s)))"

definition map_engine_info :: "string \<Rightarrow> string \<Rightarrow> string option" where
  "map_engine_info name version =
     (case (name = [], version = []) of
        (True, True) \<Rightarrow> None
      | (False, True) \<Rightarrow> Some name
      | (True, False) \<Rightarrow> Some version
      | (False, False) \<Rightarrow> Some (name @ ''/'' @ version))"

definition map_commit_operation :: "i32 \<Rightarrow> string option" where
  "map_commit_operation operation =
     (case commit_operation_try_from operation of
        None \<Rightarrow> None
      | Some OperationWrite \<Rightarrow> Some ''WRITE''
      | Some OperationMerge \<Rightarrow> Some ''MERGE''
      | Some OperationUpdate \<Rightarrow> Some ''UPDATE''
      | Some OperationDelete \<Rightarrow> Some ''DELETE''
      | Some OperationOptimize \<Rightarrow> Some ''OPTIMIZE''
      | Some OperationVacuum \<Rightarrow> Some ''VACUUM''
      | Some OperationRestore \<Rightarrow> Some ''RESTORE''
      | Some OperationConvert \<Rightarrow> Some ''CONVERT''
      | Some OperationUnspecified \<Rightarrow> None)"

subsection \<open>Actions\<close>

text \<open>\<open>map_protocol\<close> and \<open>map_metadata\<close> build a document and let delta-rs deserialize it.\<close>

definition protocol_json :: "('n, 'z) serde_scheme \<Rightarrow> protocol_msg \<Rightarrow> 'n json" where
  "protocol_json sj p =
     json_object
       [(''minReaderVersion'', JNumber (num_from_i64 sj (scast (pm_min_reader_version p)))),
        (''minWriterVersion'', JNumber (num_from_i64 sj (scast (pm_min_writer_version p))))]"

definition map_protocol ::
  "('n, 'p, 'm, 'z) kernel_serde_scheme \<Rightarrow> protocol_msg \<Rightarrow> ('p, string) result" where
  "map_protocol sj p = protocol_from_value sj (protocol_json sj p)"

definition some_unless :: "'a \<Rightarrow> 'a \<Rightarrow> 'a option" where
  "some_unless d x = (if x = d then None else Some x)"

definition metadata_json :: "('n, 'z) serde_scheme \<Rightarrow> table_metadata \<Rightarrow> 'n json" where
  "metadata_json sj m =
     (let name = some_unless [] (tm_name m);
          description = some_unless [] (tm_description m);
          created_time = some_unless 0 (tm_created_time m)
      in json_object
        [(''id'', JString (tm_id m)),
         (''name'', json_opt JString name),
         (''description'', json_opt JString description),
         (''format'', json_object
            [(''provider'', JString ''parquet''), (''options'', json_object [])]),
         (''schemaString'', JString (tm_schema_string m)),
         (''partitionColumns'', JArray (map JString (tm_partition_columns m))),
         (''configuration'', json_object (map (\<lambda>(k, v). (k, JString v)) (tm_configuration m))),
         (''createdTime'', json_opt (\<lambda>t. JNumber (num_from_i64 sj t)) created_time)])"

definition map_metadata ::
  "('n, 'p, 'm, 'z) kernel_serde_scheme \<Rightarrow> table_metadata \<Rightarrow> ('m, string) result" where
  "map_metadata sj m = metadata_from_value sj (metadata_json sj m)"

definition map_commit_info ::
  "('n, 'z) serde_scheme \<Rightarrow> commit_info_msg \<Rightarrow> ('n kernel_commit_info, string) result" where
  "map_commit_info sj ci =
     (let operation = map_commit_operation (ci_operation ci);
          operation_parameters = map_json_map (ci_operation_parameters ci)
      in and_then (map_user_metadata sj (ci_user_metadata ci)) (\<lambda>user_metadata.
         let engine_info = map_engine_info (ci_engine_name ci) (ci_engine_version ci);
             timestamp = some_unless 0 (ci_timestamp ci)
         in Ok \<lparr>kc_timestamp = timestamp,
                kc_operation = operation,
                kc_operation_parameters = operation_parameters,
                kc_engine_info = engine_info,
                kc_user_metadata = user_metadata\<rparr>))"

fun map_action ::
  "('n, 'p, 'm, 'z) kernel_serde_scheme \<Rightarrow> action_msg
     \<Rightarrow> (('n, 'p, 'm) kernel_action, string) result" where
  "map_action sj None = Err ''missing action''"
| "map_action sj (Some (ActionAdd a)) =
     and_then (map_data_change (af_data_change a)) (\<lambda>data_change.
     Ok (KAdd
       \<lparr>ka_path = af_path a,
        ka_size = af_size a,
        ka_modification_time = af_modification_time a,
        ka_partition_values = map_string_map (af_partition_values a),
        ka_data_change = data_change,
        ka_stats = map_file_stats sj (af_stats a),
        ka_tags = map_optional_string_map (af_tags a),
        ka_deletion_vector = None,
        ka_base_row_id = None,
        ka_default_row_commit_version = None,
        ka_clustering_provider = None\<rparr>))"
| "map_action sj (Some (ActionRemove r)) =
     and_then (map_data_change (rf_data_change r)) (\<lambda>data_change.
     Ok (KRemove
       \<lparr>kr_path = rf_path r,
        kr_deletion_timestamp = rf_deletion_timestamp r,
        kr_data_change = data_change,
        kr_extended_file_metadata = None,
        kr_partition_values = None,
        kr_size = None,
        kr_tags = None,
        kr_deletion_vector = None,
        kr_base_row_id = None,
        kr_default_row_commit_version = None\<rparr>))"
| "map_action sj (Some (ActionProtocol p)) =
     and_then (map_protocol sj p) (\<lambda>p. Ok (KProtocol p))"
| "map_action sj (Some (ActionMetaData m)) =
     and_then (map_metadata sj m) (\<lambda>m. Ok (KMetadata m))"
| "map_action sj (Some (ActionCommitInfo ci)) =
     and_then (map_commit_info sj ci) (\<lambda>ci. Ok (KCommitInfo ci))"

definition map_actions ::
  "('n, 'p, 'm, 'z) kernel_serde_scheme \<Rightarrow> action_msg list
     \<Rightarrow> (('n, 'p, 'm) kernel_action list, string) result" where
  "map_actions sj pb_actions = collect_map (map_action sj) pb_actions"

subsection \<open>The read direction\<close>

definition map_active_file_to_pb ::
  "('n, 'z) serde_scheme \<Rightarrow> string \<Rightarrow> i64 \<Rightarrow> i64 \<Rightarrow> string option hash_map \<Rightarrow> string option
     \<Rightarrow> add_file" where
  "map_active_file_to_pb sj path size_bytes modification_time partition_values stats_json =
     \<lparr>af_path = path,
      af_size = size_bytes,
      af_modification_time = modification_time,
      af_partition_values =
        hm_collect (map (\<lambda>(k, v). (k, unwrap_or v [])) partition_values),
      af_data_change = data_change_as_i32 DataChangeTrue,
      af_stats = map_stats_json_to_pb sj stats_json,
      af_tags = []\<rparr>"

section \<open>Lemmas\<close>

subsection \<open>The three maps of the statistics\<close>

text \<open>The entries of a map for which \<open>f\<close> gives a value, with that value.\<close>

definition present :: "('a \<Rightarrow> 'b option) \<Rightarrow> (string \<times> 'a) list \<Rightarrow> (string \<times> 'b) list" where
  "present f m = List.map_filter (\<lambda>(k, v). map_option (Pair k) (f v)) m"

lemma present_simps [simp]:
  "present f [] = []"
  "present f ((k, v) # m) = (case f v of None \<Rightarrow> present f m | Some w \<Rightarrow> (k, w) # present f m)"
  by (simp_all add: present_def List.map_filter_def split: option.splits)

lemma fst_present: "fst ` set (present f m) \<subseteq> fst ` set m"
proof (induction m)
  case (Cons p m)
  then show ?case by (cases p; cases "f (snd p)") auto
qed simp

lemma distinct_present: "distinct (map fst m) \<Longrightarrow> distinct (map fst (present f m))"
proof (induction m)
  case (Cons p m)
  then show ?case using fst_present [of f m] by (cases p) (auto split: option.splits)
qed simp

lemma map_of_present:
  "distinct (map fst m) \<Longrightarrow> map_of (present f m) k = Option.bind (map_of m k) f"
proof (induction m)
  case (Cons p m)
  obtain l v where p: "p = (l, v)" by (cases p)
  have "l \<notin> fst ` set m" using Cons.prems p by simp
  then have "map_of (present f m) l = None"
    using fst_present [of f m] by (auto simp: map_of_eq_None_iff)
  with Cons p show ?case by (auto split: option.splits)
qed simp

abbreviation bt_collect :: "(string \<times> 'a) list \<Rightarrow> (string \<times> 'a) list \<Rightarrow> (string \<times> 'a) list" where
  "bt_collect kvs m \<equiv> fold (\<lambda>(k, v). bt_insert k v) kvs m"

abbreviation stats_mins where
  "stats_mins sj \<equiv> present (\<lambda>cs. map_column_min_value sj (cs_min_value cs))"

abbreviation stats_maxs where
  "stats_maxs sj \<equiv> present (\<lambda>cs. map_column_max_value sj (cs_max_value cs))"

abbreviation stats_nulls where
  "stats_nulls sj \<equiv> present (\<lambda>cs. Some (JNumber (num_from_i64 sj (cs_null_count cs))))"

lemma fold_file_stats_column:
  "fold (file_stats_column sj) cols (a, b, c) =
     (bt_collect (stats_mins sj cols) a, bt_collect (stats_maxs sj cols) b,
      bt_collect (stats_nulls sj cols) c)"
proof (induction cols arbitrary: a b c)
  case (Cons p cols)
  then show ?case
    by (cases p) (auto simp: file_stats_column_def split: option.splits)
qed simp

lemma file_stats_json_eq:
  "file_stats_json sj st =
     json_object
       [(''numRecords'', JNumber (num_from_i64 sj (fs_num_records st))),
        (''minValues'', JObject (bt_collect (stats_mins sj (fs_columns st)) [])),
        (''maxValues'', JObject (bt_collect (stats_maxs sj (fs_columns st)) [])),
        (''nullCount'', JObject (bt_collect (stats_nulls sj (fs_columns st)) []))]"
  by (simp add: file_stats_json_def fold_file_stats_column)

lemma bt_collect_cong:
  assumes "distinct (map fst m)" "distinct (map fst n)" "map_of m = map_of n"
  shows "bt_collect (present f m) [] = bt_collect (present f n) []"
proof (rule bt_wf_ext)
  show "map_of (bt_collect (present f m) []) = map_of (bt_collect (present f n) [])"
    using assms by (simp add: bt.get_collect_distinct distinct_present fun_eq_iff map_of_present)
qed (simp_all add: bt.well_formed_fold bt.well_formed_empty)

subsection \<open>Values of the statistics\<close>

text \<open>A bound that JSON can express: everything but a float that is not finite.\<close>

fun finite_min :: "min_value \<Rightarrow> min_value option" where
  "finite_min (MinDouble v) = (if f64_is_finite v then Some (MinDouble v) else None)"
| "finite_min v = Some v"

fun finite_max :: "max_value \<Rightarrow> max_value option" where
  "finite_max (MaxDouble v) = (if f64_is_finite v then Some (MaxDouble v) else None)"
| "finite_max v = Some v"

definition finite_bounds :: "column_stats \<Rightarrow> column_stats" where
  "finite_bounds cs =
     \<lparr>cs_min_value = Option.bind (cs_min_value cs) finite_min,
      cs_max_value = Option.bind (cs_max_value cs) finite_max,
      cs_null_count = cs_null_count cs\<rparr>"

lemma column_min_round_trip:
  assumes "serde_numbers_ok sj"
  shows "Option.bind (map_column_min_value sj v) (value_to_min sj) = Option.bind v finite_min"
proof (cases v)
  case (Some b)
  with assms show ?thesis
    by (cases b) (auto simp: serde_numbersD(1) serde_f64_finite serde_f64_not_finite
      dest: serde_f64_finite)
qed simp

lemma column_max_round_trip:
  assumes "serde_numbers_ok sj"
  shows "Option.bind (map_column_max_value sj v) (value_to_max sj) = Option.bind v finite_max"
proof (cases v)
  case (Some b)
  with assms show ?thesis
    by (cases b) (auto simp: serde_numbersD(1) serde_f64_finite serde_f64_not_finite
      dest: serde_f64_finite)
qed simp

lemma map_of_columns:
  "distinct ks \<Longrightarrow>
     map_of (hm_collect (map (\<lambda>k. (k, f k)) ks)) k = (if k \<in> set ks then Some (f k) else None)"
  by (simp add: map_of_hm_collect comp_def map_of_map_restrict restrict_map_def)

lemma keys_bt_collect_present:
  assumes "distinct (map fst m)"
  shows "set (map fst (bt_collect (present f m) [])) = {k. Option.bind (map_of m k) f \<noteq> None}"
proof -
  have "set (map fst (bt_collect (present f m) [])) = dom (map_of (present f m))"
    using assms bt.keys_dom [of "bt_collect (present f m) []"]
    by (simp add: bt.well_formed_fold bt.well_formed_empty bt.get_collect_distinct distinct_present)
  then show ?thesis using assms by (auto simp: map_of_present)
qed

lemma column_names_eq:
  assumes "distinct (map fst cols)"
  shows "set (bset_extend (bset_extend (bset_extend []
            (map fst (bt_collect (stats_mins sj cols) [])))
            (map fst (bt_collect (stats_maxs sj cols) [])))
            (map fst (bt_collect (stats_nulls sj cols) []))) = dom (map_of cols)"
  unfolding set_bset_extend keys_bt_collect_present [OF assms]
  by (auto simp: bind_eq_Some_conv)

lemma distinct_bset_extend: "sorted_wrt (<) s \<Longrightarrow> distinct (bset_extend s ks)"
  using sorted_bset_extend [of s ks] by (simp add: strict_sorted_iff)

lemma column_stats_round_trip:
  assumes ok: "serde_numbers_ok sj" and d: "distinct (map fst cols)"
    and cs: "map_of cols k = Some cs"
  shows "column_stats_of sj (Some (bt_collect (stats_mins sj cols) []))
           (Some (bt_collect (stats_maxs sj cols) []))
           (Some (bt_collect (stats_nulls sj cols) [])) k = finite_bounds cs"
  using cs
  by (simp add: column_stats_of_def finite_bounds_def bt.get_collect_distinct distinct_present d
      map_of_present column_min_round_trip [OF ok] column_max_round_trip [OF ok]
      serde_numbersD(1) [OF ok] rust_simps)

text \<open>Statistics that agree up to the order of the columns and to bounds JSON cannot express.\<close>

definition stats_preserved :: "file_stats \<Rightarrow> file_stats \<Rightarrow> bool" where
  "stats_preserved st st' \<longleftrightarrow>
     fs_num_records st' = fs_num_records st \<and> hm_wf (fs_columns st') \<and>
     map_of (fs_columns st') = map_option finite_bounds \<circ> map_of (fs_columns st)"

lemma read_file_stats_json:
  assumes ok: "serde_numbers_ok sj" and wf: "hm_wf (fs_columns st)"
    and parsed: "value_from_str sj s = Some (file_stats_json sj st)"
  shows "\<exists>st'. map_stats_json_to_pb sj (Some s) = Some st' \<and> stats_preserved st st'"
proof -
  let ?cols = "fs_columns st"
  let ?mins = "bt_collect (stats_mins sj ?cols) []"
  let ?maxs = "bt_collect (stats_maxs sj ?cols) []"
  let ?nulls = "bt_collect (stats_nulls sj ?cols) []"
  let ?names = "bset_extend (bset_extend (bset_extend [] (map fst ?mins)) (map fst ?maxs))
    (map fst ?nulls)"
  let ?columns = "hm_collect (map (\<lambda>column. (column,
    column_stats_of sj (Some ?mins) (Some ?maxs) (Some ?nulls) column)) ?names)"
  have d: "distinct (map fst ?cols)"
    using wf by (simp add: hm_wf_def)
  have read: "map_stats_json_to_pb sj (Some s) =
      Some \<lparr>fs_num_records = fs_num_records st, fs_columns = ?columns\<rparr>"
    by (simp add: map_stats_json_to_pb_def parsed file_stats_json_eq json_object_get
        serde_numbersD(1) [OF ok] rust_simps Let_def)
  have "distinct ?names"
    by (intro distinct_bset_extend sorted_bset_extend) simp
  then have "map_of ?columns k = map_option finite_bounds (map_of ?cols k)" for k
    by (cases "map_of ?cols k")
      (auto simp: map_of_columns column_names_eq [OF d] column_stats_round_trip [OF ok d])
  then show ?thesis
    by (simp add: read stats_preserved_def fun_eq_iff)
qed

lemma present_Some: "present Some m = m"
  by (induction m) auto

lemma json_object_cong_set:
  assumes "distinct (map fst m)" "distinct (map fst n)" "map_of m = map_of n"
  shows "json_object m = json_object n"
  using bt_collect_cong [OF assms, of Some] by (simp add: json_object_def present_Some)

lemma hm_wf_map_string_map: "hm_wf (map_string_map m)"
  by (simp add: map_string_map_def)

lemma map_of_map_string_map:
  "hm_wf m \<Longrightarrow> map_of (map_string_map m) = map_option Some \<circ> map_of m"
  by (simp add: map_string_map_def map_of_hm_collect_map)

subsection \<open>Data-change flags\<close>

lemma map_data_change_Ok_iff:
  "map_data_change dc = Ok b \<longleftrightarrow> (dc = 1 \<and> b) \<or> (dc = 2 \<and> \<not> b)"
  by (auto simp: map_data_change_def data_change_try_from_def)

lemma map_action_KAdd:
  assumes "map_action sj act = Ok (KAdd add)"
  obtains a where "act = Some (ActionAdd a)" "ka_path add = af_path a"
    "ka_data_change add \<longleftrightarrow> af_data_change a = 1" "ka_deletion_vector add = None"
  using assms
  by (cases "(sj, act)" rule: map_action.cases) (auto simp: rust_simps map_data_change_Ok_iff)

lemma map_action_KRemove:
  assumes "map_action sj act = Ok (KRemove rem)"
  obtains r where "act = Some (ActionRemove r)" "kr_path rem = rf_path r"
    "kr_deletion_timestamp rem = rf_deletion_timestamp r"
    "kr_data_change rem \<longleftrightarrow> rf_data_change r = 1" "kr_deletion_vector rem = None"
  using assms
  by (cases "(sj, act)" rule: map_action.cases) (auto simp: rust_simps map_data_change_Ok_iff)

section \<open>Properties\<close>

text \<open>
  Property C19 (file_stats_round_trip). Writing file statistics into the log's JSON text and reading
  them back gives the number of records and, for every column, its null count and its bounds, where
  only a float bound that is NaN or infinite is dropped; no column is lost and none is invented.
\<close>

theorem file_stats_round_trip:
  assumes "serde_numbers_ok sj" and "hm_wf (fs_columns st)"
    and "json_text_ok sj (file_stats_json sj st)"
  shows "\<exists>st'. map_stats_json_to_pb sj (map_file_stats sj (Some st)) = Some st'
    \<and> fs_num_records st' = fs_num_records st
    \<and> map_of (fs_columns st') = map_option finite_bounds \<circ> map_of (fs_columns st)"
proof -
  obtain s where "value_to_string sj (file_stats_json sj st) = Some s"
    and "value_from_str sj s = Some (file_stats_json sj st)"
    using assms(3) by (auto simp: json_text_ok_def)
  with read_file_stats_json [OF assms(1,2)] show ?thesis
    by (fastforce simp: map_file_stats_def stats_preserved_def)
qed

text \<open>
  Two requests that carry the same statistics, in
  whatever order their hash maps iterate, are written as the same text.
\<close>

theorem file_stats_text_is_deterministic:
  assumes "hm_wf (fs_columns st)" and "hm_wf (fs_columns st')"
    and "fs_num_records st = fs_num_records st'"
    and "map_of (fs_columns st) = map_of (fs_columns st')"
  shows "map_file_stats sj (Some st) = map_file_stats sj (Some st')"
proof -
  have "file_stats_json sj st = file_stats_json sj st'"
    using assms by (simp add: file_stats_json_eq hm_wf_def bt_collect_cong [of "fs_columns st" "fs_columns st'"])
  then show ?thesis by (simp add: map_file_stats_def)
qed


text \<open>
  A request's actions are translated one by one and in order:
  the result has the translation of the i-th action at position i, and when an action is not
  acceptable the whole request is refused with the error of the first such action.
\<close>

theorem map_actions_is_ordered:
  "(\<forall>ks. map_actions sj acts = Ok ks \<longleftrightarrow>
      length ks = length acts \<and> (\<forall>i<length acts. map_action sj (acts ! i) = Ok (ks ! i)))
   \<and> (\<forall>e. map_actions sj acts = Err e \<longleftrightarrow>
      (\<exists>i<length acts. map_action sj (acts ! i) = Err e
         \<and> (\<forall>j<i. is_ok (map_action sj (acts ! j)))))"
proof (intro conjI allI)
  fix ks
  show "map_actions sj acts = Ok ks \<longleftrightarrow>
      length ks = length acts \<and> (\<forall>i<length acts. map_action sj (acts ! i) = Ok (ks ! i))"
    unfolding map_actions_def collect_map_Ok_iff by (auto simp: list_eq_iff_nth_eq)
next
  fix e
  show "map_actions sj acts = Err e \<longleftrightarrow>
      (\<exists>i<length acts. map_action sj (acts ! i) = Err e
         \<and> (\<forall>j<i. is_ok (map_action sj (acts ! j))))"
    unfolding map_actions_def by (rule collect_map_Err_nth)
qed

text \<open>
  In a request that is accepted every action is set,
  every added or removed file says explicitly whether it changes data, and the kernel actions for
  files carry exactly that flag and none of the fields the wire format has no place for.
\<close>

theorem accepted_actions_are_complete:
  assumes "map_actions sj acts = Ok ks"
  shows "None \<notin> set acts
    \<and> (\<forall>a. Some (ActionAdd a) \<in> set acts \<longrightarrow> af_data_change a \<in> {1, 2})
    \<and> (\<forall>r. Some (ActionRemove r) \<in> set acts \<longrightarrow> rf_data_change r \<in> {1, 2})
    \<and> (\<forall>add. KAdd add \<in> set ks \<longrightarrow> (\<exists>a. Some (ActionAdd a) \<in> set acts
         \<and> ka_path add = af_path a \<and> (ka_data_change add \<longleftrightarrow> af_data_change a = 1)
         \<and> ka_deletion_vector add = None))
    \<and> (\<forall>rem. KRemove rem \<in> set ks \<longrightarrow> (\<exists>r. Some (ActionRemove r) \<in> set acts
         \<and> kr_path rem = rf_path r \<and> kr_deletion_timestamp rem = rf_deletion_timestamp r
         \<and> (kr_data_change rem \<longleftrightarrow> rf_data_change r = 1)
         \<and> kr_deletion_vector rem = None))"
proof -
  have each: "\<exists>k. k \<in> set ks \<and> map_action sj act = Ok k" if "act \<in> set acts" for act
    using assms that unfolding map_actions_def collect_map_Ok_iff
    by (metis (no_types, lifting) imageE image_eqI image_set)
  have from_wire: "\<exists>act. act \<in> set acts \<and> map_action sj act = Ok k" if "k \<in> set ks" for k
    using assms that unfolding map_actions_def collect_map_Ok_iff
    by (metis (no_types, lifting) imageE image_eqI image_set)
  show ?thesis
  proof (intro conjI allI impI)
    show "None \<notin> set acts" using each [of None] by auto
  next
    fix a assume "Some (ActionAdd a) \<in> set acts"
    from each [OF this] show "af_data_change a \<in> {1, 2}"
      by (auto simp: rust_simps map_data_change_Ok_iff)
  next
    fix r assume "Some (ActionRemove r) \<in> set acts"
    from each [OF this] show "rf_data_change r \<in> {1, 2}"
      by (auto simp: rust_simps map_data_change_Ok_iff)
  next
    fix add assume "KAdd add \<in> set ks"
    from from_wire [OF this] show "\<exists>a. Some (ActionAdd a) \<in> set acts
         \<and> ka_path add = af_path a \<and> (ka_data_change add \<longleftrightarrow> af_data_change a = 1)
         \<and> ka_deletion_vector add = None"
      by (auto elim!: map_action_KAdd)
  next
    fix rem assume "KRemove rem \<in> set ks"
    from from_wire [OF this] show "\<exists>r. Some (ActionRemove r) \<in> set acts
         \<and> kr_path rem = rf_path r \<and> kr_deletion_timestamp rem = rf_deletion_timestamp r
         \<and> (kr_data_change rem \<longleftrightarrow> rf_data_change r = 1)
         \<and> kr_deletion_vector rem = None"
      by (auto elim!: map_action_KRemove)
  qed
qed

section \<open>Witnesses\<close>

text \<open>Statistics with an integer minimum and an infinite maximum, in two column orders.\<close>

definition sample_id_stats :: column_stats where
  "sample_id_stats =
     \<lparr>cs_min_value = Some (MinInt 1), cs_max_value = Some (MaxDouble 0x7FF0000000000000),
      cs_null_count = 5\<rparr>"

definition sample_name_stats :: column_stats where
  "sample_name_stats =
     \<lparr>cs_min_value = Some (MinString ''a''), cs_max_value = None, cs_null_count = 0\<rparr>"

definition sample_stats :: file_stats where
  "sample_stats =
     \<lparr>fs_num_records = 7, fs_columns = [(''id'', sample_id_stats), (''name'', sample_name_stats)]\<rparr>"

definition sample_stats_swapped :: file_stats where
  "sample_stats_swapped =
     \<lparr>fs_num_records = 7, fs_columns = [(''name'', sample_name_stats), (''id'', sample_id_stats)]\<rparr>"

abbreviation sample_sj where
  "sample_sj \<equiv> sample_serde (file_stats_json (sample_serde JNull) sample_stats)"

definition sample_add :: add_file where
  "sample_add =
     \<lparr>af_path = ''part-0.parquet'', af_size = 10, af_modification_time = 3,
      af_partition_values = [(''region'', ''US'')], af_data_change = 2,
      af_stats = Some sample_stats, af_tags = [(''k'', ''v'')]\<rparr>"

definition sample_remove :: remove_file where
  "sample_remove = \<lparr>rf_path = ''old'', rf_deletion_timestamp = Some 4, rf_data_change = 1\<rparr>"

lemmas sample_data_defs =
  sample_id_stats_def sample_name_stats_def sample_stats_def sample_stats_swapped_def
  sample_add_def sample_remove_def

lemma sample_stats_doc:
  "file_stats_json sample_sj sample_stats = file_stats_json (sample_serde JNull) sample_stats"
  by (simp add: file_stats_json_def file_stats_column_def sample_stats_def sample_id_stats_def
      sample_name_stats_def sample_serde_def)

lemma sample_stats_hyps:
  "hm_wf (fs_columns sample_stats)" "json_text_ok sample_sj (file_stats_json sample_sj sample_stats)"
  by (simp_all add: sample_stats_def hm_wf_def)
    (simp only: sample_stats_doc [unfolded sample_stats_def] sample_serde_text_ok)

theorem file_stats_round_trip_witness:
  "\<exists>st'. map_stats_json_to_pb sample_sj (map_file_stats sample_sj (Some sample_stats)) = Some st'
    \<and> fs_num_records st' = 7
    \<and> map_of (fs_columns st') ''id'' = Some (sample_id_stats\<lparr>cs_max_value := None\<rparr>)"
  using file_stats_round_trip [OF sample_serde_numbers_ok sample_stats_hyps]
  by (auto simp: sample_stats_def sample_id_stats_def finite_bounds_def f64_is_finite_def)

theorem file_stats_text_is_deterministic_witness:
  "map_file_stats sample_sj (Some sample_stats) = Some ''doc''
   \<and> map_file_stats sample_sj (Some sample_stats_swapped) = Some ''doc''"
proof -
  have "map_file_stats sample_sj (Some sample_stats) = map_file_stats sample_sj (Some sample_stats_swapped)"
    by (rule file_stats_text_is_deterministic)
      (auto simp: sample_stats_def sample_stats_swapped_def hm_wf_def fun_eq_iff)
  moreover have "map_file_stats sample_sj (Some sample_stats) = Some ''doc''"
    by (simp add: map_file_stats_def sample_stats_doc) (simp add: sample_serde_def)
  ultimately show ?thesis by simp
qed


theorem map_actions_is_ordered_witness:
  "map_actions sample_sj [Some (ActionRemove sample_remove), None, Some (ActionRemove sample_remove)]
     = Err ''missing action''
   \<and> (\<exists>ks. map_actions sample_sj [Some (ActionRemove sample_remove), Some (ActionAdd sample_add)] = Ok ks
        \<and> length ks = 2)"
proof
  let ?ok = "Some (ActionRemove sample_remove)"
  have "\<exists>i<length [?ok, None, ?ok]. map_action sample_sj ([?ok, None, ?ok] ! i) = Err ''missing action''
      \<and> (\<forall>j<i. is_ok (map_action sample_sj ([?ok, None, ?ok] ! j)))"
    by (intro exI [of _ 1])
      (simp add: sample_remove_def map_data_change_def data_change_try_from_def)
  then show "map_actions sample_sj [?ok, None, ?ok] = Err ''missing action''"
    using map_actions_is_ordered [of sample_sj "[?ok, None, ?ok]"] by blast
  show "\<exists>ks. map_actions sample_sj [?ok, Some (ActionAdd sample_add)] = Ok ks \<and> length ks = 2"
    by (simp add: map_actions_def sample_remove_def sample_add_def map_data_change_def
        data_change_try_from_def)
qed

theorem accepted_actions_are_complete_witness:
  "\<exists>ks. map_actions sample_sj [Some (ActionRemove sample_remove), Some (ActionAdd sample_add)] = Ok ks
     \<and> af_data_change sample_add \<in> {1, 2} \<and> rf_data_change sample_remove \<in> {1, 2}"
proof -
  obtain ks where
    ks: "map_actions sample_sj [Some (ActionRemove sample_remove), Some (ActionAdd sample_add)] = Ok ks"
    by (simp add: map_actions_def sample_remove_def sample_add_def map_data_change_def
        data_change_try_from_def)
  with accepted_actions_are_complete [OF ks] show ?thesis by simp
qed

end
