(* ===== verification/Delta_Commit.thy ===== *)
theory Delta_Commit
  imports Delta_Store Grpc_Mapping
begin

section \<open>Opening, creating and committing (delta/table.rs, delta/commit.rs)\<close>

text \<open>
  \<open>open_table\<close> and \<open>table_exists\<close> of table.rs; the choice of the \<open>DeltaOperation\<close> from a commit's
  own \<open>CommitInfo\<close> action, \<open>commit_actions\<close> and \<open>create_table\<close> of commit.rs.
\<close>

type_synonym ('w, 'n, 'p, 'm, 'b, 't, 'l, 's, 'c, 'v) store =
  "('w, 'n, 'p, 'm, 'b, 't, 'l, 's, 'c, 'v) delta_rs"

subsection \<open>Tables\<close>

definition open_table ::
  "('w, 'n, 'p, 'm, 'b, 't, 'l, 's, 'c, 'v) store \<Rightarrow> url \<Rightarrow> string hash_map
     \<Rightarrow> ('w, 't, delta_txn_error) io" where
  "open_table d table_url storage_options =
     io_map_err OpenFailed (open_table_with_storage_options d table_url storage_options)"

text \<open>The builder chain both \<open>table_exists\<close> and \<open>create_table\<close> start with; it does no I/O.\<close>

definition build_handle ::
  "('w, 'n, 'p, 'm, 'b, 't, 'l, 's, 'c, 'v) store \<Rightarrow> url \<Rightarrow> string hash_map
     \<Rightarrow> ('t, delta_txn_error) result" where
  "build_handle d table_url storage_options =
     and_then (map_err OpenFailed (builder_from_url d table_url)) (\<lambda>b.
     map_err OpenFailed (builder_build d b storage_options))"

definition table_exists ::
  "('w, 'n, 'p, 'm, 'b, 't, 'l, 's, 'c, 'v) store \<Rightarrow> url \<Rightarrow> string hash_map
     \<Rightarrow> ('w, bool, delta_txn_error) io" where
  "table_exists d table_url storage_options =
     io_then (io_return (build_handle d table_url storage_options)) (\<lambda>table.
     io_map_err OpenFailed (is_delta_table_location d (log_store d table)))"

subsection \<open>The operation of a commit\<close>

definition find_protocol :: "('n, 'p, 'm) kernel_action list \<Rightarrow> 'p option" where
  "find_protocol actions = find_map (\<lambda>a. case a of KProtocol p \<Rightarrow> Some p | _ \<Rightarrow> None) actions"

definition find_metadata :: "('n, 'p, 'm) kernel_action list \<Rightarrow> 'm option" where
  "find_metadata actions = find_map (\<lambda>a. case a of KMetadata m \<Rightarrow> Some m | _ \<Rightarrow> None) actions"

definition default_write_operation :: "('p, 'm) delta_operation" where
  "default_write_operation = OpWrite Append None None"

definition string_param :: "'n json hash_map option \<Rightarrow> string \<Rightarrow> string option" where
  "string_param params key =
     Option.bind params (\<lambda>m. Option.bind (map_of m key) as_str)"

definition int_param ::
  "('n, 'z) serde_scheme \<Rightarrow> 'n json hash_map option \<Rightarrow> string \<Rightarrow> i64 option" where
  "int_param sj params key =
     Option.bind params (\<lambda>m. Option.bind (map_of m key) (as_i64 sj))"

definition uint_param ::
  "('n, 'z) serde_scheme \<Rightarrow> 'n json hash_map option \<Rightarrow> string \<Rightarrow> u64 option" where
  "uint_param sj params key =
     Option.bind params (\<lambda>m. Option.bind (map_of m key) (as_u64 sj))"

definition build_operation ::
  "('n, 'z) serde_scheme \<Rightarrow> ('n, 'p, 'm) kernel_action list \<Rightarrow> ('p, 'm) delta_operation" where
  "build_operation sj actions =
     (case find_map (\<lambda>a. case a of KCommitInfo ci \<Rightarrow> Some ci | _ \<Rightarrow> None) actions of
        None \<Rightarrow> default_write_operation
      | Some commit_info \<Rightarrow>
          let params = kc_operation_parameters commit_info in
          (case kc_operation commit_info of
             None \<Rightarrow> default_write_operation
           | Some operation \<Rightarrow>
               if operation = ''MERGE'' then
                 OpMerge (string_param params ''predicate'') (string_param params ''merge_predicate'')
                   [] [] []
               else if operation = ''UPDATE'' then OpUpdate (string_param params ''predicate'')
               else if operation = ''DELETE'' then OpDelete (string_param params ''predicate'')
               else if operation = ''OPTIMIZE'' then
                 OpOptimize (string_param params ''predicate'')
                   (unwrap_or (int_param sj params ''target_size'') 0)
               else if operation = ''VACUUM'' then
                 OpVacuumStart True (int_param sj params ''specified_retention_millis'')
                   (unwrap_or (int_param sj params ''default_retention_millis'') 0)
               else if operation = ''RESTORE'' then
                 OpRestore (uint_param sj params ''version'') (int_param sj params ''datetime'')
               else default_write_operation))"

subsection \<open>Commits\<close>

definition commit_actions ::
  "('w, 'n, 'p, 'm, 'b, 't, 'l, 's, 'c, 'v) store \<Rightarrow> ('n, 'z) serde_scheme
     \<Rightarrow> 't \<Rightarrow> ('n, 'p, 'm) kernel_action list \<Rightarrow> ('w, i64, delta_txn_error) io" where
  "commit_actions d sj table actions =
     io_then (io_return (map_err (\<lambda>e. CommitFailed (delta_table_error_to_string d e))
       (table_snapshot d table))) (\<lambda>table_state.
     let operation = build_operation sj actions in
     io_then (io_map_err CommitFailed
       (commit_builder_build d actions (Some table_state) (log_store d table) operation))
       (\<lambda>version. io_return (Ok version)))"

definition create_table ::
  "('w, 'n, 'p, 'm, 'b, 't, 'l, 's, 'c, 'v) store \<Rightarrow> url \<Rightarrow> string hash_map
     \<Rightarrow> ('n, 'p, 'm) kernel_action list \<Rightarrow> 'p \<Rightarrow> 'm \<Rightarrow> ('w, i64, delta_txn_error) io" where
  "create_table d table_url storage_options actions protocol metadata =
     io_then (io_return (build_handle d table_url storage_options)) (\<lambda>table.
     let operation = OpCreate ErrorIfExists table_url protocol metadata in
     io_then (io_map_err CommitFailed
       (commit_builder_build d actions None (log_store d table) operation)) (\<lambda>version.
     if version \<noteq> 0 then io_return (Err (VersionConflict 0 version))
     else io_return (Ok version)))"

section \<open>The operation a request asks for\<close>

text \<open>
  What the operation of a commit is in terms of the request: the first \<open>CommitInfo\<close> of the request
  decides, and only the predicates among its parameters have a meaning.
\<close>

definition request_commit_info :: "action_msg list \<Rightarrow> commit_info_msg option" where
  "request_commit_info acts =
     find_map (\<lambda>act. case act of Some (ActionCommitInfo ci) \<Rightarrow> Some ci | _ \<Rightarrow> None) acts"

definition requested_operation :: "action_msg list \<Rightarrow> ('p, 'm) delta_operation" where
  "requested_operation acts =
     (case request_commit_info acts of
        None \<Rightarrow> OpWrite Append None None
      | Some ci \<Rightarrow>
          let param = map_of (ci_operation_parameters ci) in
          (case commit_operation_try_from (ci_operation ci) of
             Some OperationMerge \<Rightarrow>
               OpMerge (param ''predicate'') (param ''merge_predicate'') [] [] []
           | Some OperationUpdate \<Rightarrow> OpUpdate (param ''predicate'')
           | Some OperationDelete \<Rightarrow> OpDelete (param ''predicate'')
           | Some OperationOptimize \<Rightarrow> OpOptimize (param ''predicate'') 0
           | Some OperationVacuum \<Rightarrow> OpVacuumStart True None 0
           | Some OperationRestore \<Rightarrow> OpRestore None None
           | _ \<Rightarrow> OpWrite Append None None))"

subsection \<open>Lemmas\<close>

lemma map_of_map_json_map:
  assumes "hm_wf m"
  shows "Option.bind (map_json_map m) (\<lambda>m. map_of m k) = map_option JString (map_of m k)"
  using assms by (simp add: map_json_map_def map_of_hm_collect_map)

lemma bind_param:
  "Option.bind x (\<lambda>m. Option.bind (map_of m k) f) = Option.bind (Option.bind x (\<lambda>m. map_of m k)) f"
  by (cases x) auto

text \<open>Every parameter of a request is a JSON string, so only \<open>string_param\<close> finds any.\<close>

lemma wire_params:
  assumes "hm_wf m"
  shows "string_param (map_json_map m) k = map_of m k"
    and "int_param sj (map_json_map m) k = None"
    and "uint_param sj (map_json_map m) k = None"
  by (simp_all add: string_param_def int_param_def uint_param_def bind_param
      map_of_map_json_map [OF assms])
    (cases "map_of m k"; simp)+

lemma map_action_commit_info:
  "map_action sj act = Ok k \<Longrightarrow>
     (case k of KCommitInfo ci \<Rightarrow> Some ci | _ \<Rightarrow> None) =
     (case act of Some (ActionCommitInfo ci) \<Rightarrow> result_ok (map_commit_info sj ci) | _ \<Rightarrow> None)"
  by (cases "(sj, act)" rule: map_action.cases) (auto simp: rust_simps)

lemma find_commit_info:
  "map_actions sj acts = Ok ks \<Longrightarrow>
     find_map (\<lambda>k. case k of KCommitInfo ci \<Rightarrow> Some ci | _ \<Rightarrow> None) ks =
     Option.bind (request_commit_info acts) (\<lambda>ci. result_ok (map_commit_info sj ci))
     \<and> (\<forall>ci. request_commit_info acts = Some ci \<longrightarrow> is_ok (map_commit_info sj ci))"
proof (induction acts arbitrary: ks)
  case Nil
  then show ?case by (simp add: map_actions_def request_commit_info_def)
next
  case (Cons act acts)
  then obtain k ks' where k: "map_action sj act = Ok k" and ks: "ks = k # ks'"
    and rest: "map_actions sj acts = Ok ks'"
    by (auto simp: map_actions_def rust_simps)
  show ?case
  proof (cases "\<exists>ci. act = Some (ActionCommitInfo ci)")
    case True
    then obtain ci where "act = Some (ActionCommitInfo ci)" by blast
    with k ks show ?thesis by (auto simp: rust_simps request_commit_info_def)
  next
    case False
    then have "request_commit_info (act # acts) = request_commit_info acts"
      by (auto simp: request_commit_info_def split: option.splits action_oneof.splits)
    moreover have "(case k of KCommitInfo ci \<Rightarrow> Some ci | _ \<Rightarrow> None) = None"
      using map_action_commit_info [OF k] False by (auto split: option.splits action_oneof.splits)
    ultimately show ?thesis using Cons.IH [OF rest] ks by simp
  qed
qed

lemma map_commit_info_fields:
  assumes "map_commit_info sj ci = Ok k"
  shows "kc_operation k = map_commit_operation (ci_operation ci)"
    and "kc_operation_parameters k = map_json_map (ci_operation_parameters ci)"
  using assms by (auto simp: map_commit_info_def Let_def rust_simps)

section \<open>Properties\<close>

text \<open>
  Property C20 (operation_follows_request). For a request whose actions are accepted, the operation
  given to delta-rs is the one the request's first \<open>CommitInfo\<close> names, with its predicates; a request
  without one, with WRITE or CONVERT, or with an unknown number, is an append. Numeric parameters of
  the request never arrive: the target size of an OPTIMIZE is always 0, and a RESTORE has neither
  version nor time.
\<close>

theorem operation_follows_request:
  assumes "map_actions sj acts = Ok ks"
    and "\<And>ci. request_commit_info acts = Some ci \<Longrightarrow> hm_wf (ci_operation_parameters ci)"
  shows "build_operation sj ks = requested_operation acts"
proof (cases "request_commit_info acts")
  case None
  with find_commit_info [OF assms(1)] show ?thesis
    by (simp add: build_operation_def requested_operation_def default_write_operation_def)
next
  case (Some ci)
  then obtain k where k: "map_commit_info sj ci = Ok k"
    using find_commit_info [OF assms(1)] by (cases "map_commit_info sj ci") auto
  then have found: "find_map (\<lambda>k. case k of KCommitInfo ci \<Rightarrow> Some ci | _ \<Rightarrow> None) ks = Some k"
    using find_commit_info [OF assms(1)] Some by simp
  have wf: "hm_wf (ci_operation_parameters ci)"
    using assms(2) [OF Some] .
  show ?thesis
    using found Some
    by (simp add: build_operation_def requested_operation_def default_write_operation_def
        map_commit_info_fields [OF k] wire_params [OF wf] map_commit_operation_def rust_simps
        Let_def split: option.split commit_operation.split)
qed

text \<open>
  Creating a table succeeds exactly when the
  commit landed as version 0; a commit that landed as another version is reported as a conflict
  between 0 and that version, although it stays in the log.
\<close>

theorem create_table_reports_only_version_zero:
  "(create_table d url opts actions p m w = (Ok v, w') \<longleftrightarrow>
      v = 0 \<and> (\<exists>table. build_handle d url opts = Ok table
        \<and> commit_builder_build d actions None (log_store d table)
            (OpCreate ErrorIfExists url p m) w = (Ok 0, w')))
   \<and> (create_table d url opts actions p m w = (Err (VersionConflict e a), w') \<longleftrightarrow>
      e = 0 \<and> a \<noteq> 0 \<and> (\<exists>table. build_handle d url opts = Ok table
        \<and> commit_builder_build d actions None (log_store d table)
            (OpCreate ErrorIfExists url p m) w = (Ok a, w')))"
  by (auto simp: create_table_def build_handle_def rust_simps Let_def split: if_splits)

section \<open>Witnesses\<close>

definition sample_commit_info :: commit_info_msg where
  "sample_commit_info =
     \<lparr>ci_engine_name = ''e'', ci_engine_version = [], ci_operation = 5,
      ci_operation_parameters = [(''predicate'', ''x = 1''), (''target_size'', ''134217728'')],
      ci_user_metadata = [], ci_timestamp = 0\<rparr>"

theorem operation_follows_request_witness:
  "\<exists>ks. map_actions (sample_serde JNull) [Some (ActionCommitInfo sample_commit_info)] = Ok ks
     \<and> build_operation (sample_serde JNull) ks = OpOptimize (Some ''x = 1'') 0"
proof -
  let ?acts = "[Some (ActionCommitInfo sample_commit_info)]"
  obtain ks where ks: "map_actions (sample_serde JNull) ?acts = Ok ks"
    by (simp add: map_actions_def sample_commit_info_def map_commit_info_def map_user_metadata_def)
  have "build_operation (sample_serde JNull) ks = requested_operation ?acts"
    by (rule operation_follows_request [OF ks])
      (auto simp: request_commit_info_def sample_commit_info_def hm_wf_def)
  with ks show ?thesis
    by (simp add: requested_operation_def request_commit_info_def sample_commit_info_def
        commit_operation_try_from_def)
qed

end
