(* ===== verification/Sample_Store.thy ===== *)
theory Sample_Store
  imports Delta_Commit
begin

section \<open>A small store for concrete evaluations\<close>

text \<open>
  An instance of the parameters of \<open>delta_rs\<close>: the world maps a table URL to the latest state of its
  log, a commit applies its actions to that state and counts the version up. Theorems with
  hypotheses on the store are evaluated on it.
\<close>

type_synonym sample_doc = "sample_number json"
type_synonym sample_action = "(sample_number, sample_doc, sample_doc) kernel_action"

record sample_log =
  sl_version :: u64
  sl_protocol :: sample_doc
  sl_metadata :: sample_doc
  sl_files :: "kernel_add list"

type_synonym sample_world = "(url \<times> sample_log) list"

fun sample_apply :: "sample_action \<Rightarrow> sample_log \<Rightarrow> sample_log" where
  "sample_apply (KAdd a) s = s\<lparr>sl_files := sl_files s @ [a]\<rparr>"
| "sample_apply (KRemove r) s = s\<lparr>sl_files := filter (\<lambda>a. ka_path a \<noteq> kr_path r) (sl_files s)\<rparr>"
| "sample_apply (KProtocol p) s = s\<lparr>sl_protocol := p\<rparr>"
| "sample_apply (KMetadata m) s = s\<lparr>sl_metadata := m\<rparr>"
| "sample_apply (KCommitInfo ci) s = s"

definition sample_next :: "sample_log option \<Rightarrow> sample_log" where
  "sample_next s =
     (case s of
        None \<Rightarrow> \<lparr>sl_version = 0, sl_protocol = JNull, sl_metadata = JNull, sl_files = []\<rparr>
      | Some s \<Rightarrow> s\<lparr>sl_version := sl_version s + 1\<rparr>)"

definition sample_commit :: "sample_action list \<Rightarrow> url \<Rightarrow> (sample_world, u64, string) io" where
  "sample_commit actions url w =
     (if map_option sl_version (map_of w url) = Some (- 1) then (Err ''log is full'', w)
      else let s = fold sample_apply actions (sample_next (map_of w url))
           in (Ok (sl_version s), AList.update url s w))"

text \<open>Fields of a metadata document.\<close>

definition doc_string :: "string \<Rightarrow> sample_doc \<Rightarrow> string option" where
  "doc_string k m = Option.bind (json_get m k) as_str"

fun doc_strings :: "sample_doc \<Rightarrow> string list" where
  "doc_strings (JArray vs) = List.map_filter as_str vs"
| "doc_strings v = []"

fun doc_string_map :: "sample_doc \<Rightarrow> string hash_map" where
  "doc_string_map (JObject m) = List.map_filter (\<lambda>(k, v). map_option (Pair k) (as_str v)) m"
| "doc_string_map v = []"

fun doc_int :: "sample_doc \<Rightarrow> i64 option" where
  "doc_int (JNumber n) = sample_as_i64 n"
| "doc_int v = None"

definition sample_store ::
  "(sample_world, sample_number, sample_doc, sample_doc, url, url \<times> sample_log option, url,
    sample_log, string, string option) store" where
  "sample_store =
     \<lparr>ensure_table_uri = (\<lambda>s w. (Ok (if contains_str s ''://'' then s else ''file:///'' @ s), w)),
      builder_from_url = Ok,
      builder_build = (\<lambda>b opts. Ok (b, None)),
      log_store = fst,
      is_delta_table_location = (\<lambda>l w. (Ok (map_of w l \<noteq> None), w)),
      open_table_with_storage_options = (\<lambda>url opts w.
        (case map_of w url of None \<Rightarrow> Err ''not a table'' | Some s \<Rightarrow> Ok (url, Some s), w)),
      table_version = (\<lambda>t. map_option sl_version (snd t)),
      delta_table_error_to_string = (\<lambda>e. ''error''),
      table_snapshot = (\<lambda>t. ok_or (snd t) NotInitialized),
      commit_builder_build = (\<lambda>actions s l op. sample_commit actions l),
      snapshot_version = sl_version,
      snapshot_metadata = sl_metadata,
      snapshot_protocol = sl_protocol,
      metadata_id = (\<lambda>m. unwrap_or (doc_string ''id'' m) []),
      metadata_name = doc_string ''name'',
      metadata_description = doc_string ''description'',
      metadata_parse_schema = (\<lambda>m. ok_or (doc_string ''schemaString'' m) ''no schema''),
      schema_to_string = Ok,
      metadata_partition_columns = (\<lambda>m.
        unwrap_or (map_option doc_strings (json_get m ''partitionColumns'')) []),
      metadata_configuration = (\<lambda>m.
        unwrap_or (map_option doc_string_map (json_get m ''configuration'')) []),
      metadata_created_time = (\<lambda>m. Option.bind (json_get m ''createdTime'') doc_int),
      protocol_min_reader_version = (\<lambda>p.
        unwrap_or (map_option ucast (Option.bind (json_get p ''minReaderVersion'') doc_int)) 0),
      protocol_min_writer_version = (\<lambda>p.
        unwrap_or (map_option ucast (Option.bind (json_get p ''minWriterVersion'') doc_int)) 0),
      file_views = (\<lambda>s l w.
        (map (\<lambda>a. Ok
           \<lparr>fv_path = ka_path a, fv_size = ka_size a,
            fv_modification_time = ka_modification_time a,
            fv_partition_values =
              Some (map fst (ka_partition_values a), map snd (ka_partition_values a)),
            fv_stats = ka_stats a\<rparr>) (sl_files s), w)),
      scalar_is_null = (\<lambda>v. v = None),
      scalar_serialize = (\<lambda>v. unwrap_or v [])\<rparr>"

definition sample_log_at :: "u64 \<Rightarrow> sample_log" where
  "sample_log_at v = \<lparr>sl_version = v, sl_protocol = JNull, sl_metadata = JNull, sl_files = []\<rparr>"

lemmas sample_store_eval =
  sample_store_def sample_commit_def sample_next_def sample_log_at_def open_table_def
  table_exists_def build_handle_def io_then_def io_return_def io_map_err_def

end
