(* ===== verification/Table_Lock.thy ===== *)
theory Table_Lock
  imports Prelude
begin

section \<open>The per-table commit lock (locking/table\_lock.rs)\<close>

text \<open>
  \<open>TableLockManager\<close> keeps a shared map from table URI to a reference-counted \<open>LockEntry\<close> (a mutex
  and a handle count). \<open>lock_for\<close> finds or creates the entry and counts a new handle; dropping the
  handle discounts it and, when it was the last one, \<open>remove_if_unused\<close> evicts the entry.

  The first part has the operations as functions on the shared memory. The second part runs any
  number of tasks over that memory, one atomic action at a time: what the code does under a
  \<open>DashMap\<close> shard lock is only exclusive with other actions under the same shard lock, while the
  counter updates of \<open>drop\<close> happen outside it. Entries live at addresses (the \<open>Arc\<close> pointers), so
  that two entries for one key can be told apart. The function from keys to shards is a parameter;
  nothing is assumed of it. The counter is a 64-bit word, as \<open>AtomicUsize\<close> is.
\<close>

subsection \<open>The shared memory and its operations\<close>

type_synonym task = nat
type_synonym addr = nat

record lock_entry =
  mutex :: "task option"
  ref_count :: usize

record lock_mem =
  locks :: "string \<Rightarrow> addr option"
  heap :: "addr \<Rightarrow> lock_entry"
  next_addr :: addr

record table_lock =
  tl_key :: string
  tl_entry :: addr

definition lock_entry_new :: lock_entry where
  "lock_entry_new = \<lparr>mutex = None, ref_count = 0\<rparr>"

definition lock_manager_default :: lock_mem where
  "lock_manager_default = \<lparr>locks = Map.empty, heap = (\<lambda>_. lock_entry_new), next_addr = 0\<rparr>"

text \<open>\<open>self.locks.entry(key).or_insert_with(..)\<close>.\<close>

definition entry_or_insert :: "string \<Rightarrow> 'a lock_mem_scheme \<Rightarrow> addr \<times> 'a lock_mem_scheme" where
  "entry_or_insert k s =
     (case locks s k of
        Some a \<Rightarrow> (a, s)
      | None \<Rightarrow>
          (let a = next_addr s
           in (a, s\<lparr>locks := (locks s)(k \<mapsto> a),
                    heap := (heap s)(a := lock_entry_new),
                    next_addr := Suc a\<rparr>)))"

definition fetch_add_ref :: "addr \<Rightarrow> 'a lock_mem_scheme \<Rightarrow> 'a lock_mem_scheme" where
  "fetch_add_ref a s =
     s\<lparr>heap := (heap s)(a := (heap s a)\<lparr>ref_count := ref_count (heap s a) + 1\<rparr>)\<rparr>"

definition fetch_sub_ref :: "addr \<Rightarrow> 'a lock_mem_scheme \<Rightarrow> 'a lock_mem_scheme" where
  "fetch_sub_ref a s =
     s\<lparr>heap := (heap s)(a := (heap s a)\<lparr>ref_count := ref_count (heap s a) - 1\<rparr>)\<rparr>"

definition set_mutex :: "addr \<Rightarrow> task option \<Rightarrow> 'a lock_mem_scheme \<Rightarrow> 'a lock_mem_scheme" where
  "set_mutex a h s = s\<lparr>heap := (heap s)(a := (heap s a)\<lparr>mutex := h\<rparr>)\<rparr>"

definition lock_for :: "string \<Rightarrow> 'a lock_mem_scheme \<Rightarrow> table_lock \<times> 'a lock_mem_scheme" where
  "lock_for k s =
     (let (a, s1) = entry_or_insert k s;
          s2 = fetch_add_ref a s1
      in (\<lparr>tl_key = k, tl_entry = a\<rparr>, s2))"

text \<open>The test of \<open>remove_if_unused\<close>: the entry is still the mapped one and has no handle.\<close>

definition unused_entry :: "string \<Rightarrow> addr \<Rightarrow> 'a lock_mem_scheme \<Rightarrow> bool" where
  "unused_entry k a s \<longleftrightarrow> locks s k = Some a \<and> ref_count (heap s a) = 0"

definition evict :: "string \<Rightarrow> 'a lock_mem_scheme \<Rightarrow> 'a lock_mem_scheme" where
  "evict k s = s\<lparr>locks := (locks s)(k := None)\<rparr>"

definition remove_if_unused :: "string \<Rightarrow> addr \<Rightarrow> 'a lock_mem_scheme \<Rightarrow> 'a lock_mem_scheme" where
  "remove_if_unused k a s = (if unused_entry k a s then evict k s else s)"

definition drop_table_lock :: "table_lock \<Rightarrow> 'a lock_mem_scheme \<Rightarrow> 'a lock_mem_scheme" where
  "drop_table_lock l s =
     (let old = ref_count (heap s (tl_entry l));
          s' = fetch_sub_ref (tl_entry l) s
      in if old = 1 then remove_if_unused (tl_key l) (tl_entry l) s' else s')"

subsection \<open>Tasks running over the shared memory\<close>

text \<open>
  Where a task is in the protocol: not using the lock; inside \<open>lock_for\<close> with the shard lock held
  and the handle not yet counted; with a \<open>TableLock\<close> and waiting in \<open>lock()\<close>; with the mutex guard;
  with the guard dropped and the \<open>TableLock\<close> not; about to run \<open>remove_if_unused\<close>; inside it with the
  shard lock held and the test passed.
\<close>

datatype lock_pc =
    Idle
  | Entered string addr
  | Waiting string addr
  | Holding string addr
  | Unlocked string addr
  | Removing string addr
  | Checked string addr

record lock_sys = lock_mem +
  shard :: "nat \<Rightarrow> task option"
  pcs :: "task \<Rightarrow> lock_pc"

definition lock_sys_init :: lock_sys where
  "lock_sys_init = lock_mem.extend lock_manager_default
     \<lparr>shard = (\<lambda>_. None), pcs = (\<lambda>_. Idle)\<rparr>"

datatype lock_action = Enter string | FetchAdd | Acquire | Release | DropLock | CheckUnused | Evict

text \<open>
  One atomic action of one task; \<open>None\<close> where the task cannot take it. A task whose future is
  cancelled while it waits for the mutex drops its \<open>TableLock\<close> without ever holding the guard, so
  \<open>DropLock\<close> is also possible from \<open>Waiting\<close>.
\<close>

fun lock_exec :: "(string \<Rightarrow> nat) \<Rightarrow> lock_sys \<Rightarrow> task \<Rightarrow> lock_action \<Rightarrow> lock_sys option" where
  "lock_exec sh s t (Enter k) =
     (if pcs s t = Idle \<and> shard s (sh k) = None
      then (let (a, s') = entry_or_insert k s
            in Some (s'\<lparr>shard := (shard s)(sh k := Some t), pcs := (pcs s)(t := Entered k a)\<rparr>))
      else None)"
| "lock_exec sh s t FetchAdd =
     (case pcs s t of
        Entered k a \<Rightarrow>
          Some ((fetch_add_ref a s)
            \<lparr>shard := (shard s)(sh k := None), pcs := (pcs s)(t := Waiting k a)\<rparr>)
      | _ \<Rightarrow> None)"
| "lock_exec sh s t Acquire =
     (case pcs s t of
        Waiting k a \<Rightarrow>
          (if mutex (heap s a) = None
           then Some ((set_mutex a (Some t) s)\<lparr>pcs := (pcs s)(t := Holding k a)\<rparr>)
           else None)
      | _ \<Rightarrow> None)"
| "lock_exec sh s t Release =
     (case pcs s t of
        Holding k a \<Rightarrow> Some ((set_mutex a None s)\<lparr>pcs := (pcs s)(t := Unlocked k a)\<rparr>)
      | _ \<Rightarrow> None)"
| "lock_exec sh s t DropLock =
     (let dropped = (\<lambda>k a. Some ((fetch_sub_ref a s)\<lparr>pcs := (pcs s)
                       (t := if ref_count (heap s a) = 1 then Removing k a else Idle)\<rparr>))
      in case pcs s t of
           Waiting k a \<Rightarrow> dropped k a
         | Unlocked k a \<Rightarrow> dropped k a
         | _ \<Rightarrow> None)"
| "lock_exec sh s t CheckUnused =
     (case pcs s t of
        Removing k a \<Rightarrow>
          (if shard s (sh k) = None
           then Some (if unused_entry k a s
                      then s\<lparr>shard := (shard s)(sh k := Some t), pcs := (pcs s)(t := Checked k a)\<rparr>
                      else s\<lparr>pcs := (pcs s)(t := Idle)\<rparr>)
           else None)
      | _ \<Rightarrow> None)"
| "lock_exec sh s t Evict =
     (case pcs s t of
        Checked k a \<Rightarrow>
          Some ((evict k s)\<lparr>shard := (shard s)(sh k := None), pcs := (pcs s)(t := Idle)\<rparr>)
      | _ \<Rightarrow> None)"

text \<open>The interleavings of \<open>n\<close> tasks.\<close>

inductive lock_step :: "(string \<Rightarrow> nat) \<Rightarrow> nat \<Rightarrow> lock_sys \<Rightarrow> lock_sys \<Rightarrow> bool"
  for sh :: "string \<Rightarrow> nat" and n :: nat
where
  task_step: "t < n \<Longrightarrow> lock_exec sh s t act = Some s' \<Longrightarrow> lock_step sh n s s'"

definition lock_reachable :: "(string \<Rightarrow> nat) \<Rightarrow> nat \<Rightarrow> lock_sys \<Rightarrow> bool" where
  "lock_reachable sh n = reach (\<lambda>s. s = lock_sys_init) (lock_step sh n)"

inductive_cases lock_stepE: "lock_step sh n s s'"

subsection \<open>The invariant\<close>

text \<open>The key and entry a task has a counted handle on, uses, or is still responsible for.\<close>

fun handle_of :: "lock_pc \<Rightarrow> (string \<times> addr) option" where
  "handle_of (Waiting k a) = Some (k, a)"
| "handle_of (Holding k a) = Some (k, a)"
| "handle_of (Unlocked k a) = Some (k, a)"
| "handle_of pc = None"

fun user_of :: "lock_pc \<Rightarrow> (string \<times> addr) option" where
  "user_of (Entered k a) = Some (k, a)"
| "user_of pc = handle_of pc"

fun toucher_of :: "lock_pc \<Rightarrow> (string \<times> addr) option" where
  "toucher_of (Removing k a) = Some (k, a)"
| "toucher_of (Checked k a) = Some (k, a)"
| "toucher_of pc = user_of pc"

fun in_shard :: "lock_pc \<Rightarrow> string option" where
  "in_shard (Entered k a) = Some k"
| "in_shard (Checked k a) = Some k"
| "in_shard pc = None"

definition handles :: "(task \<Rightarrow> lock_pc) \<Rightarrow> addr \<Rightarrow> task set" where
  "handles p a = {t. \<exists>k. handle_of (p t) = Some (k, a)}"

definition counts_ok :: "nat \<Rightarrow> lock_sys \<Rightarrow> bool" where
  "counts_ok n s \<longleftrightarrow>
     (\<forall>t\<ge>n. pcs s t = Idle) \<and>
     (\<forall>a. ref_count (heap s a) = of_nat (card (handles (pcs s) a)))"

definition map_ok :: "lock_sys \<Rightarrow> bool" where
  "map_ok s \<longleftrightarrow>
     (\<forall>t k a. user_of (pcs s t) = Some (k, a) \<longrightarrow> locks s k = Some a) \<and>
     (\<forall>t k a. pcs s t = Checked k a \<longrightarrow> locks s k = Some a \<and> handles (pcs s) a = {}) \<and>
     (\<forall>k l a. locks s k = Some a \<longrightarrow> locks s l = Some a \<longrightarrow> k = l) \<and>
     (\<forall>k a. locks s k = Some a \<longrightarrow> a < next_addr s) \<and>
     (\<forall>t k a. toucher_of (pcs s t) = Some (k, a) \<longrightarrow> a < next_addr s) \<and>
     (\<forall>k a. locks s k = Some a \<longrightarrow> (\<exists>t. toucher_of (pcs s t) = Some (k, a)))"

definition shards_ok :: "(string \<Rightarrow> nat) \<Rightarrow> lock_sys \<Rightarrow> bool" where
  "shards_ok sh s \<longleftrightarrow>
     (\<forall>t k. in_shard (pcs s t) = Some k \<longrightarrow> shard s (sh k) = Some t) \<and>
     (\<forall>i t. shard s i = Some t \<longrightarrow> (\<exists>k. in_shard (pcs s t) = Some k \<and> sh k = i))"

definition mutexes_ok :: "lock_sys \<Rightarrow> bool" where
  "mutexes_ok s \<longleftrightarrow> (\<forall>a t. mutex (heap s a) = Some t \<longleftrightarrow> (\<exists>k. pcs s t = Holding k a))"

definition lock_inv :: "(string \<Rightarrow> nat) \<Rightarrow> nat \<Rightarrow> lock_sys \<Rightarrow> bool" where
  "lock_inv sh n s \<longleftrightarrow> counts_ok n s \<and> map_ok s \<and> shards_ok sh s \<and> mutexes_ok s"


subsection \<open>Case analysis of an action\<close>

lemmas lock_mem_defs = entry_or_insert_def fetch_add_ref_def fetch_sub_ref_def set_mutex_def
  unused_entry_def evict_def lock_entry_new_def

lemma lock_exec_cases [consumes 1, case_names hit miss count acquire release drop keep check evict]:
  assumes "lock_exec sh s t act = Some s'"
  obtains
    (hit) k a where "pcs s t = Idle" "shard s (sh k) = None" "locks s k = Some a"
      "s' = s\<lparr>shard := (shard s)(sh k \<mapsto> t), pcs := (pcs s)(t := Entered k a)\<rparr>"
  | (miss) k where "pcs s t = Idle" "shard s (sh k) = None" "locks s k = None"
      "s' = s\<lparr>locks := (locks s)(k \<mapsto> next_addr s),
              heap := (heap s)(next_addr s := lock_entry_new),
              next_addr := Suc (next_addr s),
              shard := (shard s)(sh k \<mapsto> t), pcs := (pcs s)(t := Entered k (next_addr s))\<rparr>"
  | (count) k a where "pcs s t = Entered k a"
      "s' = (fetch_add_ref a s)\<lparr>shard := (shard s)(sh k := None), pcs := (pcs s)(t := Waiting k a)\<rparr>"
  | (acquire) k a where "pcs s t = Waiting k a" "mutex (heap s a) = None"
      "s' = (set_mutex a (Some t) s)\<lparr>pcs := (pcs s)(t := Holding k a)\<rparr>"
  | (release) k a where "pcs s t = Holding k a"
      "s' = (set_mutex a None s)\<lparr>pcs := (pcs s)(t := Unlocked k a)\<rparr>"
  | (drop) k a where "pcs s t = Waiting k a \<or> pcs s t = Unlocked k a"
      "s' = (fetch_sub_ref a s)
         \<lparr>pcs := (pcs s)(t := if ref_count (heap s a) = 1 then Removing k a else Idle)\<rparr>"
  | (keep) k a where "pcs s t = Removing k a" "\<not> unused_entry k a s"
      "s' = s\<lparr>pcs := (pcs s)(t := Idle)\<rparr>"
  | (check) k a where "pcs s t = Removing k a" "shard s (sh k) = None" "unused_entry k a s"
      "s' = s\<lparr>shard := (shard s)(sh k \<mapsto> t), pcs := (pcs s)(t := Checked k a)\<rparr>"
  | (evict) k a where "pcs s t = Checked k a"
      "s' = (evict k s)\<lparr>shard := (shard s)(sh k := None), pcs := (pcs s)(t := Idle)\<rparr>"
proof (cases act)
  case (Enter k)
  with assms hit [of k] miss [of k] show thesis
    by (cases "locks s k") (auto simp: entry_or_insert_def Let_def split: if_splits)
next
  case DropLock
  with assms drop show thesis by (auto simp: Let_def split: lock_pc.splits)
next
  case CheckUnused
  with assms check keep show thesis by (auto split: lock_pc.splits if_splits)
qed (use assms count acquire release evict in \<open>auto split: lock_pc.splits if_splits\<close>)

subsection \<open>Handles and counters\<close>

lemma handles_upd:
  "handles (p(t := pc)) a =
     (if \<exists>k. handle_of pc = Some (k, a) then insert t (handles p a) else handles p a - {t})"
  by (auto simp: handles_def)

lemma handles_memI: "handle_of (p t) = Some (k, a) \<Longrightarrow> t \<in> handles p a"
  by (auto simp: handles_def)

lemma handles_memD: "t \<in> handles p a \<Longrightarrow> \<exists>k. handle_of (p t) = Some (k, a)"
  by (auto simp: handles_def)

lemma handles_bounded: "counts_ok n s \<Longrightarrow> handles (pcs s) a \<subseteq> {..<n}"
  by (force simp: counts_ok_def handles_def not_less intro: ccontr)

lemma finite_handles: "counts_ok n s \<Longrightarrow> finite (handles (pcs s) a)"
  by (meson finite_lessThan finite_subset handles_bounded)

lemma card_handles: "counts_ok n s \<Longrightarrow> card (handles (pcs s) a) \<le> n"
  by (metis card_lessThan card_mono finite_lessThan handles_bounded)

lemma ref_count_handles: "counts_ok n s \<Longrightarrow> ref_count (heap s a) = of_nat (card (handles (pcs s) a))"
  by (simp add: counts_ok_def)

lemma of_nat_usize_inject:
  "c < 2 ^ 64 \<Longrightarrow> d < 2 ^ 64 \<Longrightarrow> (of_nat c :: usize) = of_nat d \<longleftrightarrow> c = d"
  by (simp add: word_of_nat_eq_iff take_bit_nat_eq_self)

lemma ref_count_0_iff:
  assumes "counts_ok n s" "n < 2 ^ 64"
  shows "ref_count (heap s a) = 0 \<longleftrightarrow> handles (pcs s) a = {}"
proof -
  have "card (handles (pcs s) a) < 2 ^ 64"
    using card_handles [OF assms(1), of a] assms(2) by simp
  then have "ref_count (heap s a) = 0 \<longleftrightarrow> card (handles (pcs s) a) = 0"
    using of_nat_usize_inject [of "card (handles (pcs s) a)" 0] ref_count_handles [OF assms(1)]
    by simp
  then show ?thesis by (simp add: finite_handles [OF assms(1)])
qed

lemma ref_count_1_iff:
  assumes "counts_ok n s" "n < 2 ^ 64"
  shows "ref_count (heap s a) = 1 \<longleftrightarrow> card (handles (pcs s) a) = 1"
proof -
  have "card (handles (pcs s) a) < 2 ^ 64"
    using card_handles [OF assms(1), of a] assms(2) by simp
  then show ?thesis
    using of_nat_usize_inject [of "card (handles (pcs s) a)" 1] ref_count_handles [OF assms(1)]
    by simp
qed

lemma user_if_handle: "handle_of pc = Some x \<Longrightarrow> user_of pc = Some x"
  by (cases pc) auto

lemma toucher_if_user: "user_of pc = Some x \<Longrightarrow> toucher_of pc = Some x"
  by (cases pc) auto

subsection \<open>Every action keeps the invariant\<close>

lemma handles_fresh: "map_ok s \<Longrightarrow> handles (pcs s) (next_addr s) = {}"
proof -
  assume m: "map_ok s"
  have "False" if h: "t \<in> handles (pcs s) (next_addr s)" for t
  proof -
    obtain k where "handle_of (pcs s t) = Some (k, next_addr s)"
      using handles_memD [OF h] by blast
    then have "toucher_of (pcs s t) = Some (k, next_addr s)"
      by (simp add: user_if_handle toucher_if_user)
    with m show False by (fastforce simp: map_ok_def)
  qed
  then show ?thesis by blast
qed

lemma idle_exec:
  assumes "\<forall>u\<ge>n. pcs s u = Idle" "t < n" "lock_exec sh s t act = Some s'"
  shows "\<forall>u\<ge>n. pcs s' u = Idle"
  using assms(3,1,2) by (cases rule: lock_exec_cases) (auto simp: lock_mem_defs)

lemma counts_ok_exec:
  assumes inv: "counts_ok n s" "map_ok s" and t: "t < n" and ex: "lock_exec sh s t act = Some s'"
  shows "counts_ok n s'"
proof -
  have "ref_count (heap s' b) = of_nat (card (handles (pcs s') b))" for b
  proof -
    note c = ref_count_handles [OF inv(1), of b]
    note f = finite_handles [OF inv(1), of b]
    from ex show ?thesis
    proof (cases rule: lock_exec_cases)
      case (hit k a)
      then have "t \<notin> handles (pcs s) b" by (simp add: handles_def)
      with hit c show ?thesis by (simp add: handles_upd)
    next
      case (miss k)
      then have "t \<notin> handles (pcs s) b" by (simp add: handles_def)
      with miss c handles_fresh [OF inv(2)] show ?thesis
        by (simp add: handles_upd lock_entry_new_def)
    next
      case (count k a)
      then have "t \<notin> handles (pcs s) b" by (simp add: handles_def)
      with count c f show ?thesis by (cases "b = a") (simp_all add: handles_upd fetch_add_ref_def)
    next
      case (acquire k a)
      then have "b = a \<Longrightarrow> t \<in> handles (pcs s) b" "b \<noteq> a \<Longrightarrow> t \<notin> handles (pcs s) b"
        by (auto simp: handles_def)
      with acquire c show ?thesis
        by (cases "b = a") (simp_all add: handles_upd set_mutex_def insert_absorb)
    next
      case (release k a)
      then have "b = a \<Longrightarrow> t \<in> handles (pcs s) b" "b \<noteq> a \<Longrightarrow> t \<notin> handles (pcs s) b"
        by (auto simp: handles_def)
      with release c show ?thesis
        by (cases "b = a") (simp_all add: handles_upd set_mutex_def insert_absorb)
    next
      case (drop k a)
      then have m: "b = a \<Longrightarrow> t \<in> handles (pcs s) b" "b \<noteq> a \<Longrightarrow> t \<notin> handles (pcs s) b"
        by (auto simp: handles_def)
      have "b = a \<Longrightarrow> card (handles (pcs s) b) = Suc (card (handles (pcs s) b - {t}))"
        using m(1) f by (intro card.remove) auto
      with drop c m show ?thesis by (cases "b = a") (simp_all add: handles_upd fetch_sub_ref_def)
    next
      case (keep k a)
      then have "t \<notin> handles (pcs s) b" by (simp add: handles_def)
      with keep c show ?thesis by (simp add: handles_upd)
    next
      case (check k a)
      then have "t \<notin> handles (pcs s) b" by (simp add: handles_def)
      with check c show ?thesis by (simp add: handles_upd)
    next
      case (evict k a)
      then have "t \<notin> handles (pcs s) b" by (simp add: handles_def)
      with evict c show ?thesis by (simp add: handles_upd evict_def)
    qed
  qed
  with idle_exec [OF _ t ex] inv(1) show ?thesis by (simp add: counts_ok_def)
qed

lemma shards_okD:
  "shards_ok sh s \<Longrightarrow> in_shard (pcs s t) = Some k \<Longrightarrow> shard s (sh k) = Some t"
  "shards_ok sh s \<Longrightarrow> shard s i = Some t \<Longrightarrow> \<exists>k. in_shard (pcs s t) = Some k \<and> sh k = i"
  by (auto simp: shards_ok_def)

lemma shards_ok_take:
  assumes inv: "shards_ok sh s" and free: "shard s (sh k) = None" and out: "in_shard (pcs s t) = None"
    and pc: "in_shard pc = Some k"
    and s': "shard s' = (shard s)(sh k \<mapsto> t)" "pcs s' = (pcs s)(t := pc)"
  shows "shards_ok sh s'"
  unfolding shards_ok_def
proof (intro conjI allI impI)
  fix u l
  assume "in_shard (pcs s' u) = Some l"
  then show "shard s' (sh l) = Some u"
    using s' pc free shards_okD(1) [OF inv, of u l] by (auto split: if_splits)
next
  fix i u
  assume "shard s' i = Some u"
  then show "\<exists>l. in_shard (pcs s' u) = Some l \<and> sh l = i"
    using s' pc out shards_okD(2) [OF inv, of i u] by (auto split: if_splits)
qed

lemma shards_ok_free:
  assumes inv: "shards_ok sh s" and mine: "in_shard (pcs s t) = Some k"
    and pc: "in_shard pc = None"
    and s': "shard s' = (shard s)(sh k := None)" "pcs s' = (pcs s)(t := pc)"
  shows "shards_ok sh s'"
  unfolding shards_ok_def
proof (intro conjI allI impI)
  fix u l
  assume "in_shard (pcs s' u) = Some l"
  then show "shard s' (sh l) = Some u"
    using s' pc shards_okD(1) [OF inv mine] shards_okD(1) [OF inv, of u l] by (auto split: if_splits)
next
  fix i u
  assume "shard s' i = Some u"
  then show "\<exists>l. in_shard (pcs s' u) = Some l \<and> sh l = i"
    using s' pc mine shards_okD(2) [OF inv, of i u] by (auto split: if_splits)
qed

lemma shards_ok_other:
  assumes inv: "shards_ok sh s" and out: "in_shard (pcs s t) = None" and pc: "in_shard pc = None"
    and s': "shard s' = shard s" "pcs s' = (pcs s)(t := pc)"
  shows "shards_ok sh s'"
  using assms by (fastforce simp: shards_ok_def)

lemma shards_ok_exec:
  assumes inv: "shards_ok sh s" and ex: "lock_exec sh s t act = Some s'"
  shows "shards_ok sh s'"
  using ex
proof (cases rule: lock_exec_cases)
  case (hit k a)
  then show ?thesis by (intro shards_ok_take [OF inv]) auto
next
  case (miss k)
  then show ?thesis by (intro shards_ok_take [OF inv]) auto
next
  case (count k a)
  then show ?thesis by (intro shards_ok_free [OF inv]) (auto simp: fetch_add_ref_def)
next
  case (check k a)
  then show ?thesis by (intro shards_ok_take [OF inv]) auto
next
  case (evict k a)
  then show ?thesis by (intro shards_ok_free [OF inv]) (auto simp: evict_def)
next
  case (drop k a)
  then show ?thesis by (intro shards_ok_other [OF inv, of t]) (auto simp: lock_mem_defs)
qed (auto intro!: shards_ok_other [OF inv, of t] simp: lock_mem_defs)

lemma mutex_fresh: "mutexes_ok s \<Longrightarrow> map_ok s \<Longrightarrow> mutex (heap s (next_addr s)) = None"
proof (rule ccontr)
  assume m: "mutexes_ok s" "map_ok s" "mutex (heap s (next_addr s)) \<noteq> None"
  then obtain t k where "pcs s t = Holding k (next_addr s)"
    by (auto simp: mutexes_ok_def)
  then have "toucher_of (pcs s t) = Some (k, next_addr s)" by simp
  with m(2) show False by (fastforce simp: map_ok_def)
qed

lemma mutexes_okD:
  "mutexes_ok s \<Longrightarrow> mutex (heap s a) = Some t \<longleftrightarrow> (\<exists>k. pcs s t = Holding k a)"
  by (simp add: mutexes_ok_def)

lemma mutexes_ok_other:
  assumes inv: "mutexes_ok s" and "\<And>a. mutex (heap s' a) = mutex (heap s a)"
    and "pcs s' = (pcs s)(t := pc)" "\<And>k a. pcs s t \<noteq> Holding k a" "\<And>k a. pc \<noteq> Holding k a"
  shows "mutexes_ok s'"
  using assms by (auto simp: mutexes_ok_def)

lemma mutexes_ok_exec:
  assumes inv: "mutexes_ok s" "map_ok s" and ex: "lock_exec sh s t act = Some s'"
  shows "mutexes_ok s'"
  using ex
proof (cases rule: lock_exec_cases)
  case (miss k)
  with mutex_fresh [OF inv] show ?thesis
    by (intro mutexes_ok_other [OF inv(1), of _ t]) (auto simp: lock_entry_new_def)
next
  case (acquire k a)
  have "pcs s u \<noteq> Holding l a" for u l
    using acquire(2) mutexes_okD [OF inv(1), of a u] by auto
  with inv(1) acquire show ?thesis by (auto simp: mutexes_ok_def set_mutex_def)
next
  case (release k a)
  then have "pcs s u \<noteq> Holding l a" if "u \<noteq> t" for u l
    using that mutexes_okD [OF inv(1), of a u] mutexes_okD [OF inv(1), of a t] by auto
  with release inv(1) show ?thesis by (auto simp: mutexes_ok_def set_mutex_def)
next
  case (drop k a)
  then show ?thesis by (intro mutexes_ok_other [OF inv(1), of _ t]) (auto simp: lock_mem_defs split: if_splits)
qed (auto intro!: mutexes_ok_other [OF inv(1), of _ t] simp: lock_mem_defs)

subsection \<open>Every action keeps live entries in the map\<close>

lemma map_okD:
  assumes "map_ok s"
  shows "user_of (pcs s t) = Some (k, a) \<Longrightarrow> locks s k = Some a"
    and "pcs s t = Checked k a \<Longrightarrow> locks s k = Some a"
    and "pcs s t = Checked k a \<Longrightarrow> handles (pcs s) a = {}"
    and "locks s k = Some a \<Longrightarrow> locks s l = Some a \<Longrightarrow> k = l"
    and "locks s k = Some a \<Longrightarrow> a < next_addr s"
    and "toucher_of (pcs s t) = Some (k, a) \<Longrightarrow> a < next_addr s"
    and "locks s k = Some a \<Longrightarrow> \<exists>t. toucher_of (pcs s t) = Some (k, a)"
  using assms unfolding map_ok_def by blast+

lemma map_okI:
  assumes "\<And>t k a. user_of (pcs s t) = Some (k, a) \<Longrightarrow> locks s k = Some a"
    and "\<And>t k a. pcs s t = Checked k a \<Longrightarrow> locks s k = Some a"
    and "\<And>t k a. pcs s t = Checked k a \<Longrightarrow> handles (pcs s) a = {}"
    and "\<And>k l a. locks s k = Some a \<Longrightarrow> locks s l = Some a \<Longrightarrow> k = l"
    and "\<And>k a. locks s k = Some a \<Longrightarrow> a < next_addr s"
    and "\<And>t k a. toucher_of (pcs s t) = Some (k, a) \<Longrightarrow> a < next_addr s"
    and "\<And>k a. locks s k = Some a \<Longrightarrow> \<exists>t. toucher_of (pcs s t) = Some (k, a)"
  shows "map_ok s"
  using assms unfolding map_ok_def by blast

text \<open>
  Actions that leave the map alone and move one task: its new position must be justified by the
  map, and an entry it stops being responsible for must have another responsible task.
\<close>

lemma map_ok_move:
  assumes inv: "map_ok s"
    and s': "locks s' = locks s" "next_addr s' = next_addr s" "pcs s' = (pcs s)(t := pc)"
    and user: "\<And>k a. user_of pc = Some (k, a) \<Longrightarrow> locks s k = Some a"
    and checked: "\<And>k a. pc = Checked k a \<Longrightarrow> locks s k = Some a \<and> handles (pcs s) a = {}"
    and handle: "\<And>k a. handle_of pc = Some (k, a) \<Longrightarrow>
      handle_of (pcs s t) = Some (k, a) \<or> (\<forall>u l. pcs s u \<noteq> Checked l a)"
    and toucher: "\<And>k a. toucher_of pc = Some (k, a) \<Longrightarrow> a < next_addr s"
    and responsible: "\<And>k a. toucher_of (pcs s t) = Some (k, a) \<Longrightarrow> locks s k = Some a \<Longrightarrow>
      toucher_of pc = Some (k, a) \<or> (\<exists>u. u \<noteq> t \<and> toucher_of (pcs s u) = Some (k, a))"
  shows "map_ok s'"
proof (rule map_okI)
  fix u k a
  assume "user_of (pcs s' u) = Some (k, a)"
  then show "locks s' k = Some a"
    using s' user map_okD(1) [OF inv] by (auto split: if_splits)
next
  fix u k a
  assume "pcs s' u = Checked k a"
  then show "locks s' k = Some a"
    using s' checked map_okD(2) [OF inv] by (auto split: if_splits)
next
  fix u k a
  assume u: "pcs s' u = Checked k a"
  show "handles (pcs s') a = {}"
  proof (cases "u = t")
    case True
    with u s' checked have "handles (pcs s) a = {}" "handle_of pc = None" by auto
    with s' show ?thesis by (simp add: handles_upd)
  next
    case False
    with u s' have c: "pcs s u = Checked k a" by simp
    then have h: "handles (pcs s) a = {}" by (rule map_okD(3) [OF inv])
    have "handle_of pc \<noteq> Some (l, a)" for l
      using handle [of l a] c h by (auto simp: handles_def)
    with s' h show ?thesis by (simp add: handles_upd)
  qed
next
  fix k a
  assume k: "locks s' k = Some a"
  then obtain u where u: "toucher_of (pcs s u) = Some (k, a)"
    using s' map_okD(7) [OF inv] by auto
  show "\<exists>u. toucher_of (pcs s' u) = Some (k, a)"
  proof (cases "u = t")
    case True
    with u k s' responsible [of k a] show ?thesis by (auto split: if_splits)
  next
    case False
    with u s' have "toucher_of (pcs s' u) = Some (k, a)" by simp
    then show ?thesis ..
  qed
qed (use s' toucher map_okD(4,5,6) [OF inv] in \<open>auto split: if_splits\<close>)

lemma map_ok_miss:
  assumes inv: "map_ok s" and k: "locks s k = None" and out: "toucher_of (pcs s t) = None"
    and s': "locks s' = (locks s)(k \<mapsto> next_addr s)" "next_addr s' = Suc (next_addr s)"
      "pcs s' = (pcs s)(t := Entered k (next_addr s))"
  shows "map_ok s'"
proof (rule map_okI)
  fix u l a
  assume "user_of (pcs s' u) = Some (l, a)"
  then show "locks s' l = Some a"
    using s' k map_okD(1) [OF inv, of u l a] by (auto split: if_splits)
next
  fix u l a
  assume "pcs s' u = Checked l a"
  then show "locks s' l = Some a"
    using s' k map_okD(2) [OF inv, of u l a] by (auto split: if_splits)
next
  fix u l a
  assume "pcs s' u = Checked l a"
  then show "handles (pcs s') a = {}"
    using s' map_okD(3) [OF inv, of u l a] by (auto simp: handles_upd split: if_splits)
next
  fix l m a
  assume "locks s' l = Some a" "locks s' m = Some a"
  then show "l = m"
    using s' map_okD(4) [OF inv, of l a m] map_okD(5) [OF inv] by (fastforce split: if_splits)
next
  fix l a
  assume "locks s' l = Some a"
  then show "a < next_addr s'"
    using s' map_okD(5) [OF inv, of l a] by (auto split: if_splits)
next
  fix u l a
  assume "toucher_of (pcs s' u) = Some (l, a)"
  then show "a < next_addr s'"
    using s' map_okD(6) [OF inv, of u l a] by (auto split: if_splits)
next
  fix l a
  assume l: "locks s' l = Some a"
  show "\<exists>u. toucher_of (pcs s' u) = Some (l, a)"
  proof (cases "l = k")
    case True
    with l s' have "toucher_of (pcs s' t) = Some (l, a)" by simp
    then show ?thesis ..
  next
    case False
    with l s' obtain u where u: "toucher_of (pcs s u) = Some (l, a)"
      using map_okD(7) [OF inv, of l a] by auto
    with out have "u \<noteq> t" by auto
    with u s' have "toucher_of (pcs s' u) = Some (l, a)" by simp
    then show ?thesis ..
  qed
qed

text \<open>While a task is past the test of \<open>remove_if_unused\<close>, nobody else can be using the entry.\<close>

lemma checked_alone:
  assumes inv: "map_ok s" "shards_ok sh s" and t: "pcs s t = Checked k a"
    and u: "user_of (pcs s u) = Some (l, a) \<or> pcs s u = Checked l a \<and> u \<noteq> t"
  shows False
proof -
  have lk: "locks s l = Some a" using u map_okD(1,2) [OF inv(1)] by blast
  have "locks s k = Some a" using t map_okD(2) [OF inv(1)] by blast
  with lk have [simp]: "l = k" using map_okD(4) [OF inv(1)] by blast
  have none: "handles (pcs s) a = {}" using t map_okD(3) [OF inv(1)] by blast
  have st: "shard s (sh k) = Some t" using t shards_okD(1) [OF inv(2), of t k] by simp
  show False
  proof (cases "in_shard (pcs s u)")
    case None
    then have "handle_of (pcs s u) = Some (k, a)"
      using u by (cases "pcs s u") auto
    then have "u \<in> handles (pcs s) a" by (rule handles_memI)
    with none show False by simp
  next
    case (Some m)
    then have "m = k" "u \<noteq> t" using u t by (cases "pcs s u"; auto)+
    with Some shards_okD(1) [OF inv(2), of u k] st show False by simp
  qed
qed

lemma map_ok_evict:
  assumes inv: "map_ok s" "shards_ok sh s" and t: "pcs s t = Checked k a"
    and s': "locks s' = (locks s)(k := None)" "next_addr s' = next_addr s"
      "pcs s' = (pcs s)(t := Idle)"
  shows "map_ok s'"
proof (rule map_okI)
  have k: "locks s k = Some a" using t by (rule map_okD(2) [OF inv(1)])
  fix u l b
  {
    assume "user_of (pcs s' u) = Some (l, b)"
    then show "locks s' l = Some b"
      using s' k checked_alone [OF inv t, of u l] map_okD(1) [OF inv(1), of u l b]
      by (auto split: if_splits)
  next
    assume "pcs s' u = Checked l b"
    then show "locks s' l = Some b"
      using s' k checked_alone [OF inv t, of u l] map_okD(2) [OF inv(1), of u l b]
      by (auto split: if_splits)
  next
    assume "pcs s' u = Checked l b"
    then show "handles (pcs s') b = {}"
      using s' map_okD(3) [OF inv(1), of u l b] by (auto simp: handles_upd split: if_splits)
  next
    assume "toucher_of (pcs s' u) = Some (l, b)"
    then show "b < next_addr s'"
      using s' map_okD(6) [OF inv(1), of u l b] by (auto split: if_splits)
  }
  assume l: "locks s' l = Some b"
  then obtain v where v: "toucher_of (pcs s v) = Some (l, b)"
    using s' map_okD(7) [OF inv(1), of l b] by (auto split: if_splits)
  with l s' t have "v \<noteq> t" by (auto split: if_splits)
  with v s' have "toucher_of (pcs s' v) = Some (l, b)" by simp
  then show "\<exists>v. toucher_of (pcs s' v) = Some (l, b)" ..
qed (use s' map_okD(4,5) [OF inv(1)] in \<open>auto split: if_splits\<close>)

lemma another_handle:
  assumes inv: "map_ok s" and k: "locks s k = Some a" and u: "u \<in> handles (pcs s) a"
  shows "toucher_of (pcs s u) = Some (k, a)"
proof -
  obtain l where l: "handle_of (pcs s u) = Some (l, a)" using handles_memD [OF u] by blast
  then have "locks s l = Some a" by (intro map_okD(1) [OF inv]) (rule user_if_handle)
  with k have "l = k" using map_okD(4) [OF inv] by blast
  with l show ?thesis by (simp add: user_if_handle toucher_if_user)
qed

lemma map_ok_exec:
  assumes inv: "counts_ok n s" "map_ok s" "shards_ok sh s" and n: "n < 2 ^ 64"
    and ex: "lock_exec sh s t act = Some s'"
  shows "map_ok s'"
  using ex
proof (cases rule: lock_exec_cases)
  case (hit k a)
  then show ?thesis
    by (intro map_ok_move [OF inv(2), of _ t "Entered k a"]) (auto dest: map_okD(5) [OF inv(2)])
next
  case (miss k)
  then show ?thesis by (intro map_ok_miss [OF inv(2), of k t]) auto
next
  case (count k a)
  then have k: "locks s k = Some a" by (intro map_okD(1) [OF inv(2), of t]) simp
  have "pcs s u \<noteq> Checked l a" for u l
    using checked_alone [OF inv(2,3), of u l a t k] count by auto
  with count k show ?thesis
    by (intro map_ok_move [OF inv(2), of _ t "Waiting k a"])
      (auto simp: fetch_add_ref_def dest: map_okD(5) [OF inv(2)])
next
  case (acquire k a)
  then have k: "locks s k = Some a" by (intro map_okD(1) [OF inv(2), of t]) simp
  with acquire show ?thesis
    by (intro map_ok_move [OF inv(2), of _ t "Holding k a"])
      (auto simp: set_mutex_def dest: map_okD(5) [OF inv(2)])
next
  case (release k a)
  then have k: "locks s k = Some a" by (intro map_okD(1) [OF inv(2), of t]) simp
  with release show ?thesis
    by (intro map_ok_move [OF inv(2), of _ t "Unlocked k a"])
      (auto simp: set_mutex_def dest: map_okD(5) [OF inv(2)])
next
  case (drop k a)
  then have k: "locks s k = Some a" and t: "t \<in> handles (pcs s) a"
    by (auto intro: map_okD(1) [OF inv(2), of t] handles_memI)
  have other: "\<exists>u. u \<noteq> t \<and> toucher_of (pcs s u) = Some (k, a)" if "ref_count (heap s a) \<noteq> 1"
  proof -
    have "handles (pcs s) a \<noteq> {t}" using that ref_count_1_iff [OF inv(1) n, of a] by auto
    with t obtain u where "u \<in> handles (pcs s) a" "u \<noteq> t" by blast
    then show ?thesis using another_handle [OF inv(2) k] by blast
  qed
  with drop k show ?thesis
    by (intro map_ok_move [OF inv(2), of _ t "if ref_count (heap s a) = 1 then Removing k a else Idle"])
      (auto simp: fetch_sub_ref_def dest: map_okD(5) [OF inv(2)] split: if_splits)
next
  case (keep k a)
  have "\<exists>u. u \<noteq> t \<and> toucher_of (pcs s u) = Some (k, a)" if k: "locks s k = Some a"
  proof -
    have "handles (pcs s) a \<noteq> {}"
      using keep k ref_count_0_iff [OF inv(1) n] by (simp add: unused_entry_def)
    then obtain u where u: "u \<in> handles (pcs s) a" by blast
    with keep have "u \<noteq> t" by (auto simp: handles_def)
    with u another_handle [OF inv(2) k] show ?thesis by blast
  qed
  with keep show ?thesis by (intro map_ok_move [OF inv(2), of _ t Idle]) auto
next
  case (check k a)
  then have "handles (pcs s) a = {}"
    using ref_count_0_iff [OF inv(1) n] by (simp add: unused_entry_def)
  with check show ?thesis
    by (intro map_ok_move [OF inv(2), of _ t "Checked k a"])
      (auto simp: unused_entry_def dest: map_okD(5) [OF inv(2)])
next
  case (evict k a)
  then show ?thesis by (intro map_ok_evict [OF inv(2,3), of t k a]) (auto simp: evict_def)
qed

subsection \<open>Reachable states\<close>

lemma lock_inv_init: "lock_inv sh n lock_sys_init"
  by (simp add: lock_inv_def counts_ok_def map_ok_def shards_ok_def mutexes_ok_def handles_def
      lock_sys_init_def lock_manager_default_def lock_mem.defs lock_entry_new_def)

lemma lock_inv_step:
  assumes inv: "lock_inv sh n s" and n: "n < 2 ^ 64" and step: "lock_step sh n s s'"
  shows "lock_inv sh n s'"
proof -
  obtain t act where "t < n" "lock_exec sh s t act = Some s'"
    using step by (auto elim: lock_stepE)
  with inv n show ?thesis
    by (auto simp: lock_inv_def intro: counts_ok_exec map_ok_exec shards_ok_exec mutexes_ok_exec)
qed

interpretation li: inductive_invariant
  "\<lambda>s. s = lock_sys_init" "lock_step sh n" "\<lambda>s. n < 2 ^ 64 \<longrightarrow> lock_inv sh n s" for sh n
  by unfold_locales (auto simp: lock_inv_init lock_inv_step)

lemma reachable_lock_inv: "lock_reachable sh n s \<Longrightarrow> n < 2 ^ 64 \<Longrightarrow> lock_inv sh n s"
  using li.reach_invariant by (simp add: lock_reachable_def)

lemma lock_reachable_init: "lock_reachable sh n lock_sys_init"
  by (auto simp: lock_reachable_def intro: reach_rules)

lemma lock_reachable_exec:
  "lock_reachable sh n s \<Longrightarrow> t < n \<Longrightarrow> lock_exec sh s t act = Some s' \<Longrightarrow> lock_reachable sh n s'"
  unfolding lock_reachable_def by (blast intro: reach_rules lock_step.intros)

text \<open>Runs of the machine, for concrete executions.\<close>

fun lock_run :: "(string \<Rightarrow> nat) \<Rightarrow> lock_sys \<Rightarrow> (task \<times> lock_action) list \<Rightarrow> lock_sys option" where
  "lock_run sh s [] = Some s"
| "lock_run sh s ((t, act) # rest) =
     (case lock_exec sh s t act of None \<Rightarrow> None | Some s' \<Rightarrow> lock_run sh s' rest)"

lemma lock_run_reachable:
  "lock_reachable sh n s \<Longrightarrow> \<forall>(t, act)\<in>set acts. t < n \<Longrightarrow> lock_run sh s acts = Some s' \<Longrightarrow>
     lock_reachable sh n s'"
proof (induction acts arbitrary: s)
  case Nil
  then show ?case by simp
next
  case (Cons p acts)
  obtain t act where p: "p = (t, act)" by (cases p)
  with Cons.prems obtain s1 where s1: "lock_exec sh s t act = Some s1" "lock_run sh s1 acts = Some s'"
    by (auto split: option.splits)
  have "lock_reachable sh n s1"
    using lock_reachable_exec [OF Cons.prems(1) _ s1(1)] Cons.prems(2) p by simp
  with s1(2) Cons.prems(2) show ?case by (intro Cons.IH) auto
qed

lemma same_key_same_entry:
  assumes "lock_reachable sh n s" "n < 2 ^ 64"
    and "user_of (pcs s t) = Some (k, a)" "user_of (pcs s u) = Some (k, b)"
  shows "a = b"
proof -
  have "map_ok s" using reachable_lock_inv [OF assms(1,2)] by (simp add: lock_inv_def)
  then show ?thesis using map_okD(1) [OF _ assms(3)] map_okD(1) [OF _ assms(4)] by simp
qed

subsection \<open>The contract of the lock\<close>

text \<open>
  What the commit handler relies on: at most one task holds the lock of a table, and what other
  tasks do neither takes the lock from a holder nor gives it to anyone else.
\<close>

locale table_mutex =
  fixes tasks :: nat
    and invariant :: "'s \<Rightarrow> bool"
    and exec :: "'s \<Rightarrow> nat \<Rightarrow> 'a \<Rightarrow> 's option"
    and holds :: "'s \<Rightarrow> nat \<Rightarrow> string \<Rightarrow> bool"
  assumes keeps: "invariant s \<Longrightarrow> t < tasks \<Longrightarrow> exec s t act = Some s' \<Longrightarrow> invariant s'"
    and exclusive: "invariant s \<Longrightarrow> holds s t k \<Longrightarrow> holds s u k \<Longrightarrow> t = u"
    and others: "exec s t act = Some s' \<Longrightarrow> u \<noteq> t \<Longrightarrow> holds s' u k \<longleftrightarrow> holds s u k"
begin

lemma holder_undisturbed:
  assumes "invariant s" "holds s t k" "u < tasks" "u \<noteq> t" "exec s u act = Some s'"
  shows "holds s' t k" and "\<not> holds s' u k"
proof -
  show t: "holds s' t k" using others [OF assms(5), of t k] assms(2,4) by simp
  show "\<not> holds s' u k"
    using exclusive [OF keeps [OF assms(1,3,5)] t] assms(4) by blast
qed

end

definition lock_holds :: "lock_sys \<Rightarrow> task \<Rightarrow> string \<Rightarrow> bool" where
  "lock_holds s t k \<longleftrightarrow> (\<exists>a. pcs s t = Holding k a)"

lemma lock_holds_code [code]:
  "lock_holds s t k \<longleftrightarrow> (case pcs s t of Holding l a \<Rightarrow> l = k | _ \<Rightarrow> False)"
  by (auto simp: lock_holds_def split: lock_pc.splits)

lemma lock_holds_exclusive:
  assumes "lock_inv sh n s" "lock_holds s t k" "lock_holds s u k"
  shows "t = u"
proof -
  obtain a b where t: "pcs s t = Holding k a" and u: "pcs s u = Holding k b"
    using assms(2,3) by (auto simp: lock_holds_def)
  have inv: "map_ok s" "mutexes_ok s" using assms(1) by (auto simp: lock_inv_def)
  have "a = b"
    using map_okD(1) [OF inv(1), of t k a] map_okD(1) [OF inv(1), of u k b] t u by simp
  then have "mutex (heap s a) = Some t" "mutex (heap s a) = Some u"
    using mutexes_okD [OF inv(2)] t u by blast+
  then show ?thesis by simp
qed

lemma lock_exec_others: "lock_exec sh s t act = Some s' \<Longrightarrow> u \<noteq> t \<Longrightarrow> pcs s' u = pcs s u"
  by (cases rule: lock_exec_cases) (auto simp: lock_mem_defs)

interpretation tm: table_mutex n "\<lambda>s. n < 2 ^ 64 \<and> lock_inv sh n s" "lock_exec sh" lock_holds
  for sh n
proof
  show "n < 2 ^ 64 \<and> lock_inv sh n s'"
    if "n < 2 ^ 64 \<and> lock_inv sh n s" "t < n" "lock_exec sh s t act = Some s'" for s t act s'
    using that lock_inv_step lock_step.intros by blast
qed (auto simp: lock_holds_exclusive lock_holds_def dest: lock_exec_others)

subsection \<open>Draining\<close>

fun lock_rank :: "lock_pc \<Rightarrow> nat" where
  "lock_rank Idle = 0"
| "lock_rank (Checked k a) = 1"
| "lock_rank (Removing k a) = 2"
| "lock_rank (Unlocked k a) = 3"
| "lock_rank (Holding k a) = 4"
| "lock_rank (Waiting k a) = 5"
| "lock_rank (Entered k a) = 6"

lemma lock_exec_rank:
  assumes "lock_exec sh s t act = Some s'" "\<And>k. act \<noteq> Enter k"
  shows "lock_rank (pcs s' t) < lock_rank (pcs s t)" "u \<noteq> t \<Longrightarrow> pcs s' u = pcs s u"
  using assms by (cases act; auto simp: lock_mem_defs Let_def split: lock_pc.splits if_splits)+

text \<open>
  In a state that is not quiescent some task can move on without a cancellation: a task in a shard
  leaves it; with no task in a shard, a pending removal can enter; with none of those, a guard or a
  handle is dropped, or the mutex a task waits for is free.
\<close>

lemma lock_inv_progress:
  assumes inv: "lock_inv sh n s" and busy: "pcs s t \<noteq> Idle"
  shows "\<exists>u<n. \<exists>act s'. lock_exec sh s u act = Some s' \<and> (\<forall>k. act \<noteq> Enter k) \<and>
    (act = DropLock \<longrightarrow> (\<exists>k a. pcs s u = Unlocked k a))"
proof -
  have lt: "u < n" if "pcs s u \<noteq> Idle" for u
    using inv that by (auto simp: lock_inv_def counts_ok_def not_le [symmetric])
  show ?thesis
  proof (cases "\<exists>u k. in_shard (pcs s u) = Some k")
    case True
    then obtain u k where u: "in_shard (pcs s u) = Some k" by blast
    have "\<exists>act s'. lock_exec sh s u act = Some s' \<and> (act = FetchAdd \<or> act = Evict)"
    proof (cases "pcs s u")
      case (Entered l a)
      then have "\<exists>s'. lock_exec sh s u FetchAdd = Some s'" by simp
      then show ?thesis by blast
    next
      case (Checked l a)
      then have "\<exists>s'. lock_exec sh s u Evict = Some s'" by simp
      then show ?thesis by blast
    qed (use u in auto)
    with u lt [of u] show ?thesis by fastforce
  next
    case False
    then have free: "shard s i = None" for i
      using shards_okD(2) [of sh s i] inv by (cases "shard s i") (auto simp: lock_inv_def)
    consider (removing) k a where "pcs s t = Removing k a"
      | (unlocked) k a where "pcs s t = Unlocked k a"
      | (holding) k a where "pcs s t = Holding k a"
      | (waiting) k a where "pcs s t = Waiting k a"
      using busy False by (cases "pcs s t") (auto dest: spec [of _ t])
    then show ?thesis
    proof cases
      case removing
      then have "\<exists>s'. lock_exec sh s t CheckUnused = Some s'" by (simp add: free)
      with lt [of t] busy show ?thesis by blast
    next
      case unlocked
      then have "\<exists>s'. lock_exec sh s t DropLock = Some s'" by (simp add: Let_def)
      with lt [of t] busy unlocked show ?thesis by blast
    next
      case holding
      then have "\<exists>s'. lock_exec sh s t Release = Some s'" by simp
      with lt [of t] busy show ?thesis by blast
    next
      case (waiting k a)
      show ?thesis
      proof (cases "mutex (heap s a)")
        case None
        with waiting have "\<exists>s'. lock_exec sh s t Acquire = Some s'" by simp
        with lt [of t] busy show ?thesis by blast
      next
        case (Some u)
        then obtain l where u: "pcs s u = Holding l a"
          using inv by (auto simp: lock_inv_def mutexes_ok_def)
        then have "\<exists>s'. lock_exec sh s u Release = Some s'" by simp
        with lt [of u] u show ?thesis by fastforce
      qed
    qed
  qed
qed

lemma quiescent_map_empty: "lock_inv sh n s \<Longrightarrow> \<forall>t. pcs s t = Idle \<Longrightarrow> locks s = Map.empty"
proof (rule ext, rule ccontr)
  fix k
  assume "lock_inv sh n s" and idle: "\<forall>t. pcs s t = Idle" and "locks s k \<noteq> None"
  then obtain a t where "toucher_of (pcs s t) = Some (k, a)"
    using map_okD(7) [of s k] by (auto simp: lock_inv_def)
  with idle show False by simp
qed

lemma lock_drain:
  assumes "lock_inv sh n s" "n < 2 ^ 64"
  shows "\<exists>s'. (lock_step sh n)\<^sup>*\<^sup>* s s' \<and> (\<forall>t. pcs s' t = Idle) \<and> lock_inv sh n s'"
  using assms
proof (induction "\<Sum>t<n. lock_rank (pcs s t)" arbitrary: s rule: less_induct)
  case less
  show ?case
  proof (cases "\<forall>t. pcs s t = Idle")
    case True
    with less.prems show ?thesis by blast
  next
    case False
    then obtain u act s' where u: "u < n" and ex: "lock_exec sh s u act = Some s'"
      and act: "\<And>k. act \<noteq> Enter k"
      using lock_inv_progress [OF less.prems(1)] by blast
    have "(\<Sum>t<n. lock_rank (pcs s' t)) < (\<Sum>t<n. lock_rank (pcs s t))"
    proof (rule sum_strict_mono_ex1)
      show "\<forall>t\<in>{..<n}. lock_rank (pcs s' t) \<le> lock_rank (pcs s t)"
        using lock_exec_rank [OF ex act] by (metis order.refl order.strict_implies_order)
      show "\<exists>t\<in>{..<n}. lock_rank (pcs s' t) < lock_rank (pcs s t)"
        using lock_exec_rank(1) [OF ex act] u by blast
    qed simp
    moreover have step: "lock_step sh n s s'" using u ex by (rule lock_step.intros)
    moreover have "lock_inv sh n s'" using lock_inv_step [OF less.prems step] .
    ultimately obtain s'' where "(lock_step sh n)\<^sup>*\<^sup>* s' s''" "\<forall>t. pcs s'' t = Idle" "lock_inv sh n s''"
      using less.hyps less.prems(2) by blast
    with step show ?thesis by (meson converse_rtranclp_into_rtranclp)
  qed
qed

subsection \<open>Properties\<close>

text \<open>
  Property C1 (table_lock_mutual_exclusion). However \<open>n\<close> concurrent tasks interleave their
  \<open>lock_for\<close>, \<open>lock().await\<close>, guard drops, handle drops, cancellations and evictions, two different
  tasks never hold the lock of the same table at the same time, as long as fewer than \<open>2^64\<close>
  handles can exist (the width of \<open>ref_count\<close>).
\<close>

theorem table_lock_mutual_exclusion:
  assumes "lock_reachable sh n s" and "n < 2 ^ 64"
    and "pcs s t = Holding k a" and "u \<noteq> t"
  shows "pcs s u \<noteq> Holding k b"
proof
  assume u: "pcs s u = Holding k b"
  have "b = a" using same_key_same_entry [OF assms(1,2), of u k b t a] assms(3) u by simp
  with u assms(3) have "mutex (heap s a) = Some t" "mutex (heap s a) = Some u"
    using mutexes_okD [of s a] reachable_lock_inv [OF assms(1,2)] by (auto simp: lock_inv_def)
  with assms(4) show False by simp
qed

text \<open>A run in which task 0 holds the lock of one table and task 1 waits for it.\<close>

definition contended_run :: "(task \<times> lock_action) list" where
  "contended_run = [(0, Enter ''t''), (0, FetchAdd), (0, Acquire), (1, Enter ''t''), (1, FetchAdd)]"

lemma contended_run_reachable:
  obtains s where "lock_run (\<lambda>_. 0) lock_sys_init contended_run = Some s"
    "lock_reachable (\<lambda>_. 0) 2 s" "pcs s 0 = Holding ''t'' 0" "pcs s 1 = Waiting ''t'' 0"
proof -
  obtain s where s: "lock_run (\<lambda>_. 0) lock_sys_init contended_run = Some s"
    and pcs: "pcs s 0 = Holding ''t'' 0" "pcs s 1 = Waiting ''t'' 0"
    by (simp add: contended_run_def lock_sys_init_def lock_manager_default_def lock_mem.defs
        lock_mem_defs)
  have "lock_reachable (\<lambda>_. 0) 2 s"
    by (rule lock_run_reachable [OF lock_reachable_init _ s]) (simp add: contended_run_def)
  with s pcs that show thesis by blast
qed

theorem table_lock_mutual_exclusion_witness:
  "\<exists>s. lock_run (\<lambda>_. 0) lock_sys_init contended_run = Some s \<and>
     pcs s 0 = Holding ''t'' 0 \<and> pcs s 1 \<noteq> Holding ''t'' 0"
proof -
  obtain s where "lock_run (\<lambda>_. 0) lock_sys_init contended_run = Some s"
    and "lock_reachable (\<lambda>_. 0) 2 s" "pcs s 0 = Holding ''t'' 0"
    by (rule contended_run_reachable)
  with table_lock_mutual_exclusion [of "\<lambda>_. 0" 2 s 0 "''t''" 0 1 0] show ?thesis by auto
qed

text \<open>
  Property C21 (live_handles_share_the_mapped_entry). As long as a task has a handle on a table's
  lock, the entry stays in the map with a non-zero count, so every other handle for that table is a
  handle on the very same entry: \<open>remove_if_unused\<close> never evicts an entry that a concurrent
  \<open>lock_for\<close> has revived.
\<close>

theorem live_handles_share_the_mapped_entry:
  assumes "lock_reachable sh n s" and "n < 2 ^ 64"
    and "handle_of (pcs s t) = Some (k, a)"
  shows "locks s k = Some a \<and> ref_count (heap s a) \<noteq> 0 \<and>
    unat (ref_count (heap s a)) = card {u. \<exists>l. handle_of (pcs s u) = Some (l, a)} \<and>
    (\<forall>u b. handle_of (pcs s u) = Some (k, b) \<longrightarrow> b = a)"
proof -
  have inv: "counts_ok n s" "map_ok s"
    using reachable_lock_inv [OF assms(1,2)] by (simp_all add: lock_inv_def)
  have t: "t \<in> handles (pcs s) a" using assms(3) by (rule handles_memI)
  have "card (handles (pcs s) a) < 2 ^ 64"
    using card_handles [OF inv(1), of a] assms(2) by simp
  then have "unat (ref_count (heap s a)) = card (handles (pcs s) a)"
    by (simp add: ref_count_handles [OF inv(1)] unat_of_nat)
  moreover have "ref_count (heap s a) \<noteq> 0"
    using t ref_count_0_iff [OF inv(1) assms(2), of a] by auto
  moreover have mapped: "locks s l = Some b" if "handle_of (pcs s u) = Some (l, b)" for u l b
    using map_okD(1) [OF inv(2), of u l b] user_if_handle [OF that] by simp
  moreover have "b = a" if "handle_of (pcs s u) = Some (k, b)" for u b
    using mapped [OF that] mapped [OF assms(3)] by simp
  ultimately show ?thesis using mapped [OF assms(3)] by (simp add: handles_def)
qed

theorem live_handles_share_the_mapped_entry_witness:
  "\<exists>s. lock_run (\<lambda>_. 0) lock_sys_init contended_run = Some s \<and> locks s ''t'' = Some 0 \<and>
     handle_of (pcs s 1) = Some (''t'', 0) \<and> ref_count (heap s 0) \<noteq> 0"
proof -
  obtain s where "lock_run (\<lambda>_. 0) lock_sys_init contended_run = Some s"
    and "lock_reachable (\<lambda>_. 0) 2 s" "pcs s 1 = Waiting ''t'' 0"
    by (rule contended_run_reachable)
  with live_handles_share_the_mapped_entry [of "\<lambda>_. 0" 2 s 1 "''t''" 0] show ?thesis by auto
qed

text \<open>
  From every reachable state the tasks that still use the lock
  can finish, without new requests and without cancelling a wait, and once all of them have dropped
  their handles the map holds no entry at all: no deadlock and no leaked \<open>LockEntry\<close>.
\<close>

theorem lock_manager_drains:
  assumes "lock_reachable sh n s" and "n < 2 ^ 64"
  shows "(\<exists>s'. (lock_step sh n)\<^sup>*\<^sup>* s s' \<and> (\<forall>t. pcs s' t = Idle) \<and> locks s' = Map.empty) \<and>
    ((\<forall>t. pcs s t = Idle) \<or>
      (\<exists>u<n. \<exists>act s'. lock_exec sh s u act = Some s' \<and> (\<forall>k. act \<noteq> Enter k) \<and>
         (act = DropLock \<longrightarrow> (\<exists>k a. pcs s u = Unlocked k a)))) \<and>
    ((\<forall>t. pcs s t = Idle) \<longrightarrow> locks s = Map.empty)"
proof (intro conjI)
  note inv = reachable_lock_inv [OF assms]
  show "\<exists>s'. (lock_step sh n)\<^sup>*\<^sup>* s s' \<and> (\<forall>t. pcs s' t = Idle) \<and> locks s' = Map.empty"
    using lock_drain [OF inv assms(2)] quiescent_map_empty by metis
  show "(\<forall>t. pcs s t = Idle) \<or>
      (\<exists>u<n. \<exists>act s'. lock_exec sh s u act = Some s' \<and> (\<forall>k. act \<noteq> Enter k) \<and>
         (act = DropLock \<longrightarrow> (\<exists>k a. pcs s u = Unlocked k a)))"
    using lock_inv_progress [OF inv] by blast
  show "(\<forall>t. pcs s t = Idle) \<longrightarrow> locks s = Map.empty"
    using quiescent_map_empty [OF inv] by blast
qed

theorem lock_manager_drains_witness:
  "\<exists>s s'. lock_run (\<lambda>_. 0) lock_sys_init contended_run = Some s \<and> pcs s 0 \<noteq> Idle \<and>
     (lock_step (\<lambda>_. 0) 2)\<^sup>*\<^sup>* s s' \<and> (\<forall>t. pcs s' t = Idle) \<and> locks s' = Map.empty"
proof -
  obtain s where "lock_run (\<lambda>_. 0) lock_sys_init contended_run = Some s"
    and "lock_reachable (\<lambda>_. 0) 2 s" "pcs s 0 = Holding ''t'' 0"
    by (rule contended_run_reachable)
  with lock_manager_drains [of "\<lambda>_. 0" 2 s] show ?thesis by auto
qed

text \<open>
  The functions \<open>lock_for\<close> and \<open>drop\<close> of the code are
  what their atomic actions do when no other task intervenes: entering the shard and counting the
  handle is \<open>lock_for\<close>; discounting it, and then testing and evicting when it was the last one, is
  \<open>drop\<close> with its call of \<open>remove_if_unused\<close>.
\<close>

theorem lock_operations_refine_steps:
  assumes "shard s (sh k) = None"
  shows "(pcs s t = Idle \<longrightarrow>
      (\<exists>s'. lock_run sh s [(t, Enter k), (t, FetchAdd)] = Some s' \<and>
        lock_mem.truncate s' = lock_mem.truncate (snd (lock_for k s)) \<and>
        pcs s' = (pcs s)(t := Waiting k (tl_entry (fst (lock_for k s)))) \<and> shard s' = shard s)) \<and>
    (pcs s t = Unlocked k a \<longrightarrow>
      (\<exists>rest s'. lock_run sh s ((t, DropLock) # map (Pair t) rest) = Some s' \<and>
        lock_mem.truncate s' = lock_mem.truncate (drop_table_lock \<lparr>tl_key = k, tl_entry = a\<rparr> s) \<and>
        pcs s' = (pcs s)(t := Idle) \<and> shard s' = shard s))"
proof (intro conjI impI)
  assume "pcs s t = Idle"
  with assms show "\<exists>s'. lock_run sh s [(t, Enter k), (t, FetchAdd)] = Some s' \<and>
        lock_mem.truncate s' = lock_mem.truncate (snd (lock_for k s)) \<and>
        pcs s' = (pcs s)(t := Waiting k (tl_entry (fst (lock_for k s)))) \<and> shard s' = shard s"
    by (cases "locks s k") (auto simp: lock_for_def lock_mem_defs lock_mem.defs Let_def)
next
  assume pc: "pcs s t = Unlocked k a"
  define s1 where "s1 = (fetch_sub_ref a s)
    \<lparr>pcs := (pcs s)(t := if ref_count (heap s a) = 1 then Removing k a else Idle)\<rparr>"
  define rest where "rest = (if ref_count (heap s a) = 1
    then CheckUnused # (if unused_entry k a s1 then [Evict] else []) else [])"
  have "\<exists>s'. lock_run sh s ((t, DropLock) # map (Pair t) rest) = Some s' \<and>
        lock_mem.truncate s' = lock_mem.truncate (drop_table_lock \<lparr>tl_key = k, tl_entry = a\<rparr> s) \<and>
        pcs s' = (pcs s)(t := Idle) \<and> shard s' = shard s"
    using pc assms
    by (auto simp: rest_def s1_def drop_table_lock_def remove_if_unused_def lock_mem_defs
        lock_mem.defs Let_def)
  then show "\<exists>rest s'. lock_run sh s ((t, DropLock) # map (Pair t) rest) = Some s' \<and>
        lock_mem.truncate s' = lock_mem.truncate (drop_table_lock \<lparr>tl_key = k, tl_entry = a\<rparr> s) \<and>
        pcs s' = (pcs s)(t := Idle) \<and> shard s' = shard s"
    by blast
qed

theorem lock_operations_refine_steps_witness:
  "\<exists>s'. lock_run (\<lambda>_. 0) lock_sys_init [(0, Enter ''t''), (0, FetchAdd)] = Some s' \<and>
     lock_mem.truncate s' = lock_mem.truncate (snd (lock_for ''t'' lock_sys_init))"
proof -
  have "shard lock_sys_init 0 = None" "pcs lock_sys_init 0 = Idle"
    by (simp_all add: lock_sys_init_def lock_mem.defs)
  with lock_operations_refine_steps [of lock_sys_init "\<lambda>_. 0" "''t''" 0] show ?thesis by auto
qed

end
