(* ===== verification/Grpc_Server.thy ===== *)
theory Grpc_Server
  imports Config Sample_Store Table_Lock
begin

section \<open>The service handlers (grpc/server.rs)\<close>

text \<open>
  The unary handlers \<open>commit\<close> and \<open>get_table\<close> with the checks and helpers they share. A handler runs
  on the outside world; \<open>commit\<close> runs on the lock memory as well. \<open>commit_section\<close> is what \<open>commit\<close>
  does while it holds the table's lock; it is a function on the world alone, so that the theory of
  concurrent commits can use it too. Here the lock is taken without contention.
\<close>

record server =
  srv_storage_opts :: "string hash_map"
  srv_allowed_table_prefixes :: "string list option"

definition with_config :: "string hash_map \<Rightarrow> string list option \<Rightarrow> server \<times> lock_mem" where
  "with_config opts allowed =
     (\<lparr>srv_storage_opts = opts, srv_allowed_table_prefixes = allowed\<rparr>, lock_manager_default)"

text \<open>
  \<open>new\<close> reads the environment; the flag tells whether it warned about a missing allowlist, and
  \<open>None\<close> is a panic.
\<close>

definition server_new :: "environment \<Rightarrow> (bool \<times> server \<times> lock_mem) option" where
  "server_new env =
     (let allowed_table_prefixes = load_allowed_table_prefixes env;
          warned = (allowed_table_prefixes = None)
      in map_option (\<lambda>opts. (warned, with_config opts allowed_table_prefixes))
           (load_storage_options env))"

subsection \<open>Checking the table URI\<close>

definition quoted :: "string \<Rightarrow> string" where
  "quoted s = [CHR 0x27] @ s @ [CHR 0x27]"

definition not_allowed :: "string \<Rightarrow> status" where
  "not_allowed table_uri = mk_status PermissionDenied
     (''table_uri '' @ quoted table_uri @ '' is not in the configured allowlist'')"

definition check_table_uri_allowed :: "server \<Rightarrow> string \<Rightarrow> (unit, status) result" where
  "check_table_uri_allowed srv table_uri =
     (if is_table_uri_allowed table_uri (srv_allowed_table_prefixes srv) then Ok ()
      else Err (not_allowed table_uri))"

definition normalize_and_check_table_uri ::
  "('w, 'n, 'p, 'm, 'b, 't, 'l, 's, 'c, 'v) store \<Rightarrow> server \<Rightarrow> string \<Rightarrow> ('w, url, status) io"
where
  "normalize_and_check_table_uri d srv table_uri =
     io_then (io_return
       (if contains_str table_uri ''://'' then check_table_uri_allowed srv table_uri else Ok ()))
     (\<lambda>_. io_then (io_map_err (mk_status InvalidArgument) (ensure_table_uri d table_uri))
     (\<lambda>normalized_table_uri. io_then (io_return (check_table_uri_allowed srv normalized_table_uri))
     (\<lambda>_. io_return (Ok normalized_table_uri))))"

subsection \<open>Metadata and protocol of a snapshot\<close>

definition build_metadata_and_protocol ::
  "('w, 'n, 'p, 'm, 'b, 't, 'l, 's, 'c, 'v) store \<Rightarrow> 's
     \<Rightarrow> (table_metadata \<times> protocol_msg, status) result" where
  "build_metadata_and_protocol d snapshot =
     (let metadata = snapshot_metadata d snapshot;
          protocol = snapshot_protocol d snapshot
      in and_then
           (and_then
              (map_err (\<lambda>e. mk_status Internal ''internal error parsing table schema'')
                 (metadata_parse_schema d metadata))
              (\<lambda>schema. map_err
                 (\<lambda>e. mk_status Internal ''internal error serializing table schema'')
                 (schema_to_string d schema)))
           (\<lambda>schema_string. Ok
              (\<lparr>tm_id = metadata_id d metadata,
                tm_name = unwrap_or (metadata_name d metadata) [],
                tm_description = unwrap_or (metadata_description d metadata) [],
                tm_schema_string = schema_string,
                tm_partition_columns = metadata_partition_columns d metadata,
                tm_configuration = metadata_configuration d metadata,
                tm_created_time = unwrap_or (metadata_created_time d metadata) 0\<rparr>,
               \<lparr>pm_min_reader_version = protocol_min_reader_version d protocol,
                pm_min_writer_version = protocol_min_writer_version d protocol\<rparr>)))"

fun map_open_or_snapshot_error :: "delta_table_error \<Rightarrow> status" where
  "map_open_or_snapshot_error NotInitialized = mk_status FailedPrecondition ''table not initialized''"
| "map_open_or_snapshot_error (OtherError e) =
     mk_status Internal ''internal error loading table snapshot''"

definition not_found :: "url \<Rightarrow> status" where
  "not_found table_uri = mk_status NotFound (''table_uri '' @ quoted table_uri @ '' does not exist'')"

subsection \<open>Commit\<close>

text \<open>The two branches of the section \<open>commit\<close> runs with the table's lock held.\<close>

definition commit_create ::
  "('w, 'n, 'p, 'm, 'b, 't, 'l, 's, 'c, 'v) store \<Rightarrow> server \<Rightarrow> url \<Rightarrow> i64 option
     \<Rightarrow> ('n, 'p, 'm) kernel_action list \<Rightarrow> ('w, commit_response, status) io" where
  "commit_create d srv table_uri expected_version actions =
     (if expected_version \<noteq> None then
        io_return (Err (mk_status FailedPrecondition
          (''expected_version was set but table_uri does not exist yet -- omit '' @
           ''expected_version on the Commit that creates a new table'')))
      else
        (case (find_protocol actions, find_metadata actions) of
           (Some protocol, Some metadata) \<Rightarrow>
             io_then (io_map_err status_of_error
               (create_table d table_uri (srv_storage_opts srv) actions protocol metadata))
               (\<lambda>version. io_return (Ok \<lparr>committed_version = version\<rparr>))
         | _ \<Rightarrow>
             io_return (Err (mk_status FailedPrecondition
               (''table_uri does not exist yet -- the Commit that creates a new table must '' @
                ''include both a Protocol and a TableMetadata action'')))))"

definition check_expected_version ::
  "('w, 'n, 'p, 'm, 'b, 't, 'l, 's, 'c, 'v) store \<Rightarrow> 't \<Rightarrow> i64 option \<Rightarrow> (unit, status) result"
where
  "check_expected_version d table expected_version =
     (case expected_version of
        None \<Rightarrow> Ok ()
      | Some expected \<Rightarrow>
          and_then (ok_or (table_version d table)
            (mk_status FailedPrecondition ''table not initialized'')) (\<lambda>current.
          if current \<noteq> expected then Err (status_of_error (VersionConflict expected current))
          else Ok ()))"

definition commit_section ::
  "('w, 'n, 'p, 'm, 'b, 't, 'l, 's, 'c, 'v) store \<Rightarrow> ('n, 'z) serde_scheme \<Rightarrow> server \<Rightarrow> url
     \<Rightarrow> i64 option \<Rightarrow> ('n, 'p, 'm) kernel_action list \<Rightarrow> ('w, commit_response, status) io" where
  "commit_section d sj srv table_uri expected_version actions =
     io_then (io_map_err status_of_error (table_exists d table_uri (srv_storage_opts srv)))
     (\<lambda>exists.
      if \<not> exists then commit_create d srv table_uri expected_version actions
      else
        io_then (io_map_err status_of_error (open_table d table_uri (srv_storage_opts srv)))
        (\<lambda>table. io_then (io_return (check_expected_version d table expected_version))
        (\<lambda>_. io_then (io_map_err status_of_error (commit_actions d sj table actions))
        (\<lambda>version. io_return (Ok \<lparr>committed_version = version\<rparr>)))))"

text \<open>
  The whole handler, run by task \<open>me\<close>. The guard is dropped before the \<open>TableLock\<close>, in reverse order
  of declaration.
\<close>

definition commit ::
  "('w, 'n, 'p, 'm, 'b, 't, 'l, 's, 'c, 'v) store \<Rightarrow> ('n, 'p, 'm, 'z) kernel_serde_scheme
     \<Rightarrow> server \<Rightarrow> task \<Rightarrow> commit_request \<Rightarrow> ('w \<times> lock_mem, commit_response, status) io" where
  "commit d sj srv me r st =
     (case normalize_and_check_table_uri d srv (cr_table_uri r) (fst st) of
        (Err e, w) \<Rightarrow> (Err e, (w, snd st))
      | (Ok table_uri, w) \<Rightarrow>
          (case map_err (mk_status InvalidArgument) (map_actions sj (cr_actions r)) of
             Err e \<Rightarrow> (Err e, (w, snd st))
           | Ok actions \<Rightarrow>
               (let (lock, mem1) = lock_for table_uri (snd st);
                    mem2 = set_mutex (tl_entry lock) (Some me) mem1;
                    (result, w') =
                      commit_section d sj srv table_uri (cr_expected_version r) actions w;
                    mem3 = set_mutex (tl_entry lock) None mem2;
                    mem4 = drop_table_lock lock mem3
                in (result, (w', mem4)))))"

subsection \<open>GetTable\<close>

definition get_table ::
  "('w, 'n, 'p, 'm, 'b, 't, 'l, 's, 'c, 'v) store \<Rightarrow> server \<Rightarrow> string
     \<Rightarrow> ('w, get_table_response, status) io" where
  "get_table d srv table_uri =
     io_then (normalize_and_check_table_uri d srv table_uri) (\<lambda>table_uri.
     io_then (io_map_err status_of_error (table_exists d table_uri (srv_storage_opts srv)))
     (\<lambda>exists.
      if \<not> exists then io_return (Err (not_found table_uri))
      else
        io_then (io_map_err status_of_error (open_table d table_uri (srv_storage_opts srv)))
        (\<lambda>table. io_then (io_return
           (map_err map_open_or_snapshot_error (table_snapshot d table)))
        (\<lambda>snapshot. io_then (io_return (build_metadata_and_protocol d snapshot))
        (\<lambda>(metadata, protocol). io_return (Ok
           \<lparr>gt_version = snapshot_version d snapshot,
            gt_metadata = Some metadata,
            gt_protocol = Some protocol\<rparr>))))))"

section \<open>Lemmas\<close>

subsection \<open>Errors\<close>

lemma check_table_uri_allowed_iff:
  "check_table_uri_allowed srv uri = Ok u \<longleftrightarrow> is_table_uri_allowed uri (srv_allowed_table_prefixes srv)"
  "check_table_uri_allowed srv uri = Err s \<longleftrightarrow>
     \<not> is_table_uri_allowed uri (srv_allowed_table_prefixes srv) \<and> s = not_allowed uri"
  by (auto simp: check_table_uri_allowed_def)

lemma not_allowed_code [simp]: "status_code (not_allowed uri) = PermissionDenied"
  by (simp add: not_allowed_def)

lemma normalize_Ok:
  "normalize_and_check_table_uri d srv uri w = (Ok url, w') \<longleftrightarrow>
     (contains_str uri ''://'' \<longrightarrow> is_table_uri_allowed uri (srv_allowed_table_prefixes srv))
     \<and> ensure_table_uri d uri w = (Ok url, w')
     \<and> is_table_uri_allowed url (srv_allowed_table_prefixes srv)"
  by (auto simp: normalize_and_check_table_uri_def rust_simps check_table_uri_allowed_iff
      split: if_splits)

lemma normalize_Err_code:
  assumes "normalize_and_check_table_uri d srv uri w = (Err s, w')"
  shows "status_code s \<in> {PermissionDenied, InvalidArgument}"
  using assms
  by (auto simp: normalize_and_check_table_uri_def rust_simps check_table_uri_allowed_iff
      split: if_splits)

definition internal_error :: status where
  "internal_error = mk_status Internal ''internal error processing delta table''"

lemma status_of_error_cases:
  "status_of_error e = internal_error \<or> status_code (status_of_error e) = Aborted"
  by (cases e) (auto simp: internal_error_def)

lemma io_status_of_error:
  "io_map_err status_of_error m w = (Err s, w') \<Longrightarrow> s = internal_error \<or> status_code s = Aborted"
  using status_of_error_cases by (auto simp: rust_simps)

lemma commit_create_Err:
  assumes "commit_create d srv url exp actions w = (Err s, w')"
  shows "status_code s = FailedPrecondition \<or> s = internal_error \<or> status_code s = Aborted"
proof (cases "exp = None \<and> find_protocol actions \<noteq> None \<and> find_metadata actions \<noteq> None")
  case True
  then show ?thesis
    using assms by (auto simp: commit_create_def io_then_Err_iff io_return_iff dest: io_status_of_error)
next
  case False
  then show ?thesis
    using assms by (auto simp: commit_create_def io_return_iff split: if_splits option.splits)
qed

lemma check_expected_version_Err:
  "check_expected_version d t exp = Err s \<Longrightarrow> status_code s \<in> {FailedPrecondition, Aborted}"
  by (auto simp: check_expected_version_def ok_or_def split: option.splits if_splits)

lemma commit_section_Err:
  assumes "commit_section d sj srv url exp actions w = (Err s, w')"
  shows "status_code s = FailedPrecondition \<or> s = internal_error \<or> status_code s = Aborted"
  using assms unfolding commit_section_def io_then_Err_iff
  by (auto simp: io_return_iff io_then_Err_iff split: if_splits
      dest!: io_status_of_error commit_create_Err check_expected_version_Err)

subsection \<open>Success of a commit\<close>

lemma commit_create_expected: "commit_create d srv url (Some e) actions w \<noteq> (Ok r, w')"
  by (simp add: commit_create_def io_return_def)

lemma check_expected_version_Ok:
  "check_expected_version d t (Some e) = Ok u \<longleftrightarrow> table_version d t = Some e"
  by (auto simp: check_expected_version_def ok_or_def split: option.splits if_splits)

lemma commit_actions_Ok:
  "commit_actions d sj t actions w = (Ok v, w') \<longleftrightarrow>
     (\<exists>snapshot. table_snapshot d t = Ok snapshot \<and>
        commit_builder_build d actions (Some snapshot) (log_store d t)
          (build_operation sj actions) w = (Ok v, w'))"
  by (auto simp: commit_actions_def rust_simps Let_def)

lemma commit_section_expected_Ok:
  "commit_section d sj srv url (Some e) actions w = (Ok r, w') \<longleftrightarrow>
     (\<exists>w1 w2 table.
        table_exists d url (srv_storage_opts srv) w = (Ok True, w1)
        \<and> open_table d url (srv_storage_opts srv) w1 = (Ok table, w2)
        \<and> table_version d table = Some e
        \<and> commit_actions d sj table actions w2 = (Ok (committed_version r), w'))"
proof -
  have inner: "(if \<not> b then commit_create d srv url (Some e) actions w1 else m w1) = (Ok r, w')
      \<longleftrightarrow> b \<and> m w1 = (Ok r, w')" for b m w1
    using commit_create_expected [of d srv url e actions w1 r w'] by simp
  have resp: "io_return (Ok \<lparr>committed_version = v\<rparr>) w1 = (Ok r, w') \<longleftrightarrow>
      v = committed_version r \<and> w1 = w'" for v w1
    by (cases r) (simp add: io_return_def)
  show ?thesis
    unfolding commit_section_def io_then_Ok_iff io_map_err_Ok_iff if_distrib [of "\<lambda>f. f _"]
      inner resp io_return_iff check_expected_version_Ok
    by auto
qed

subsection \<open>The lock around a commit\<close>

text \<open>No entry of the map is without a handle: the state between two atomic uses of the manager.\<close>

definition entries_in_use :: "lock_mem \<Rightarrow> bool" where
  "entries_in_use mem \<longleftrightarrow> (\<forall>k a. locks mem k = Some a \<longrightarrow> ref_count (heap mem a) \<noteq> 0)"

definition with_lock :: "task \<Rightarrow> url \<Rightarrow> lock_mem \<Rightarrow> lock_mem" where
  "with_lock me url mem =
     (let (lock, mem1) = lock_for url mem
      in drop_table_lock lock
           (set_mutex (tl_entry lock) None (set_mutex (tl_entry lock) (Some me) mem1)))"

lemma commit_cases:
  "commit d sj srv me r (w, mem) =
     (case normalize_and_check_table_uri d srv (cr_table_uri r) w of
        (Err e, w') \<Rightarrow> (Err e, (w', mem))
      | (Ok url, w') \<Rightarrow>
          (case map_actions sj (cr_actions r) of
             Err e \<Rightarrow> (Err (mk_status InvalidArgument e), (w', mem))
           | Ok actions \<Rightarrow>
               (case commit_section d sj srv url (cr_expected_version r) actions w' of
                  (result, w'') \<Rightarrow> (result, (w'', with_lock me url mem)))))"
  by (auto simp: commit_def with_lock_def Let_def split: prod.splits result.splits)

lemma with_lock_locks:
  assumes "entries_in_use mem"
  shows "locks (with_lock me url mem) = locks mem"
proof (cases "locks mem url")
  case None
  then show ?thesis
    by (simp add: with_lock_def lock_for_def entry_or_insert_def fetch_add_ref_def set_mutex_def
        drop_table_lock_def fetch_sub_ref_def remove_if_unused_def unused_entry_def evict_def
        lock_entry_new_def Let_def fun_upd_idem)
next
  case (Some a)
  then have "ref_count (heap mem a) + 1 \<noteq> 1"
    using assms by (simp add: entries_in_use_def)
  with Some show ?thesis
    by (simp add: with_lock_def lock_for_def entry_or_insert_def fetch_add_ref_def set_mutex_def
        drop_table_lock_def fetch_sub_ref_def Let_def)
qed

lemma with_lock_entry:
  assumes "entries_in_use mem" and "locks mem url = Some a"
  shows "heap (with_lock me url mem) = (heap mem)(a := (heap mem a)\<lparr>mutex := None\<rparr>)"
proof -
  have "ref_count (heap mem a) + 1 \<noteq> 1"
    using assms by (simp add: entries_in_use_def)
  with assms show ?thesis
    by (simp add: with_lock_def lock_for_def entry_or_insert_def fetch_add_ref_def set_mutex_def
        drop_table_lock_def fetch_sub_ref_def Let_def fun_eq_iff)
qed

lemma with_lock_heap:
  assumes "entries_in_use mem" and "\<And>k a. locks mem k = Some a \<Longrightarrow> mutex (heap mem a) = None"
    and "locks mem k = Some a" and "a < next_addr mem"
  shows "heap (with_lock me url mem) a = heap mem a"
proof (cases "locks mem url")
  case None
  then show ?thesis
    using assms(4)
    by (simp add: with_lock_def lock_for_def entry_or_insert_def fetch_add_ref_def set_mutex_def
        drop_table_lock_def fetch_sub_ref_def remove_if_unused_def unused_entry_def evict_def
        lock_entry_new_def Let_def)
next
  case (Some b)
  then show ?thesis
    using with_lock_entry [OF assms(1) Some] assms(2) [OF Some] by simp
qed

section \<open>Properties\<close>

text \<open>
  Property C11 (expected_version_guards_the_write). With an expected version, a commit succeeds
  exactly when the table exists, its freshly opened version is the expected one, and delta-rs
  commits the actions against the snapshot just opened; when the opened version differs nothing is
  written and the client is told both versions; on a location without a table nothing is written.
\<close>

theorem expected_version_guards_the_write:
  "(commit_section d sj srv url (Some e) actions w = (Ok r, w') \<longleftrightarrow>
      (\<exists>w1 w2 table snapshot.
         table_exists d url (srv_storage_opts srv) w = (Ok True, w1)
         \<and> open_table d url (srv_storage_opts srv) w1 = (Ok table, w2)
         \<and> table_version d table = Some e \<and> table_snapshot d table = Ok snapshot
         \<and> commit_builder_build d actions (Some snapshot) (log_store d table)
             (build_operation sj actions) w2 = (Ok (committed_version r), w')))
   \<and> (\<forall>w1 w2 table v. table_exists d url (srv_storage_opts srv) w = (Ok True, w1)
         \<and> open_table d url (srv_storage_opts srv) w1 = (Ok table, w2)
         \<and> table_version d table = Some v \<and> v \<noteq> e \<longrightarrow>
       commit_section d sj srv url (Some e) actions w
         = (Err (status_of_error (VersionConflict e v)), w2))
   \<and> (\<forall>w1. table_exists d url (srv_storage_opts srv) w = (Ok False, w1) \<longrightarrow>
       (\<exists>s. commit_section d sj srv url (Some e) actions w = (Err s, w1)
          \<and> status_code s = FailedPrecondition))"
proof (intro conjI allI impI)
  show "commit_section d sj srv url (Some e) actions w = (Ok r, w') \<longleftrightarrow>
      (\<exists>w1 w2 table snapshot.
         table_exists d url (srv_storage_opts srv) w = (Ok True, w1)
         \<and> open_table d url (srv_storage_opts srv) w1 = (Ok table, w2)
         \<and> table_version d table = Some e \<and> table_snapshot d table = Ok snapshot
         \<and> commit_builder_build d actions (Some snapshot) (log_store d table)
             (build_operation sj actions) w2 = (Ok (committed_version r), w'))"
    by (auto simp: commit_section_expected_Ok commit_actions_Ok)
next
  fix w1 w2 table v
  assume "table_exists d url (srv_storage_opts srv) w = (Ok True, w1)
    \<and> open_table d url (srv_storage_opts srv) w1 = (Ok table, w2)
    \<and> table_version d table = Some v \<and> v \<noteq> e"
  then show "commit_section d sj srv url (Some e) actions w
      = (Err (status_of_error (VersionConflict e v)), w2)"
    by (auto simp: commit_section_def check_expected_version_def ok_or_def io_then_def
        io_map_err_def io_return_def)
next
  fix w1
  assume "table_exists d url (srv_storage_opts srv) w = (Ok False, w1)"
  then show "\<exists>s. commit_section d sj srv url (Some e) actions w = (Err s, w1)
      \<and> status_code s = FailedPrecondition"
    by (simp add: commit_section_def commit_create_def io_then_def io_map_err_def io_return_def)
qed


text \<open>
  Property C36 (commit_error_codes). Whatever fails, a commit answers with one of five codes, and
  whenever the code is INTERNAL the message is the one fixed text: the error text of delta-rs and of
  storage never reaches the client of a commit.
\<close>

theorem commit_error_codes:
  assumes "commit d sj srv me r st = (Err s, st')"
  shows "status_code s \<in> {PermissionDenied, InvalidArgument, FailedPrecondition, Aborted, Internal}
    \<and> (status_code s = Internal \<longrightarrow>
         s = mk_status Internal ''internal error processing delta table'')"
proof -
  obtain w mem where "st = (w, mem)" by (cases st)
  with assms show ?thesis
    by (auto simp: commit_cases internal_error_def split: prod.splits result.splits
        dest!: normalize_Err_code commit_section_Err)
qed

text \<open>
  However a commit ends, it leaves the map of the lock
  manager as it found it: an entry it created is evicted, an entry others use stays with its handle
  count and with its mutex free.
\<close>

theorem commit_gives_the_lock_back:
  assumes "entries_in_use mem" and "\<And>k a. locks mem k = Some a \<Longrightarrow> mutex (heap mem a) = None"
    and "commit d sj srv me r (w, mem) = (res, (w', mem'))"
  shows "locks mem' = locks mem \<and> (\<forall>k a. locks mem k = Some a \<longrightarrow> a < next_addr mem \<longrightarrow>
    heap mem' a = heap mem a)"
proof -
  have "mem' = mem \<or> (\<exists>url. mem' = with_lock me url mem)"
    using assms(3) by (auto simp: commit_cases split: prod.splits result.splits)
  then show ?thesis
    using assms(1,2) by (auto simp: with_lock_locks intro: with_lock_heap)
qed

subsection \<open>Metadata through a write and a read\<close>

text \<open>
  delta-rs's deserializer and accessors: the fields of a metadata value are those of the document it
  was read from, where null is an absent name, description or time.
\<close>

definition metadata_reads_json ::
  "('w, 'n, 'p, 'm, 'b, 't, 'l, 's, 'c, 'v) store \<Rightarrow> ('n, 'z) serde_scheme \<Rightarrow> 'm \<Rightarrow> 'n json \<Rightarrow> bool"
where
  "metadata_reads_json d sj m doc \<longleftrightarrow>
     json_get doc ''id'' = Some (JString (metadata_id d m)) \<and>
     json_get doc ''name'' = Some (json_opt JString (metadata_name d m)) \<and>
     json_get doc ''description'' = Some (json_opt JString (metadata_description d m)) \<and>
     json_get doc ''partitionColumns'' =
       Some (JArray (map JString (metadata_partition_columns d m))) \<and>
     hm_wf (metadata_configuration d m) \<and>
     json_get doc ''configuration'' =
       Some (json_object (map (\<lambda>(k, v). (k, JString v)) (metadata_configuration d m))) \<and>
     json_get doc ''createdTime'' =
       Some (json_opt (\<lambda>t. JNumber (num_from_i64 sj t)) (metadata_created_time d m))"

lemma json_opt_inject:
  "\<lbrakk>\<And>a b. f a = f b \<Longrightarrow> a = b; \<And>a. f a \<noteq> JNull\<rbrakk> \<Longrightarrow> json_opt f x = json_opt f y \<longleftrightarrow> x = y"
  by (auto simp: json_opt_def split: option.splits) metis+

lemma json_opt_JString_inject [simp]: "json_opt JString x = json_opt JString y \<longleftrightarrow> x = y"
  by (rule json_opt_inject) auto

lemma json_opt_num_inject:
  assumes "serde_numbers_ok sj"
  shows "json_opt (\<lambda>t. JNumber (num_from_i64 sj t)) x = json_opt (\<lambda>t. JNumber (num_from_i64 sj t)) y
    \<longleftrightarrow> x = y"
  by (rule json_opt_inject) (auto dest: arg_cong [where f = "num_as_i64 sj"] simp: serde_numbersD(1) [OF assms])

lemma some_unless_inverse: "some_unless d x = y \<Longrightarrow> unwrap_or y d = x"
  by (auto simp: some_unless_def unwrap_or_def)

lemma map_JString_inject: "map JString xs = map JString ys \<longleftrightarrow> xs = ys"
  by (simp add: inj_map_eq_map inj_def)

lemma json_string_map_inject:
  assumes "hm_wf m" "hm_wf n"
    and "(json_object (map (\<lambda>(k, v). (k, JString v)) m) :: 'a json) = json_object (map (\<lambda>(k, v). (k, JString v)) n)"
  shows "map_of m = map_of n"
proof
  fix k
  have get: "json_get (json_object (map (\<lambda>(k, v). (k, JString v)) x) :: 'a json) k = map_option JString (map_of x k)"
    if "hm_wf x" for x
    using that by (subst json_object_get) (unfold map_fst_map_snd hm_wf_def, simp_all add: map_of_map_snd)
  have "map_option JString (map_of m k) = (map_option JString (map_of n k) :: 'a json option)"
    unfolding get [OF assms(1), symmetric] get [OF assms(2), symmetric] assms(3) ..
  moreover have "inj (map_option (JString :: string \<Rightarrow> 'a json))"
    by (rule option.inj_map) (simp add: inj_def)
  ultimately show "map_of m k = map_of n k" by (rule injD [rotated])
qed


section \<open>Witnesses\<close>

definition sample_server :: server where
  "sample_server = \<lparr>srv_storage_opts = [], srv_allowed_table_prefixes = Some [''s3://b'']\<rparr>"

definition sample_request :: "action_msg list \<Rightarrow> commit_request" where
  "sample_request acts =
     \<lparr>cr_table_uri = ''s3://b/t'', cr_expected_version = Some 3, cr_actions = acts,
      cr_app_metadata = []\<rparr>"

abbreviation sample_sj0 where
  "sample_sj0 \<equiv> sample_serde JNull"

abbreviation sample_world_at where
  "sample_world_at v \<equiv> [(''s3://b/t'', sample_log_at v)]"

text \<open>A lock memory in which another task has a handle on the table's entry.\<close>

definition sample_mem :: lock_mem where
  "sample_mem = snd (lock_for ''s3://b/t'' lock_manager_default)"

theorem expected_version_guards_the_write_witness:
  "commit_section sample_store sample_sj0 sample_server ''s3://b/t'' (Some 3) [] (sample_world_at 3)
     = (Ok \<lparr>committed_version = 4\<rparr>, sample_world_at 4)
   \<and> commit_section sample_store sample_sj0 sample_server ''s3://b/t'' (Some 3) [] (sample_world_at 5)
     = (Err (status_of_error (VersionConflict 3 5)), sample_world_at 5)"
proof
  have "\<exists>w1 w2 table snapshot.
      table_exists sample_store ''s3://b/t'' (srv_storage_opts sample_server) (sample_world_at 3)
        = (Ok True, w1)
      \<and> open_table sample_store ''s3://b/t'' (srv_storage_opts sample_server) w1 = (Ok table, w2)
      \<and> table_version sample_store table = Some 3 \<and> table_snapshot sample_store table = Ok snapshot
      \<and> commit_builder_build sample_store [] (Some snapshot) (log_store sample_store table)
          (build_operation sample_sj0 []) w2 = (Ok (committed_version \<lparr>committed_version = 4\<rparr>),
            sample_world_at 4)"
    by (simp add: sample_store_eval ok_or_def Let_def)
  then show "commit_section sample_store sample_sj0 sample_server ''s3://b/t'' (Some 3) []
      (sample_world_at 3) = (Ok \<lparr>committed_version = 4\<rparr>, sample_world_at 4)"
    using expected_version_guards_the_write
      [of sample_store sample_sj0 sample_server "''s3://b/t''" 3 "[]" "sample_world_at 3"
        "\<lparr>committed_version = 4\<rparr>" "sample_world_at 4"]
    by simp
  have "table_exists sample_store ''s3://b/t'' (srv_storage_opts sample_server) (sample_world_at 5)
      = (Ok True, sample_world_at 5)
    \<and> open_table sample_store ''s3://b/t'' (srv_storage_opts sample_server) (sample_world_at 5)
      = (Ok (''s3://b/t'', Some (sample_log_at 5)), sample_world_at 5)
    \<and> table_version sample_store (''s3://b/t'', Some (sample_log_at 5)) = Some 5
    \<and> (5 :: u64) \<noteq> 3"
    by (simp add: sample_store_eval)
  then show "commit_section sample_store sample_sj0 sample_server ''s3://b/t'' (Some 3) []
      (sample_world_at 5) = (Err (status_of_error (VersionConflict 3 5)), sample_world_at 5)"
    using expected_version_guards_the_write
      [of sample_store sample_sj0 sample_server "''s3://b/t''" 3 "[]" "sample_world_at 5"]
    by blast
qed

lemma sample_normalize:
  "normalize_and_check_table_uri sample_store sample_server ''s3://b/t'' w = (Ok ''s3://b/t'', w)"
proof -
  have "is_table_uri_allowed ''s3://b/t'' (Some [''s3://b''])" by code_simp
  moreover have "contains_str ''s3://b/t'' ''://''" by code_simp
  ultimately show ?thesis
    by (simp add: normalize_Ok sample_server_def) (simp add: sample_store_def)
qed


lemma sample_stale_section:
  "commit_section sample_store sample_sj0 sample_server ''s3://b/t'' (Some 3) [] (sample_world_at 5)
     = (Err (status_of_error (VersionConflict 3 5)), sample_world_at 5)"
  by (simp add: commit_section_def check_expected_version_def sample_store_eval ok_or_def
      sample_server_def del: status_of_error.simps)

lemma sample_stale_commit:
  "commit sample_store sample_sj0 sample_server 0 (sample_request []) (sample_world_at 5, sample_mem)
     = (Err (status_of_error (VersionConflict 3 5)),
        (sample_world_at 5, with_lock 0 ''s3://b/t'' sample_mem))"
  by (simp add: commit_cases sample_request_def sample_normalize map_actions_def
      sample_stale_section del: status_of_error.simps)

theorem commit_error_codes_witness:
  "\<exists>s st'. commit sample_store sample_sj0 sample_server 0 (sample_request [])
        (sample_world_at 5, sample_mem) = (Err s, st')
     \<and> status_code s \<in> {PermissionDenied, InvalidArgument, FailedPrecondition, Aborted, Internal}"
  using commit_error_codes [OF sample_stale_commit] sample_stale_commit by blast

lemma sample_mem_entry:
  "locks sample_mem = [''s3://b/t'' \<mapsto> 0]" "next_addr sample_mem = 1"
  "heap sample_mem 0 = \<lparr>mutex = None, ref_count = 1\<rparr>"
  by (simp_all add: sample_mem_def lock_for_def lock_manager_default_def entry_or_insert_def
      fetch_add_ref_def lock_entry_new_def Let_def)

theorem commit_gives_the_lock_back_witness:
  "\<exists>res w' mem'. commit sample_store sample_sj0 sample_server 0 (sample_request [])
        (sample_world_at 5, sample_mem) = (res, (w', mem'))
     \<and> locks mem' = [''s3://b/t'' \<mapsto> 0] \<and> heap mem' 0 = \<lparr>mutex = None, ref_count = 1\<rparr>"
proof -
  have "locks (with_lock 0 ''s3://b/t'' sample_mem) = locks sample_mem
    \<and> (\<forall>k a. locks sample_mem k = Some a \<longrightarrow> a < next_addr sample_mem \<longrightarrow>
         heap (with_lock 0 ''s3://b/t'' sample_mem) a = heap sample_mem a)"
    by (rule commit_gives_the_lock_back [OF _ _ sample_stale_commit])
      (auto simp: entries_in_use_def sample_mem_entry split: if_splits)
  with sample_stale_commit show ?thesis by (auto simp: sample_mem_entry)
qed

definition sample_table_metadata :: table_metadata where
  "sample_table_metadata =
     \<lparr>tm_id = ''id'', tm_name = [], tm_description = ''d'', tm_schema_string = ''s'',
      tm_partition_columns = [''p''], tm_configuration = [(''k'', ''v'')], tm_created_time = 0\<rparr>"


subsection \<open>Reads\<close>

lemma build_handle_Err: "build_handle d url opts = Err e \<Longrightarrow> \<exists>m. e = OpenFailed m"
  by (auto simp: build_handle_def rust_simps)

lemma table_exists_Err: "table_exists d url opts w = (Err e, w') \<Longrightarrow> \<exists>m. e = OpenFailed m"
  by (auto simp: table_exists_def rust_simps dest: build_handle_Err)

lemma open_table_Err: "open_table d url opts w = (Err e, w') \<Longrightarrow> \<exists>m. e = OpenFailed m"
  by (auto simp: open_table_def rust_simps)

lemma build_metadata_Err:
  "build_metadata_and_protocol d snapshot = Err s \<Longrightarrow> status_code s = Internal"
  by (auto simp: build_metadata_and_protocol_def Let_def rust_simps)

lemma snapshot_error_code:
  "status_code (map_open_or_snapshot_error e) = FailedPrecondition
     \<or> status_code (map_open_or_snapshot_error e) = Internal"
  by (cases e) auto

lemma not_found_code: "status_code (not_found url) = NotFound"
  by (simp add: not_found_def)

text \<open>
  GetTable answers with version, metadata and protocol of one and
  the same snapshot, which it opened after it saw that the table exists; a table that does not exist
  is NOT_FOUND with storage only looked at; a read never answers ABORTED.
\<close>

theorem get_table_outcomes:
  "(get_table d srv uri w = (Ok resp, w') \<longleftrightarrow>
      (\<exists>url w1 w2 table snapshot metadata protocol.
         normalize_and_check_table_uri d srv uri w = (Ok url, w1)
         \<and> table_exists d url (srv_storage_opts srv) w1 = (Ok True, w2)
         \<and> open_table d url (srv_storage_opts srv) w2 = (Ok table, w')
         \<and> table_snapshot d table = Ok snapshot
         \<and> build_metadata_and_protocol d snapshot = Ok (metadata, protocol)
         \<and> resp = \<lparr>gt_version = snapshot_version d snapshot, gt_metadata = Some metadata,
                   gt_protocol = Some protocol\<rparr>))
   \<and> (\<forall>url w1 w2. normalize_and_check_table_uri d srv uri w = (Ok url, w1)
         \<and> table_exists d url (srv_storage_opts srv) w1 = (Ok False, w2) \<longrightarrow>
       get_table d srv uri w = (Err (not_found url), w2))
   \<and> (\<forall>s. get_table d srv uri w = (Err s, w') \<longrightarrow>
       status_code s \<in> {PermissionDenied, InvalidArgument, NotFound, FailedPrecondition, Internal})"
proof (intro conjI allI impI)
  show "get_table d srv uri w = (Ok resp, w') \<longleftrightarrow>
      (\<exists>url w1 w2 table snapshot metadata protocol.
         normalize_and_check_table_uri d srv uri w = (Ok url, w1)
         \<and> table_exists d url (srv_storage_opts srv) w1 = (Ok True, w2)
         \<and> open_table d url (srv_storage_opts srv) w2 = (Ok table, w')
         \<and> table_snapshot d table = Ok snapshot
         \<and> build_metadata_and_protocol d snapshot = Ok (metadata, protocol)
         \<and> resp = \<lparr>gt_version = snapshot_version d snapshot, gt_metadata = Some metadata,
                   gt_protocol = Some protocol\<rparr>)"
    unfolding get_table_def
    by (auto simp: rust_simps split: if_splits)
next
  fix url w1 w2
  assume "normalize_and_check_table_uri d srv uri w = (Ok url, w1)
    \<and> table_exists d url (srv_storage_opts srv) w1 = (Ok False, w2)"
  then show "get_table d srv uri w = (Err (not_found url), w2)"
    by (simp add: get_table_def io_then_def io_map_err_def io_return_def)
next
  fix s assume "get_table d srv uri w = (Err s, w')"
  then show "status_code s \<in> {PermissionDenied, InvalidArgument, NotFound, FailedPrecondition, Internal}"
    unfolding get_table_def io_then_Err_iff io_map_err_Err_iff
    using snapshot_error_code
    by (auto simp: io_then_Err_iff io_map_err_Err_iff io_return_iff map_err_Err_iff not_found_code
        split: if_splits
        dest: normalize_Err_code table_exists_Err open_table_Err build_metadata_Err)
      (metis snapshot_error_code)
qed

theorem get_table_outcomes_witness:
  "get_table sample_store sample_server ''s3://b/t'' [] = (Err (not_found ''s3://b/t''), [])"
proof -
  have "normalize_and_check_table_uri sample_store sample_server ''s3://b/t'' [] = (Ok ''s3://b/t'', [])
    \<and> table_exists sample_store ''s3://b/t'' (srv_storage_opts sample_server) [] = (Ok False, [])"
    using sample_normalize by (simp add: sample_store_eval)
  then show ?thesis
    using get_table_outcomes [of sample_store sample_server "''s3://b/t''" "[]"] by blast
qed

end
