(* ===== verification/Active_Files.thy ===== *)
theory Active_Files
  imports Grpc_Server
begin

section \<open>Streaming the active files (grpc/server.rs)\<close>

text \<open>
  \<open>list_active_files\<close> and the task it spawns. The task sends messages into a bounded channel;
  \<open>send\<close> fails once the client is gone. Which sends still succeed is a parameter: \<open>gone = None\<close> is a
  client that stays to the end, \<open>gone = Some k\<close> one that is gone from the k-th message on (counted
  from 0). The reference for a run is \<open>all_messages\<close>, the messages for a client that stays.
\<close>

definition file_batch_size :: nat where
  "file_batch_size = 1000"

definition stream_channel_capacity :: nat where
  "stream_channel_capacity = 4"

type_synonym stream_item = "(list_payload, status) result"

definition send :: "nat option \<Rightarrow> stream_item \<Rightarrow> stream_item list \<Rightarrow> bool \<times> stream_item list" where
  "send gone msg sent =
     (if (case gone of None \<Rightarrow> True | Some k \<Rightarrow> length sent < k) then (True, sent @ [msg])
      else (False, sent))"

subsection \<open>One file\<close>

definition partition_values_of ::
  "('w, 'n, 'p, 'm, 'b, 't, 'l, 's, 'c, 'v) store \<Rightarrow> 'v file_view \<Rightarrow> string option hash_map" where
  "partition_values_of d fv =
     unwrap_or
       (map_option
          (\<lambda>(fields, vals). hm_collect
             (map (\<lambda>(field, v).
                (field, if scalar_is_null d v then None else Some (scalar_serialize d v)))
              (zip fields vals)))
          (fv_partition_values fv))
       []"

definition active_file ::
  "('w, 'n, 'p, 'm, 'b, 't, 'l, 's, 'c, 'v) store \<Rightarrow> ('n, 'z) serde_scheme \<Rightarrow> 'v file_view
     \<Rightarrow> add_file" where
  "active_file d sj fv =
     map_active_file_to_pb sj (fv_path fv) (fv_size fv) (fv_modification_time fv)
       (partition_values_of d fv) (fv_stats fv)"

subsection \<open>The loop over the files\<close>

fun stream_files ::
  "('w, 'n, 'p, 'm, 'b, 't, 'l, 's, 'c, 'v) store \<Rightarrow> ('n, 'z) serde_scheme \<Rightarrow> nat option
     \<Rightarrow> ('v file_view, string) result list \<Rightarrow> add_file list \<Rightarrow> stream_item list
     \<Rightarrow> (unit, status) result \<times> stream_item list" where
  "stream_files d sj gone [] batch sent =
     (if batch \<noteq> [] then (Ok (), snd (send gone (Ok (Batch batch)) sent)) else (Ok (), sent))"
| "stream_files d sj gone (Err e # items) batch sent =
     (Err (mk_status Internal ''internal error streaming active files''), sent)"
| "stream_files d sj gone (Ok fv # items) batch sent =
     (let batch = batch @ [active_file d sj fv]
      in if file_batch_size \<le> length batch then
           (case send gone (Ok (Batch batch)) sent of
              (True, sent) \<Rightarrow> stream_files d sj gone items [] sent
            | (False, sent) \<Rightarrow> (Ok (), sent))
         else stream_files d sj gone items batch sent)"

definition stream_active_files_inner ::
  "('w, 'n, 'p, 'm, 'b, 't, 'l, 's, 'c, 'v) store \<Rightarrow> ('n, 'z) serde_scheme \<Rightarrow> nat option \<Rightarrow> url
     \<Rightarrow> string hash_map \<Rightarrow> 'w \<Rightarrow> ((unit, status) result \<times> stream_item list) \<times> 'w" where
  "stream_active_files_inner d sj gone table_uri opts w =
     (case table_exists d table_uri opts w of
        (Err e, w1) \<Rightarrow> ((Err (status_of_error e), []), w1)
      | (Ok False, w1) \<Rightarrow> ((Err (not_found table_uri), []), w1)
      | (Ok True, w1) \<Rightarrow>
          (case open_table d table_uri opts w1 of
             (Err e, w2) \<Rightarrow> ((Err (status_of_error e), []), w2)
           | (Ok table, w2) \<Rightarrow>
               (case table_snapshot d table of
                  Err e \<Rightarrow> ((Err (map_open_or_snapshot_error e), []), w2)
                | Ok snapshot \<Rightarrow>
                    (case build_metadata_and_protocol d snapshot of
                       Err e \<Rightarrow> ((Err e, []), w2)
                     | Ok (metadata, protocol) \<Rightarrow>
                         (case send gone (Ok (Header
                                 \<lparr>lh_version = snapshot_version d snapshot,
                                  lh_metadata = Some metadata,
                                  lh_protocol = Some protocol\<rparr>)) [] of
                            (False, sent) \<Rightarrow> ((Ok (), sent), w2)
                          | (True, sent) \<Rightarrow>
                              (case file_views d snapshot (log_store d table) w2 of
                                 (items, w3) \<Rightarrow> (stream_files d sj gone items [] sent, w3)))))))"

text \<open>The spawned task: a failure becomes the last item of the stream.\<close>

definition stream_active_files ::
  "('w, 'n, 'p, 'm, 'b, 't, 'l, 's, 'c, 'v) store \<Rightarrow> ('n, 'z) serde_scheme \<Rightarrow> nat option \<Rightarrow> url
     \<Rightarrow> string hash_map \<Rightarrow> 'w \<Rightarrow> stream_item list \<times> 'w" where
  "stream_active_files d sj gone table_uri opts w =
     (case stream_active_files_inner d sj gone table_uri opts w of
        ((Err status, sent), w') \<Rightarrow> (snd (send gone (Err status) sent), w')
      | ((Ok _, sent), w') \<Rightarrow> (sent, w'))"

text \<open>The handler: a bad table URI fails the call, everything else is reported on the stream.\<close>

definition list_active_files ::
  "('w, 'n, 'p, 'm, 'b, 't, 'l, 's, 'c, 'v) store \<Rightarrow> ('n, 'z) serde_scheme \<Rightarrow> server \<Rightarrow> nat option
     \<Rightarrow> string \<Rightarrow> ('w, stream_item list, status) io" where
  "list_active_files d sj srv gone table_uri =
     io_then (normalize_and_check_table_uri d srv table_uri) (\<lambda>table_uri w.
       case stream_active_files d sj gone table_uri (srv_storage_opts srv) w of
         (items, w') \<Rightarrow> (Ok items, w'))"

section \<open>Lemmas\<close>

subsection \<open>Batches\<close>

text \<open>The reference for batching: cut a list into pieces of length \<open>n\<close>.\<close>

function chunks :: "nat \<Rightarrow> 'a list \<Rightarrow> 'a list list" where
  "chunks n xs = (if n = 0 \<or> xs = [] then [] else take n xs # chunks n (drop n xs))"
  by pat_completeness auto
termination
  by (relation "measure (\<lambda>(n, xs). length xs)") auto

declare chunks.simps [simp del]

lemma chunks_Nil [simp]: "chunks n [] = []"
  by (simp add: chunks.simps)

lemma chunks_short: "0 < n \<Longrightarrow> xs \<noteq> [] \<Longrightarrow> length xs \<le> n \<Longrightarrow> chunks n xs = [xs]"
  by (subst chunks.simps) simp

lemma chunks_append: "0 < n \<Longrightarrow> length xs = n \<Longrightarrow> chunks n (xs @ ys) = xs # chunks n ys"
  by (subst chunks.simps) auto

lemma concat_chunks: "0 < n \<Longrightarrow> concat (chunks n xs) = xs"
proof (induction n xs rule: chunks.induct)
  case (1 n xs)
  then show ?case by (subst chunks.simps) auto
qed

lemma chunk_size: "c \<in> set (chunks n xs) \<Longrightarrow> c \<noteq> [] \<and> length c \<le> n"
proof (induction n xs rule: chunks.induct)
  case (1 n xs)
  then show ?case by (subst (asm) chunks.simps) (auto split: if_splits)
qed

lemma inner_chunk_size: "c \<in> set (butlast (chunks n xs)) \<Longrightarrow> length c = n"
proof (induction n xs rule: chunks.induct)
  case (1 n xs)
  then show ?case
    by (subst (asm) chunks.simps)
      (auto split: if_splits simp: chunks.simps [of n "drop n xs"] min_def)
qed

text \<open>Only the full pieces, which is what has been sent when an error ends the loop.\<close>

definition full_chunks :: "nat \<Rightarrow> 'a list \<Rightarrow> 'a list list" where
  "full_chunks n xs = filter (\<lambda>c. length c = n) (chunks n xs)"

lemma full_chunks_append:
  "0 < n \<Longrightarrow> length xs = n \<Longrightarrow> full_chunks n (xs @ ys) = xs # full_chunks n ys"
  by (simp add: full_chunks_def chunks_append)

lemma full_chunks_short: "length xs < n \<Longrightarrow> full_chunks n xs = []"
  by (cases "xs = []") (auto simp: full_chunks_def chunks_short)

lemma full_chunks_prefix: "0 < n \<Longrightarrow> prefix (concat (full_chunks n xs)) xs"
proof (induction n xs rule: chunks.induct)
  case (1 n xs)
  show ?case
  proof (cases "length xs < n")
    case False
    then have "full_chunks n (take n xs @ drop n xs) = take n xs # full_chunks n (drop n xs)"
      using 1 by (intro full_chunks_append) auto
    moreover have "prefix (concat (full_chunks n (drop n xs))) (drop n xs)"
      using 1 False by (cases "xs = []") auto
    ultimately show ?thesis
      by (metis append_take_drop_id concat.simps(2) same_prefix_prefix)
  qed (simp add: full_chunks_short)
qed

subsection \<open>The loop\<close>

lemma file_batch_size_pos: "0 < file_batch_size"
  by (simp add: file_batch_size_def)

lemma send_stays: "send None msg sent = (True, sent @ [msg])"
  by (simp add: send_def)

definition batch_items :: "add_file list list \<Rightarrow> stream_item list" where
  "batch_items bs = map (\<lambda>b. Ok (Batch b)) bs"

lemma stream_files_stays:
  "length batch < file_batch_size \<Longrightarrow>
     stream_files d sj None (map Ok fvs) batch sent =
       (Ok (), sent @ batch_items (chunks file_batch_size (batch @ map (active_file d sj) fvs)))"
proof (induction fvs arbitrary: batch sent)
  case Nil
  then show ?case
    by (simp add: send_stays chunks_short file_batch_size_pos batch_items_def)
next
  case (Cons fv fvs)
  let ?batch = "batch @ [active_file d sj fv]"
  show ?case
  proof (cases "file_batch_size \<le> length ?batch")
    case True
    then have "chunks file_batch_size (?batch @ map (active_file d sj) fvs) =
        ?batch # chunks file_batch_size (map (active_file d sj) fvs)"
      using Cons.prems file_batch_size_pos by (intro chunks_append) auto
    with True Cons.IH [of "[]"] show ?thesis
      by (simp add: send_stays file_batch_size_pos batch_items_def)
  next
    case False
    with Cons.IH [of ?batch] show ?thesis by simp
  qed
qed

lemma stream_files_fails:
  "length batch < file_batch_size \<Longrightarrow>
     stream_files d sj None (map Ok fvs @ Err e # rest) batch sent =
       (Err (mk_status Internal ''internal error streaming active files''),
        sent @ batch_items (full_chunks file_batch_size (batch @ map (active_file d sj) fvs)))"
proof (induction fvs arbitrary: batch sent)
  case Nil
  then show ?case by (simp add: full_chunks_short batch_items_def)
next
  case (Cons fv fvs)
  let ?batch = "batch @ [active_file d sj fv]"
  show ?case
  proof (cases "file_batch_size \<le> length ?batch")
    case True
    then have "full_chunks file_batch_size (?batch @ map (active_file d sj) fvs) =
        ?batch # full_chunks file_batch_size (map (active_file d sj) fvs)"
      using Cons.prems file_batch_size_pos by (intro full_chunks_append) auto
    with True Cons.IH [of "[]"] show ?thesis
      by (simp add: send_stays file_batch_size_pos batch_items_def)
  next
    case False
    with Cons.IH [of ?batch] show ?thesis by simp
  qed
qed

subsection \<open>A client that leaves\<close>

text \<open>What the task has sent after it ended with \<open>r\<close>, the final error included.\<close>

definition finish :: "nat option \<Rightarrow> (unit, status) result \<times> stream_item list \<Rightarrow> stream_item list" where
  "finish gone rs = (case rs of (Err s, sent) \<Rightarrow> snd (send gone (Err s) sent) | (Ok _, sent) \<Rightarrow> sent)"

lemma finish_simps:
  "finish gone (Err s, sent) = snd (send gone (Err s) sent)"
  "finish gone (Ok u, sent) = sent"
  by (simp_all add: finish_def)

lemma stream_files_extends: "prefix sent (finish None (stream_files d sj None items batch sent))"
proof (induction d sj "None :: nat option" items batch sent rule: stream_files.induct)
  case (3 d sj fv items batch sent)
  then show ?case
    by (auto simp: send_stays Let_def dest: append_prefixD)
qed (auto simp: finish_simps send_stays)

lemma stream_files_leaves:
  "length sent \<le> k \<Longrightarrow>
     finish (Some k) (stream_files d sj (Some k) items batch sent) =
     take k (finish None (stream_files d sj None items batch sent))"
proof (induction items arbitrary: batch sent)
  case Nil
  then show ?case by (auto simp: finish_simps send_def)
next
  case (Cons item items)
  show ?case
  proof (cases item)
    case (Err e)
    with Cons.prems show ?thesis by (auto simp: finish_simps send_def)
  next
    case (Ok fv)
    let ?batch = "batch @ [active_file d sj fv]"
    show ?thesis
    proof (cases "file_batch_size \<le> length ?batch \<and> \<not> length sent < k")
      case True
      then have "length sent = k" using Cons.prems by simp
      moreover have "prefix sent (finish None (stream_files d sj None (item # items) batch sent))"
        by (rule stream_files_extends)
      ultimately have "take k (finish None (stream_files d sj None (item # items) batch sent)) = sent"
        by (auto simp: prefix_def)
      with True Ok show ?thesis by (simp add: send_def finish_simps)
    next
      case False
      with Ok Cons.IH [of "sent @ [result.Ok (Batch ?batch)]" "[]"] Cons.IH [of sent ?batch] Cons.prems
      show ?thesis by (auto simp: send_def Let_def)
    qed
  qed
qed

lemma stream_active_files_finish:
  "fst (stream_active_files d sj gone url opts w) =
     finish gone (fst (stream_active_files_inner d sj gone url opts w))"
  by (auto simp: stream_active_files_def finish_def split: prod.splits result.splits)

lemma stream_active_files_leaves:
  "fst (stream_active_files d sj (Some k) url opts w) =
     take k (fst (stream_active_files d sj None url opts w))"
proof -
  have inner: "finish (Some k) (fst (stream_active_files_inner d sj (Some k) url opts w)) =
      take k (finish None (fst (stream_active_files_inner d sj None url opts w)))"
    by (auto simp: stream_active_files_inner_def finish_simps send_def stream_files_leaves
        split: prod.splits result.splits bool.splits)
  then show ?thesis
    by (simp add: stream_active_files_finish)
qed

subsection \<open>The whole listing\<close>

text \<open>
  The listing of a table that can be opened and described, for a client that stays: its header, and
  the batches of the files up to the first that cannot be read.
\<close>

lemma listing_stays:
  assumes "normalize_and_check_table_uri d srv uri w = (Ok url, w0)"
    and "table_exists d url (srv_storage_opts srv) w0 = (Ok True, w1)"
    and "open_table d url (srv_storage_opts srv) w1 = (Ok table, w2)"
    and "table_snapshot d table = Ok snapshot"
    and "build_metadata_and_protocol d snapshot = Ok (metadata, protocol)"
  shows "file_views d snapshot (log_store d table) w2 = (map Ok fvs, w3) \<Longrightarrow>
      list_active_files d sj srv None uri w =
        (Ok (Ok (Header \<lparr>lh_version = snapshot_version d snapshot, lh_metadata = Some metadata,
               lh_protocol = Some protocol\<rparr>)
             # batch_items (chunks 1000 (map (active_file d sj) fvs))), w3)"
    and "file_views d snapshot (log_store d table) w2 = (map Ok fvs @ Err e # rest, w3) \<Longrightarrow>
      list_active_files d sj srv None uri w =
        (Ok (Ok (Header \<lparr>lh_version = snapshot_version d snapshot, lh_metadata = Some metadata,
               lh_protocol = Some protocol\<rparr>)
             # batch_items (full_chunks 1000 (map (active_file d sj) fvs))
             @ [Err (mk_status Internal ''internal error streaming active files'')]), w3)"
  using assms
  by (simp_all add: list_active_files_def io_then_def stream_active_files_def
      stream_active_files_inner_def send_stays stream_files_stays stream_files_fails
      file_batch_size_pos) (simp_all add: file_batch_size_def)

section \<open>Properties\<close>

text \<open>
  Property C15 (active_files_are_complete). For a client that stays, a listing without failure is the
  header of the opened snapshot followed by the files of that snapshot, all of them, in order and
  once each, in batches that are never empty and never over 1000 files, all full but the last.
\<close>

theorem active_files_are_complete:
  assumes "normalize_and_check_table_uri d srv uri w = (Ok url, w0)"
    and "table_exists d url (srv_storage_opts srv) w0 = (Ok True, w1)"
    and "open_table d url (srv_storage_opts srv) w1 = (Ok table, w2)"
    and "table_snapshot d table = Ok snapshot"
    and "build_metadata_and_protocol d snapshot = Ok (metadata, protocol)"
    and "file_views d snapshot (log_store d table) w2 = (map Ok fvs, w3)"
  shows "\<exists>batches. list_active_files d sj srv None uri w =
      (Ok (Ok (Header \<lparr>lh_version = snapshot_version d snapshot, lh_metadata = Some metadata,
             lh_protocol = Some protocol\<rparr>) # map (\<lambda>b. Ok (Batch b)) batches), w3)
    \<and> concat batches = map (active_file d sj) fvs
    \<and> (\<forall>b\<in>set batches. b \<noteq> [] \<and> length b \<le> 1000)
    \<and> (\<forall>b\<in>set (butlast batches). length b = 1000)"
proof (intro exI conjI)
  let ?batches = "chunks 1000 (map (active_file d sj) fvs)"
  show "list_active_files d sj srv None uri w =
      (Ok (Ok (Header \<lparr>lh_version = snapshot_version d snapshot, lh_metadata = Some metadata,
             lh_protocol = Some protocol\<rparr>) # map (\<lambda>b. Ok (Batch b)) ?batches), w3)"
    using listing_stays(1) [OF assms] by (simp add: batch_items_def)
  show "concat ?batches = map (active_file d sj) fvs" by (simp add: concat_chunks)
  show "\<forall>b\<in>set ?batches. b \<noteq> [] \<and> length b \<le> 1000" by (auto dest: chunk_size)
  show "\<forall>b\<in>set (butlast ?batches). length b = 1000" by (auto dest: inner_chunk_size)
qed

text \<open>
  Property C23 (failed_listing_is_a_marked_prefix). When reading the files fails, the client has
  received full batches of the first files and then one final error: what it has is a prefix of the
  listing in order, the files of the last, incomplete batch are not reported, and the error tells
  that the listing is not complete.
\<close>

theorem failed_listing_is_a_marked_prefix:
  assumes "normalize_and_check_table_uri d srv uri w = (Ok url, w0)"
    and "table_exists d url (srv_storage_opts srv) w0 = (Ok True, w1)"
    and "open_table d url (srv_storage_opts srv) w1 = (Ok table, w2)"
    and "table_snapshot d table = Ok snapshot"
    and "build_metadata_and_protocol d snapshot = Ok (metadata, protocol)"
    and "file_views d snapshot (log_store d table) w2 = (map Ok fvs @ Err e # rest, w3)"
  shows "\<exists>batches. list_active_files d sj srv None uri w =
      (Ok (Ok (Header \<lparr>lh_version = snapshot_version d snapshot, lh_metadata = Some metadata,
             lh_protocol = Some protocol\<rparr>) # map (\<lambda>b. Ok (Batch b)) batches
           @ [Err (mk_status Internal ''internal error streaming active files'')]), w3)
    \<and> prefix (concat batches) (map (active_file d sj) fvs)
    \<and> (\<forall>b\<in>set batches. length b = 1000)"
proof (intro exI conjI)
  let ?batches = "full_chunks 1000 (map (active_file d sj) fvs)"
  show "list_active_files d sj srv None uri w =
      (Ok (Ok (Header \<lparr>lh_version = snapshot_version d snapshot, lh_metadata = Some metadata,
             lh_protocol = Some protocol\<rparr>) # map (\<lambda>b. Ok (Batch b)) ?batches
           @ [Err (mk_status Internal ''internal error streaming active files'')]), w3)"
    using listing_stays(2) [OF assms] by (simp add: batch_items_def)
  show "prefix (concat ?batches) (map (active_file d sj) fvs)" by (simp add: full_chunks_prefix)
  show "\<forall>b\<in>set ?batches. length b = 1000" by (simp add: full_chunks_def)
qed

text \<open>
  A client that is gone after k messages has received
  exactly the first k messages a staying client would have received, whatever the listing contains
  and however it ends.
\<close>

theorem leaving_client_gets_a_prefix:
  "fst (stream_active_files d sj (Some k) url opts w) =
     take k (fst (stream_active_files d sj None url opts w))"
  by (rule stream_active_files_leaves)


section \<open>Witnesses\<close>

definition sample_kernel_add :: "string \<Rightarrow> kernel_add" where
  "sample_kernel_add p =
     \<lparr>ka_path = p, ka_size = 1, ka_modification_time = 2,
      ka_partition_values = [(''region'', None)], ka_data_change = True, ka_stats = None,
      ka_tags = None, ka_deletion_vector = None, ka_base_row_id = None,
      ka_default_row_commit_version = None, ka_clustering_provider = None\<rparr>"

definition sample_full_log :: sample_log where
  "sample_full_log =
     \<lparr>sl_version = 7, sl_protocol = JNull,
      sl_metadata = metadata_json (sample_serde JNull) sample_table_metadata,
      sl_files = [sample_kernel_add ''a'', sample_kernel_add ''b'']\<rparr>"

text \<open>The sample store with a listing that breaks off after its files.\<close>

definition broken_store where
  "broken_store = sample_store\<lparr>file_views := (\<lambda>s l w.
     (fst (file_views sample_store s l w) @ [Err ''lost''], w))\<rparr>"

lemma sample_build:
  "\<exists>metadata protocol. build_metadata_and_protocol sample_store sample_full_log = Ok (metadata, protocol)
     \<and> build_metadata_and_protocol broken_store sample_full_log = Ok (metadata, protocol)"
proof -
  have "json_get (sl_metadata sample_full_log) ''schemaString'' = Some (JString ''s'')"
    by (simp add: sample_full_log_def metadata_json_def Let_def json_object_get
        sample_table_metadata_def)
  then show ?thesis
    by (simp add: build_metadata_and_protocol_def broken_store_def sample_store_def Let_def
        doc_string_def ok_or_def)
qed

abbreviation sample_full_world where
  "sample_full_world \<equiv> [(''s3://b/t'', sample_full_log)]"

abbreviation sample_views where
  "sample_views \<equiv> map (\<lambda>a. \<lparr>fv_path = ka_path a, fv_size = ka_size a,
    fv_modification_time = ka_modification_time a,
    fv_partition_values = Some (map fst (ka_partition_values a), map snd (ka_partition_values a)),
    fv_stats = ka_stats a\<rparr>) [sample_kernel_add ''a'', sample_kernel_add ''b'']"

lemma sample_opened:
  "table_exists sample_store ''s3://b/t'' (srv_storage_opts sample_server) sample_full_world
     = (Ok True, sample_full_world)"
  "open_table sample_store ''s3://b/t'' (srv_storage_opts sample_server) sample_full_world
     = (Ok (''s3://b/t'', Some sample_full_log), sample_full_world)"
  "table_snapshot sample_store (''s3://b/t'', Some sample_full_log) = Ok sample_full_log"
  "file_views sample_store sample_full_log
     (log_store sample_store (''s3://b/t'', Some sample_full_log)) sample_full_world
   = (map Ok sample_views, sample_full_world)"
  by (simp_all add: sample_store_eval ok_or_def) (simp add: sample_full_log_def)

lemma sample_listing:
  assumes "build_metadata_and_protocol sample_store sample_full_log = Ok (metadata, protocol)"
  obtains header batches where
    "list_active_files sample_store sample_sj0 sample_server None ''s3://b/t'' sample_full_world =
       (Ok (Ok (Header header) # map (\<lambda>b. Ok (Batch b)) batches), sample_full_world)"
  using listing_stays(1) [OF sample_normalize sample_opened(1-3) assms sample_opened(4), of sample_sj0]
    that
  by (simp add: batch_items_def)

theorem active_files_are_complete_witness:
  "\<exists>header batches.
     list_active_files sample_store sample_sj0 sample_server None ''s3://b/t'' sample_full_world =
       (Ok (Ok (Header header) # map (\<lambda>b. Ok (Batch b)) batches), sample_full_world)
     \<and> map af_path (concat batches) = [''a'', ''b''] \<and> lh_version header = 7"
proof -
  let ?w = sample_full_world
  let ?views = sample_views
  obtain metadata protocol
    where b: "build_metadata_and_protocol sample_store sample_full_log = Ok (metadata, protocol)"
    using sample_build by blast
  from active_files_are_complete [OF sample_normalize sample_opened(1-3) b sample_opened(4), of sample_sj0]
  obtain batches where "list_active_files sample_store sample_sj0 sample_server None ''s3://b/t'' ?w =
      (Ok (Ok (Header \<lparr>lh_version = snapshot_version sample_store sample_full_log,
         lh_metadata = Some metadata, lh_protocol = Some protocol\<rparr>)
         # map (\<lambda>b. Ok (Batch b)) batches), ?w)"
    and "concat batches = map (active_file sample_store sample_sj0) ?views"
    by blast
  then show ?thesis
    by (intro exI [of _ batches] exI conjI)
      (auto simp: active_file_def map_active_file_to_pb_def sample_kernel_add_def sample_store_def
        sample_full_log_def)
qed

theorem failed_listing_is_a_marked_prefix_witness:
  "\<exists>header. list_active_files broken_store sample_sj0 sample_server None ''s3://b/t'' sample_full_world =
     (Ok [Ok (Header header), Err (mk_status Internal ''internal error streaming active files'')],
      sample_full_world)"
proof -
  let ?w = sample_full_world
  let ?views = sample_views
  obtain metadata protocol
    where b: "build_metadata_and_protocol broken_store sample_full_log = Ok (metadata, protocol)"
    using sample_build by blast
  have hyps: "normalize_and_check_table_uri broken_store sample_server ''s3://b/t'' ?w = (Ok ''s3://b/t'', ?w)"
    "table_exists broken_store ''s3://b/t'' (srv_storage_opts sample_server) ?w = (Ok True, ?w)"
    "open_table broken_store ''s3://b/t'' (srv_storage_opts sample_server) ?w
       = (Ok (''s3://b/t'', Some sample_full_log), ?w)"
    "table_snapshot broken_store (''s3://b/t'', Some sample_full_log) = Ok sample_full_log"
    "file_views broken_store sample_full_log
       (log_store broken_store (''s3://b/t'', Some sample_full_log)) ?w
       = (map Ok ?views @ Err ''lost'' # [], ?w)"
    using sample_normalize [of ?w]
    by (simp_all add: normalize_Ok broken_store_def sample_store_eval ok_or_def)
      (simp_all add: sample_full_log_def)
  from failed_listing_is_a_marked_prefix [OF hyps(1-4) b hyps(5), of sample_sj0]
  obtain batches where l: "list_active_files broken_store sample_sj0 sample_server None ''s3://b/t'' ?w =
      (Ok (Ok (Header \<lparr>lh_version = snapshot_version broken_store sample_full_log,
         lh_metadata = Some metadata, lh_protocol = Some protocol\<rparr>)
         # map (\<lambda>b. Ok (Batch b)) batches
         @ [Err (mk_status Internal ''internal error streaming active files'')]), ?w)"
    and p: "prefix (concat batches) (map (active_file broken_store sample_sj0) ?views)"
    and full: "\<forall>b\<in>set batches. length b = 1000"
    by blast
  have "batches = []"
  proof (cases batches)
    case (Cons b bs)
    then have "1000 \<le> length (concat batches)" using full by simp
    with prefix_length_le [OF p] show ?thesis by simp
  qed
  with l show ?thesis by simp
qed


end
