(* ===== verification/File_Stream.thy ===== *)
theory File_Stream
  imports Active_Files
begin

section \<open>The channel of a listing (grpc/server.rs)\<close>

text \<open>
  \<open>list_active_files\<close> with its task, its channel and its client as three parties that run at their
  own pace. The task prepares messages and sends them; \<open>send\<close> waits while the channel of
  \<open>STREAM_CHANNEL_CAPACITY\<close> messages is full and fails once the receiver is gone. The client takes
  messages and may drop the stream at any moment, which loses what is still in the channel.

  \<open>Active_Files\<close> has the same task as a function of what the sends answer; here the answers come
  from the channel. The lemmas show that every interleaving ends, that the task is never further
  ahead of the client than the channel allows, and that the client gets what \<open>Active_Files\<close> says.
\<close>

text \<open>Where the task is: the message it sends next, or the files it still has to look at.\<close>

datatype 'v sender =
    SendHeader list_header "('v file_view, string) result list"
  | NextFile "('v file_view, string) result list" "add_file list"
  | SendBatch "add_file list" "('v file_view, string) result list"
  | SendLast "add_file list"
  | SendError status
  | Ended

record 'v stream_sys =
  task_at :: "'v sender"
  channel :: "stream_item list"
  rx_open :: bool
  accepted :: "stream_item list"
  received :: "stream_item list"

text \<open>\<open>tx.send(msg).await\<close>: where the task goes on when the message was accepted, and when not.\<close>

definition channel_send ::
  "stream_item \<Rightarrow> 'v sender \<Rightarrow> 'v sender \<Rightarrow> 'v stream_sys \<Rightarrow> 'v stream_sys option" where
  "channel_send msg sent_at failed_at s =
     (if \<not> rx_open s then Some (s\<lparr>task_at := failed_at\<rparr>)
      else if length (channel s) < stream_channel_capacity
      then Some (s\<lparr>task_at := sent_at, channel := channel s @ [msg], accepted := accepted s @ [msg]\<rparr>)
      else None)"

definition stream_task_step ::
  "('w, 'n, 'p, 'm, 'b, 't, 'l, 's, 'c, 'v) store \<Rightarrow> ('n, 'z) serde_scheme \<Rightarrow> 'v stream_sys
     \<Rightarrow> 'v stream_sys option" where
  "stream_task_step d sj s =
     (case task_at s of
        SendHeader h items \<Rightarrow> channel_send (Ok (Header h)) (NextFile items []) Ended s
      | NextFile [] batch \<Rightarrow> Some (s\<lparr>task_at := if batch \<noteq> [] then SendLast batch else Ended\<rparr>)
      | NextFile (Err e # items) batch \<Rightarrow>
          Some (s\<lparr>task_at := SendError (mk_status Internal ''internal error streaming active files'')\<rparr>)
      | NextFile (Ok fv # items) batch \<Rightarrow>
          (let batch = batch @ [active_file d sj fv]
           in Some (s\<lparr>task_at := if file_batch_size \<le> length batch then SendBatch batch items
                               else NextFile items batch\<rparr>))
      | SendBatch batch items \<Rightarrow> channel_send (Ok (Batch batch)) (NextFile items []) Ended s
      | SendLast batch \<Rightarrow> channel_send (Ok (Batch batch)) Ended Ended s
      | SendError status \<Rightarrow> channel_send (Err status) Ended Ended s
      | Ended \<Rightarrow> None)"

datatype stream_action = TaskStep | Receive | Leave

fun stream_exec ::
  "('w, 'n, 'p, 'm, 'b, 't, 'l, 's, 'c, 'v) store \<Rightarrow> ('n, 'z) serde_scheme \<Rightarrow> 'v stream_sys
     \<Rightarrow> stream_action \<Rightarrow> 'v stream_sys option" where
  "stream_exec d sj s TaskStep = stream_task_step d sj s"
| "stream_exec d sj s Receive =
     (if rx_open s then
        (case channel s of
           [] \<Rightarrow> None
         | msg # rest \<Rightarrow> Some (s\<lparr>channel := rest, received := received s @ [msg]\<rparr>))
      else None)"
| "stream_exec d sj s Leave =
     (if rx_open s then Some (s\<lparr>rx_open := False, channel := []\<rparr>) else None)"

text \<open>
  What \<open>stream_active_files_inner\<close> does before its first send: where the task starts, with the
  files the storage yields for the opened snapshot.
\<close>

definition stream_task_start ::
  "('w, 'n, 'p, 'm, 'b, 't, 'l, 's, 'c, 'v) store \<Rightarrow> url \<Rightarrow> string hash_map \<Rightarrow> 'w \<Rightarrow> 'v sender" where
  "stream_task_start d table_uri opts w =
     (case table_exists d table_uri opts w of
        (Err e, w1) \<Rightarrow> SendError (status_of_error e)
      | (Ok False, w1) \<Rightarrow> SendError (not_found table_uri)
      | (Ok True, w1) \<Rightarrow>
          (case open_table d table_uri opts w1 of
             (Err e, w2) \<Rightarrow> SendError (status_of_error e)
           | (Ok table, w2) \<Rightarrow>
               (case table_snapshot d table of
                  Err e \<Rightarrow> SendError (map_open_or_snapshot_error e)
                | Ok snapshot \<Rightarrow>
                    (case build_metadata_and_protocol d snapshot of
                       Err e \<Rightarrow> SendError e
                     | Ok (metadata, protocol) \<Rightarrow>
                         SendHeader \<lparr>lh_version = snapshot_version d snapshot,
                            lh_metadata = Some metadata, lh_protocol = Some protocol\<rparr>
                           (fst (file_views d snapshot (log_store d table) w2))))))"

definition stream_init ::
  "('w, 'n, 'p, 'm, 'b, 't, 'l, 's, 'c, 'v) store \<Rightarrow> url \<Rightarrow> string hash_map \<Rightarrow> 'w
     \<Rightarrow> 'v stream_sys" where
  "stream_init d table_uri opts w =
     \<lparr>task_at = stream_task_start d table_uri opts w, channel = [], rx_open = True,
      accepted = [], received = []\<rparr>"

section \<open>Lemmas\<close>

subsection \<open>What the task still does\<close>

text \<open>All messages of the task for a client that stays, from where it is and what was accepted.\<close>

fun outcome ::
  "('w, 'n, 'p, 'm, 'b, 't, 'l, 's, 'c, 'v) store \<Rightarrow> ('n, 'z) serde_scheme \<Rightarrow> 'v sender
     \<Rightarrow> stream_item list \<Rightarrow> stream_item list" where
  "outcome d sj (SendHeader h items) acc =
     finish None (stream_files d sj None items [] (acc @ [Ok (Header h)]))"
| "outcome d sj (NextFile items batch) acc = finish None (stream_files d sj None items batch acc)"
| "outcome d sj (SendBatch batch items) acc =
     finish None (stream_files d sj None items [] (acc @ [Ok (Batch batch)]))"
| "outcome d sj (SendLast batch) acc = acc @ [Ok (Batch batch)]"
| "outcome d sj (SendError s) acc = acc @ [Err s]"
| "outcome d sj Ended acc = acc"

lemma outcome_start:
  "outcome d sj (stream_task_start d url opts w) [] = fst (stream_active_files d sj None url opts w)"
  by (auto simp: stream_active_files_finish stream_active_files_inner_def stream_task_start_def
      finish_simps send_stays split: prod.splits result.splits bool.splits)

lemma outcome_extends: "prefix acc (outcome d sj at acc)"
  by (cases at) (auto intro: stream_files_extends prefix_order.trans [OF _ stream_files_extends])

text \<open>
  The steps of the task, by what they do: go on without a message, notice that the client is gone,
  or send a message into a channel that is not full.
\<close>

lemma stream_task_step_cases [consumes 1, case_names quiet gone sends]:
  assumes "stream_task_step d sj s = Some s'"
  obtains
    (quiet) at where "s' = s\<lparr>task_at := at\<rparr>"
      "outcome d sj at (accepted s) = outcome d sj (task_at s) (accepted s)"
  | (gone) "\<not> rx_open s" "s' = s\<lparr>task_at := Ended\<rparr>"
  | (sends) msg at where "rx_open s" "length (channel s) < stream_channel_capacity"
      "s' = s\<lparr>task_at := at, channel := channel s @ [msg], accepted := accepted s @ [msg]\<rparr>"
      "outcome d sj at (accepted s @ [msg]) = outcome d sj (task_at s) (accepted s)"
proof (cases "task_at s")
  case (NextFile items batch)
  show thesis
  proof (cases items)
    case Nil
    with NextFile assms show thesis
      by (intro quiet) (auto simp: stream_task_step_def send_stays finish_simps)
  next
    case (Cons item rest)
    with NextFile assms show thesis
      by (cases item)
        (auto simp: stream_task_step_def send_stays finish_simps Let_def intro!: quiet)
  qed
qed (use assms gone sends in \<open>auto simp: stream_task_step_def channel_send_def finish_simps
    split: if_splits\<close>)

subsection \<open>The invariant\<close>

text \<open>The files a message or the task holds.\<close>

fun item_files :: "stream_item \<Rightarrow> nat" where
  "item_files (Ok (Batch batch)) = length batch"
| "item_files item = 0"

fun task_files :: "'v sender \<Rightarrow> nat" where
  "task_files (NextFile items batch) = length batch"
| "task_files (SendBatch batch items) = length batch"
| "task_files (SendLast batch) = length batch"
| "task_files at = 0"

fun batch_room :: "'v sender \<Rightarrow> bool" where
  "batch_room (NextFile items batch) = (length batch < file_batch_size)"
| "batch_room (SendBatch batch items) = (length batch \<le> file_batch_size)"
| "batch_room (SendLast batch) = (length batch \<le> file_batch_size)"
| "batch_room at = True"

definition stream_inv ::
  "('w, 'n, 'p, 'm, 'b, 't, 'l, 's, 'c, 'v) store \<Rightarrow> ('n, 'z) serde_scheme
     \<Rightarrow> stream_item list \<Rightarrow> 'v stream_sys \<Rightarrow> bool" where
  "stream_inv d sj all s \<longleftrightarrow>
     length (channel s) \<le> stream_channel_capacity \<and>
     prefix (accepted s) all \<and> prefix (received s @ channel s) (accepted s) \<and>
     (rx_open s \<longrightarrow> outcome d sj (task_at s) (accepted s) = all \<and>
        accepted s = received s @ channel s)"

lemma stream_inv_exec:
  assumes "stream_inv d sj all s" "stream_exec d sj s act = Some s'"
  shows "stream_inv d sj all s'"
proof (cases act)
  case TaskStep
  then have "stream_task_step d sj s = Some s'" using assms(2) by simp
  then show ?thesis
  proof (cases rule: stream_task_step_cases)
    case (sends msg at)
    have "outcome d sj (task_at s) (accepted s) = all"
      using assms(1) sends(1) unfolding stream_inv_def by blast
    then have all: "outcome d sj at (accepted s @ [msg]) = all"
      by (simp only: sends(4))
    have "prefix (accepted s @ [msg]) all"
      unfolding all [symmetric] by (rule outcome_extends)
    with sends(1-3) all assms(1) show ?thesis by (simp add: stream_inv_def)
  qed (use assms(1) in \<open>auto simp: stream_inv_def\<close>)
next
  case Receive
  with assms show ?thesis
    by (auto simp: stream_inv_def split: if_splits list.splits)
next
  case Leave
  with assms show ?thesis
    by (auto simp: stream_inv_def split: if_splits dest: append_prefixD)
qed

definition batches_bounded :: "'v stream_sys \<Rightarrow> bool" where
  "batches_bounded s \<longleftrightarrow>
     batch_room (task_at s) \<and> (\<forall>item\<in>set (channel s). item_files item \<le> file_batch_size)"

lemma batches_bounded_exec:
  "batches_bounded s \<Longrightarrow> stream_exec d sj s act = Some s' \<Longrightarrow> batches_bounded s'"
  by (cases act)
    (auto simp: batches_bounded_def stream_task_step_def channel_send_def Let_def
      file_batch_size_def split: sender.splits if_splits list.splits result.splits)

subsection \<open>The rank\<close>

text \<open>A file costs the task at most two steps and the client one; a message costs one of each.\<close>

fun task_rank :: "'v sender \<Rightarrow> nat" where
  "task_rank (SendHeader h items) = 3 * length items + 5"
| "task_rank (NextFile items batch) = 3 * length items + 3"
| "task_rank (SendBatch batch items) = 3 * length items + 5"
| "task_rank (SendLast batch) = 2"
| "task_rank (SendError s) = 2"
| "task_rank Ended = 0"

definition stream_rank :: "'v stream_sys \<Rightarrow> nat" where
  "stream_rank s = task_rank (task_at s) + length (channel s) + (if rx_open s then 1 else 0)"

lemma stream_rank_exec:
  assumes "stream_exec d sj s act = Some s'"
  shows "stream_rank s' < stream_rank s"
proof (cases act)
  case TaskStep
  with assms show ?thesis
    by (auto simp: stream_rank_def stream_task_step_def channel_send_def Let_def
        split: sender.splits if_splits list.splits result.splits)
qed (use assms in \<open>auto simp: stream_rank_def split: if_splits list.splits\<close>)

interpretation st: ranked_system "stream_exec d sj"
  "\<lambda>s. stream_inv d sj all s \<and> batches_bounded s" "\<lambda>_. 1" stream_rank
  by unfold_locales
    (auto intro: stream_inv_exec batches_bounded_exec simp: Suc_le_eq dest: stream_rank_exec)

text \<open>The same system with a client that never leaves.\<close>

definition staying_exec ::
  "('w, 'n, 'p, 'm, 'b, 't, 'l, 's, 'c, 'v) store \<Rightarrow> ('n, 'z) serde_scheme \<Rightarrow> 'v stream_sys
     \<Rightarrow> stream_action \<Rightarrow> 'v stream_sys option" where
  "staying_exec d sj s act = (if act = Leave then None else stream_exec d sj s act)"

lemma staying_exec_open: "staying_exec d sj s act = Some s' \<Longrightarrow> rx_open s' = rx_open s"
  by (cases act)
    (auto simp: staying_exec_def stream_task_step_def channel_send_def Let_def
      split: sender.splits if_splits list.splits result.splits)

interpretation stay: ranked_system "staying_exec d sj"
  "\<lambda>s. stream_inv d sj all s \<and> rx_open s" "\<lambda>_. 1" stream_rank
  by unfold_locales
    (auto simp: staying_exec_open Suc_le_eq, auto simp: staying_exec_def split: if_splits
      dest: stream_rank_exec intro: stream_inv_exec)

lemma runs_staying:
  "runs (staying_exec d sj) acts s = Some s' \<Longrightarrow>
     runs (stream_exec d sj) acts s = Some s' \<and> Leave \<notin> set acts"
  by (induction acts arbitrary: s) (auto simp: staying_exec_def split: option.splits if_splits)

text \<open>When neither the task nor the client can go on, the task has ended.\<close>

lemma stream_stuck:
  assumes "stream_exec d sj s TaskStep = None" "stream_exec d sj s Receive = None"
  shows "task_at s = Ended" and "rx_open s \<Longrightarrow> channel s = []"
proof -
  show empty: "rx_open s \<Longrightarrow> channel s = []"
    using assms(2) by (auto split: list.splits)
  have "\<not> rx_open s \<or> length (channel s) < stream_channel_capacity"
    using empty by (auto simp: stream_channel_capacity_def)
  then show "task_at s = Ended"
    using assms(1)
    by (auto simp: stream_task_step_def channel_send_def Let_def
        split: sender.splits list.splits result.splits if_splits)
qed

lemma stream_stuck_listing:
  assumes "stream_inv d sj all s"
    and "stream_exec d sj s TaskStep = None" "stream_exec d sj s Receive = None"
  shows "task_at s = Ended \<and> (rx_open s \<longrightarrow> received s = all)"
  using assms(1) stream_stuck [OF assms(2,3)] by (auto simp: stream_inv_def)

lemma stream_init_inv:
  "stream_inv d sj (fst (stream_active_files d sj None url opts w)) (stream_init d url opts w)"
  "batches_bounded (stream_init d url opts w)"
  by (simp add: stream_inv_def stream_init_def outcome_start)
    (auto simp: batches_bounded_def stream_init_def stream_task_start_def
      split: prod.splits result.splits bool.splits)

definition files_in_memory :: "'v stream_sys \<Rightarrow> nat" where
  "files_in_memory s = task_files (task_at s) + (\<Sum>item\<leftarrow>channel s. item_files item)"

lemma files_in_memory_bound:
  assumes "batches_bounded s"
  shows "files_in_memory s \<le> Suc (length (channel s)) * file_batch_size"
proof -
  have "task_files (task_at s) \<le> file_batch_size"
    using assms by (cases "task_at s") (auto simp: batches_bounded_def)
  moreover have "(\<Sum>item\<leftarrow>items. item_files item) \<le> length items * file_batch_size"
    if "\<forall>item\<in>set items. item_files item \<le> file_batch_size" for items
    using that by (induction items) auto
  ultimately show ?thesis
    using assms by (fastforce simp: files_in_memory_def batches_bounded_def intro: add_mono)
qed

lemma stream_runs:
  assumes "runs (stream_exec d sj) acts (stream_init d url opts w) = Some s"
  shows "stream_inv d sj (fst (stream_active_files d sj None url opts w)) s"
    and "batches_bounded s"
    and "length acts + stream_rank s \<le> stream_rank (stream_init d url opts w)"
  using st.runs_invariant [OF conjI [OF stream_init_inv] assms]
    st.runs_bounded [OF conjI [OF stream_init_inv] assms]
  by (auto simp: sum_list_triv)

text \<open>The number of files the task has to look at.\<close>

fun files_ahead :: "'v sender \<Rightarrow> nat" where
  "files_ahead (SendHeader h items) = length items"
| "files_ahead at = 0"

lemma stream_rank_init:
  "stream_rank (stream_init d url opts w) \<le> 3 * files_ahead (stream_task_start d url opts w) + 6"
  by (auto simp: stream_rank_def stream_init_def stream_task_start_def
      split: prod.splits result.splits bool.splits)

section \<open>Properties\<close>


text \<open>
  Property C24 (stream_delivers_the_listing). The channel gives the client what the task would send to
  a client that reads at once: what it has taken is always a prefix of what was accepted, and that a
  prefix of the whole listing; once the task has ended, a client that is still there has taken or
  will find in the channel the whole listing, and for one that left the accepted messages are those
  of the sequential handler for a client that is gone after as many messages.
\<close>

theorem stream_delivers_the_listing:
  assumes "runs (stream_exec d sj) acts (stream_init d url opts w) = Some s"
  shows "prefix (received s) (accepted s)
    \<and> accepted s = fst (stream_active_files d sj (Some (length (accepted s))) url opts w)
    \<and> (rx_open s \<and> task_at s = Ended \<longrightarrow>
         received s @ channel s = fst (stream_active_files d sj None url opts w))"
proof -
  note inv = stream_runs(1) [OF assms, unfolded stream_inv_def]
  have "take (length (accepted s)) (fst (stream_active_files d sj None url opts w)) = accepted s"
    using inv by (auto simp: prefix_def)
  moreover have "prefix (received s) (accepted s)"
    using inv by (blast dest: append_prefixD)
  moreover have "received s @ channel s = fst (stream_active_files d sj None url opts w)"
    if "rx_open s" "task_at s = Ended"
    using inv that by (auto simp del: append_assoc)
  ultimately show ?thesis
    by (simp add: stream_active_files_leaves)
qed

text \<open>
  Property C25 (stream_always_ends). Every interleaving of a listing ends, after at most three steps
  for each file and six more. When neither the task nor the client can do anything, the task has
  ended and a client that is still there has the whole listing; and from every state in which the
  client is still there, task and client can go on, without the client leaving, until that is so.
\<close>

theorem stream_always_ends:
  assumes "runs (stream_exec d sj) acts (stream_init d url opts w) = Some s"
  shows "length acts \<le> 3 * files_ahead (stream_task_start d url opts w) + 6
    \<and> (stream_exec d sj s TaskStep = None \<and> stream_exec d sj s Receive = None \<longrightarrow>
         task_at s = Ended
         \<and> (rx_open s \<longrightarrow> received s = fst (stream_active_files d sj None url opts w)))
    \<and> (rx_open s \<longrightarrow>
         (\<exists>more s'. Leave \<notin> set more \<and> runs (stream_exec d sj) more s = Some s'
            \<and> task_at s' = Ended \<and> received s' = fst (stream_active_files d sj None url opts w)))"
proof -
  let ?all = "fst (stream_active_files d sj None url opts w)"
  have inv: "stream_inv d sj ?all s" by (rule stream_runs(1) [OF assms])
  have "length acts \<le> 3 * files_ahead (stream_task_start d url opts w) + 6"
    using stream_runs(3) [OF assms] stream_rank_init [of d url opts w] by simp
  moreover have "\<exists>more s'. Leave \<notin> set more \<and> runs (stream_exec d sj) more s = Some s'
      \<and> task_at s' = Ended \<and> received s' = ?all" if here: "rx_open s"
  proof -
    obtain more s' where more: "runs (staying_exec d sj) more s = Some s'"
      and stop: "\<forall>a. staying_exec d sj s' a = None"
      using stay.runs_end [OF conjI [OF inv here]] by auto
    have "stream_exec d sj s' TaskStep = None" "stream_exec d sj s' Receive = None"
      using stop by (metis staying_exec_def stream_action.distinct)+
    moreover have "stream_inv d sj ?all s'" "rx_open s'"
      using stay.runs_invariant [OF conjI [OF inv here] more] by auto
    ultimately have "task_at s' = Ended \<and> received s' = ?all"
      using stream_stuck_listing by blast
    with runs_staying [OF more] show ?thesis by blast
  qed
  ultimately show ?thesis
    using stream_stuck_listing [OF inv] by blast
qed

section \<open>Witnesses\<close>

text \<open>A listing of two files in the sample store: the client reads the header at once, the rest later.\<close>

lemma sample_task_start:
  "\<exists>h fv1 fv2. stream_task_start sample_store ''s3://b/t'' [] sample_full_world
     = SendHeader h [Ok fv1, Ok fv2]"
proof -
  obtain metadata protocol
    where "build_metadata_and_protocol sample_store sample_full_log = Ok (metadata, protocol)"
    using sample_build by blast
  then show ?thesis
    by (simp add: stream_task_start_def sample_store_eval ok_or_def) (simp add: sample_full_log_def)
qed

definition sample_stream_run :: "stream_action list" where
  "sample_stream_run = [TaskStep, Receive, TaskStep, TaskStep, TaskStep, TaskStep, Receive]"

lemma sample_stream_runs:
  "\<exists>s h batch. runs (stream_exec sample_store sample_sj0) sample_stream_run
       (stream_init sample_store ''s3://b/t'' [] sample_full_world) = Some s
     \<and> received s = [Ok (Header h), Ok (Batch batch)] \<and> length batch = 2 \<and> rx_open s
     \<and> task_at s = Ended \<and> channel s = []"
proof -
  obtain h fv1 fv2 where "stream_task_start sample_store ''s3://b/t'' [] sample_full_world
      = SendHeader h [Ok fv1, Ok fv2]"
    using sample_task_start by blast
  then show ?thesis
    by (simp add: stream_init_def sample_stream_run_def stream_task_step_def channel_send_def
        stream_channel_capacity_def file_batch_size_def)
qed


theorem stream_delivers_the_listing_witness:
  "\<exists>s. runs (stream_exec sample_store sample_sj0) sample_stream_run
         (stream_init sample_store ''s3://b/t'' [] sample_full_world) = Some s
     \<and> length (received s) = 2
     \<and> received s = fst (stream_active_files sample_store sample_sj0 None ''s3://b/t'' []
                          sample_full_world)"
proof -
  obtain s h batch where s: "runs (stream_exec sample_store sample_sj0) sample_stream_run
       (stream_init sample_store ''s3://b/t'' [] sample_full_world) = Some s"
    "received s = [Ok (Header h), Ok (Batch batch)]" "rx_open s" "task_at s = Ended" "channel s = []"
    using sample_stream_runs by blast
  have "length (received s) = 2" by (simp add: s(2))
  moreover have "received s = fst (stream_active_files sample_store sample_sj0 None ''s3://b/t'' []
      sample_full_world)"
    using stream_delivers_the_listing [OF s(1)] s(3-5) by simp
  ultimately show ?thesis using s(1) by blast
qed

theorem stream_always_ends_witness:
  "files_ahead (stream_task_start sample_store ''s3://b/t'' [] sample_full_world) = 2
   \<and> length sample_stream_run \<le> 12
   \<and> (\<exists>s. runs (stream_exec sample_store sample_sj0) sample_stream_run
           (stream_init sample_store ''s3://b/t'' [] sample_full_world) = Some s
         \<and> task_at s = Ended \<and> length (received s) = 2)"
proof -
  obtain s h batch where s: "runs (stream_exec sample_store sample_sj0) sample_stream_run
       (stream_init sample_store ''s3://b/t'' [] sample_full_world) = Some s"
    "received s = [Ok (Header h), Ok (Batch batch)]" "rx_open s" "task_at s = Ended" "channel s = []"
    using sample_stream_runs by blast
  have "files_ahead (stream_task_start sample_store ''s3://b/t'' [] sample_full_world) = 2"
    using sample_task_start by auto
  with stream_always_ends [OF s(1)] s show ?thesis by auto
qed

end
