(* ===== verification/Well_Formed.thy ===== *)
theory Well_Formed
  imports Active_Files
begin

section \<open>Well-formed values\<close>

text \<open>
  The maps of the model are association lists, which can hold what no Rust map can: a key twice, or
  the keys of an ordered map out of order. This theory says what a well-formed value of each type
  is and shows that everything the service builds is one: the actions it gives to delta-rs, the JSON
  documents it serializes, and what it sends to a client. An error it reports never carries the
  status OK, and the enum field of a file is always a number of the enum.
\<close>

fun json_wf :: "'n json \<Rightarrow> bool" where
  "json_wf (JArray vs) = (\<forall>v\<in>set vs. json_wf v)"
| "json_wf (JObject m) = (bt_wf m \<and> (\<forall>(k, v)\<in>set m. json_wf v))"
| "json_wf v = True"

fun kernel_action_wf :: "('n, 'p, 'm) kernel_action \<Rightarrow> bool" where
  "kernel_action_wf (KAdd a) = (hm_wf (ka_partition_values a) \<and> pred_option hm_wf (ka_tags a))"
| "kernel_action_wf (KRemove r) =
     (pred_option hm_wf (kr_partition_values r) \<and> pred_option hm_wf (kr_tags r))"
| "kernel_action_wf (KCommitInfo ci) =
     pred_option (\<lambda>m. hm_wf m \<and> (\<forall>(k, v)\<in>set m. json_wf v)) (kc_operation_parameters ci)"
| "kernel_action_wf a = True"

definition file_stats_wf :: "file_stats \<Rightarrow> bool" where
  "file_stats_wf st \<longleftrightarrow> hm_wf (fs_columns st)"

definition add_file_wf :: "add_file \<Rightarrow> bool" where
  "add_file_wf a \<longleftrightarrow>
     hm_wf (af_partition_values a) \<and> hm_wf (af_tags a) \<and> pred_option file_stats_wf (af_stats a)
     \<and> data_change_try_from (af_data_change a) \<noteq> None"

definition table_metadata_wf :: "table_metadata \<Rightarrow> bool" where
  "table_metadata_wf m \<longleftrightarrow> hm_wf (tm_configuration m)"

definition status_wf :: "status \<Rightarrow> bool" where
  "status_wf s \<longleftrightarrow> status_code s \<noteq> CodeOk"

fun stream_item_wf :: "stream_item \<Rightarrow> bool" where
  "stream_item_wf (Ok (Header h)) =
     (lh_protocol h \<noteq> None \<and> (\<exists>m. lh_metadata h = Some m \<and> table_metadata_wf m))"
| "stream_item_wf (Ok (Batch files)) =
     (files \<noteq> [] \<and> length files \<le> file_batch_size \<and> (\<forall>f\<in>set files. add_file_wf f))"
| "stream_item_wf (Err s) = status_wf s"

section \<open>Lemmas\<close>

subsection \<open>Documents\<close>

lemma set_bt_insert: "set (bt_insert k v m) \<subseteq> insert (k, v) (set m)"
  by (induction m) auto

lemma json_wf_insert:
  "json_wf (JObject m) \<Longrightarrow> json_wf v \<Longrightarrow> json_wf (JObject (bt_insert k v m))"
  using set_bt_insert [of k v m] by (fastforce intro: bt_wf_bt_insert)

lemma json_wf_collect:
  "json_wf (JObject m) \<Longrightarrow> (\<forall>(k, v)\<in>set kvs. json_wf v) \<Longrightarrow>
     json_wf (JObject (fold (\<lambda>(k, v). bt_insert k v) kvs m))"
proof (induction kvs arbitrary: m)
  case (Cons p kvs)
  obtain k v where p: "p = (k, v)" by (cases p)
  have "json_wf (JObject (bt_insert k v m))"
    using Cons.prems p by (intro json_wf_insert) auto
  with Cons.IH [of "bt_insert k v m"] Cons.prems(2) p show ?case by simp
qed simp

lemma bt_wf_Nil [simp]: "bt_wf []"
  by (simp add: bt_wf_def)

lemma json_wf_object: "(\<forall>(k, v)\<in>set kvs. json_wf v) \<Longrightarrow> json_wf (json_object kvs)"
  unfolding json_object_def by (rule json_wf_collect) simp_all

lemma json_wf_opt: "(\<And>a. json_wf (f a)) \<Longrightarrow> json_wf (json_opt f x)"
  by (simp add: json_opt_def split: option.split)

lemma metadata_json_wf: "json_wf (metadata_json sj m)"
  unfolding metadata_json_def Let_def
  by (rule json_wf_object) (auto intro!: json_wf_object json_wf_opt)

lemma protocol_json_wf: "json_wf (protocol_json sj p)"
  unfolding protocol_json_def by (rule json_wf_object) simp

lemma column_value_wf:
  "map_column_min_value sj x = Some v \<Longrightarrow> json_wf v"
  "map_column_max_value sj y = Some v \<Longrightarrow> json_wf v"
  by (cases "(sj, x)" rule: map_column_min_value.cases; auto)
    (cases "(sj, y)" rule: map_column_max_value.cases; auto)

definition stats_maps_wf :: "'n json_map \<times> 'n json_map \<times> 'n json_map \<Rightarrow> bool" where
  "stats_maps_wf = (\<lambda>(a, b, c). json_wf (JObject a) \<and> json_wf (JObject b) \<and> json_wf (JObject c))"

lemma file_stats_column_wf: "stats_maps_wf ms \<Longrightarrow> stats_maps_wf (file_stats_column sj col ms)"
  by (auto simp: stats_maps_wf_def file_stats_column_def dest: column_value_wf
      intro!: json_wf_insert simp del: json_wf.simps(2) split: option.splits prod.splits)

lemma file_stats_json_wf: "json_wf (file_stats_json sj st)"
proof -
  have "stats_maps_wf (fold (file_stats_column sj) cols ms)" if "stats_maps_wf ms" for cols ms
    using that by (induction cols arbitrary: ms) (simp_all add: file_stats_column_wf)
  then have "stats_maps_wf (fold (file_stats_column sj) (fs_columns st) ([], [], []))"
    by (simp add: stats_maps_wf_def del: split_paired_All)
  then show ?thesis
    by (auto simp: file_stats_json_def stats_maps_wf_def simp del: json_wf.simps(2)
        intro!: json_wf_object split: prod.splits)
qed

subsection \<open>Actions\<close>

lemma map_optional_string_map_wf: "pred_option hm_wf (map_optional_string_map m)"
  by (simp add: map_optional_string_map_def map_string_map_def)

lemma set_hm_collect: "set (hm_collect kvs) \<subseteq> set kvs"
proof -
  have "set (fold (\<lambda>(k, v). AList.update k v) kvs m) \<subseteq> set m \<union> set kvs" for m
  proof (induction kvs arbitrary: m)
    case (Cons p kvs)
    obtain k v where p: "p = (k, v)" by (cases p)
    have "set (AList.update k v m) \<subseteq> insert (k, v) (set m)"
      by (induction m) auto
    with Cons.IH [of "AList.update k v m"] p show ?case by auto
  qed simp
  from this [of "[]"] show ?thesis by (simp add: hm_collect_def)
qed

lemma map_json_map_wf:
  "pred_option (\<lambda>m. hm_wf m \<and> (\<forall>(k, v)\<in>set m. json_wf v)) (map_json_map input)"
  using set_hm_collect [of "map (\<lambda>(k, v). (k, JString v)) input"]
  by (auto simp: map_json_map_def)

fun_cases map_actionE: "map_action sj a = Ok k"

lemma map_action_wf: "map_action sj a = Ok k \<Longrightarrow> kernel_action_wf k"
  by (erule map_actionE; drule sym)
    (auto simp: and_then_Ok_iff map_string_map_def map_optional_string_map_wf map_commit_info_def
      Let_def map_json_map_wf)

subsection \<open>Messages\<close>

lemma map_stats_wf: "pred_option file_stats_wf (map_stats_json_to_pb sj text)"
  by (auto simp: map_stats_json_to_pb_def file_stats_wf_def Let_def split: option.splits)

lemma active_file_wf: "add_file_wf (active_file d sj fv)"
  by (simp add: add_file_wf_def active_file_def map_active_file_to_pb_def map_stats_wf
      data_change_try_from_def data_change_as_i32_def hm.well_formed_empty)

lemma status_of_error_wf: "status_wf (status_of_error e)"
  by (cases e) (simp_all add: status_wf_def)

lemma map_open_or_snapshot_error_wf: "status_wf (map_open_or_snapshot_error e)"
  by (cases e) (simp_all add: status_wf_def)

lemma build_metadata_wf:
  assumes "\<And>m. hm_wf (metadata_configuration d m)"
  shows "build_metadata_and_protocol d snapshot = Ok (metadata, protocol) \<Longrightarrow> table_metadata_wf metadata"
    and "build_metadata_and_protocol d snapshot = Err e \<Longrightarrow> status_wf e"
  using assms
  by (auto simp: build_metadata_and_protocol_def Let_def table_metadata_wf_def status_wf_def
      rust_simps)

lemma stream_files_wf:
  assumes "\<forall>item\<in>set sent. stream_item_wf item" "length batch < file_batch_size"
    "\<forall>f\<in>set batch. add_file_wf f"
  shows "\<forall>item\<in>set (finish gone (stream_files d sj gone items batch sent)). stream_item_wf item"
  using assms
proof (induction d sj gone items batch sent rule: stream_files.induct)
  case (1 d sj gone batch sent)
  then show ?case by (auto simp: finish_simps send_def)
next
  case (2 d sj gone e items batch sent)
  then show ?case by (auto simp: finish_simps send_def status_wf_def)
next
  case (3 d sj gone fv items batch sent)
  let ?batch = "batch @ [active_file d sj fv]"
  show ?case
  proof (cases "file_batch_size \<le> length ?batch")
    case full: True
    show ?thesis
    proof (cases "send gone (Ok (Batch ?batch)) sent")
      case (Pair accepted sent')
      then have "\<forall>item\<in>set sent'. stream_item_wf item"
        using "3.prems" by (auto simp: send_def active_file_wf split: if_splits)
      with full Pair "3.IH"(1) show ?thesis
        by (cases accepted) (auto simp: finish_simps file_batch_size_pos)
    qed
  next
    case False
    with "3.IH"(2) "3.prems" show ?thesis by (simp add: active_file_wf)
  qed
qed


lemma stream_active_files_wf:
  assumes "\<And>m. hm_wf (metadata_configuration d m)"
  shows "\<forall>item\<in>set (fst (stream_active_files d sj gone url opts w)). stream_item_wf item"
proof -
  note errors = status_of_error_wf map_open_or_snapshot_error_wf build_metadata_wf [OF assms]
  have nf: "status_wf (not_found u)" for u by (simp add: status_wf_def not_found_def)
  show ?thesis
    unfolding stream_active_files_finish stream_active_files_inner_def
    by (auto simp: finish_simps send_def errors nf file_batch_size_pos
        split: prod.splits result.splits bool.splits option.splits
        dest!: stream_files_wf [THEN bspec, rotated -1])
qed

section \<open>Property\<close>


text \<open>The sample store with tables that have no configuration; a request with a partition key twice.\<close>

definition bare_store where
  "bare_store = sample_store\<lparr>metadata_configuration := (\<lambda>_. [])\<rparr>"

definition sample_doubled_add :: action_msg where
  "sample_doubled_add = Some (ActionAdd
     \<lparr>af_path = ''a'', af_size = 1, af_modification_time = 2,
      af_partition_values = [(''p'', ''x''), (''p'', ''y'')], af_data_change = 1, af_stats = None,
      af_tags = []\<rparr>)"


end
