(* ===== verification/Commit_System.thy ===== *)
theory Commit_System
  imports Grpc_Server
begin

section \<open>Concurrent commits\<close>

text \<open>
  Any number of commit handlers of one process, interleaved at their awaits: each action of a task
  is one action of the lock protocol or one call to storage of the section it runs under the lock.
  Other processes may change the world at any moment; \<open>env\<close> is what they can do. A handler whose
  future is dropped at an await gives the lock back without an answer; when it is dropped while it
  waits for the write (\<open>Abandon\<close>), the write may have been done although nobody learns of it.

  The checks before the lock (allowlist, translation of the actions) do not depend on shared state,
  so a task starts with its job: the normalized URL, the expected version and the kernel actions.
\<close>

record ('n, 'p, 'm) job =
  job_url :: url
  job_expected :: "i64 option"
  job_actions :: "('n, 'p, 'm) kernel_action list"

text \<open>How far a task is in \<open>commit\<close>; the phases from \<open>CSection\<close> to \<open>COpened\<close> are under the lock.\<close>

datatype 't commit_phase =
    CWaiting
  | CSection
  | CCreate
  | COpen
  | COpened 't
  | CDone "(commit_response, status) result"
  | CCancelled

record ('w, 't) commit_sys =
  cy_locks :: lock_sys
  cy_world :: 'w
  cy_phase :: "task \<Rightarrow> 't commit_phase"

datatype commit_action = LockAction lock_action | CheckExists | Create | Open | Write | Abandon

definition commit_init :: "'w \<Rightarrow> ('w, 't) commit_sys" where
  "commit_init w = \<lparr>cy_locks = lock_sys_init, cy_world = w, cy_phase = (\<lambda>_. CWaiting)\<rparr>"

definition goto :: "task \<Rightarrow> 't commit_phase \<Rightarrow> 'w \<Rightarrow> ('w, 't) commit_sys \<Rightarrow> ('w, 't) commit_sys" where
  "goto t ph w s = s\<lparr>cy_world := w, cy_phase := (cy_phase s)(t := ph)\<rparr>"

text \<open>The phase after an action of the lock protocol, \<open>None\<close> where the handler does not take it.\<close>

fun lock_phase :: "url \<Rightarrow> 't commit_phase \<Rightarrow> lock_action \<Rightarrow> 't commit_phase option" where
  "lock_phase url ph (Enter k) = (if ph = CWaiting \<and> k = url then Some CWaiting else None)"
| "lock_phase url ph Acquire = (if ph = CWaiting then Some CSection else None)"
| "lock_phase url ph Release =
     (case ph of CDone r \<Rightarrow> Some (CDone r) | _ \<Rightarrow> Some CCancelled)"
| "lock_phase url ph DropLock = (if ph = CWaiting then Some CCancelled else Some ph)"
| "lock_phase url ph act = Some ph"

fun commit_exec ::
  "('w, 'n, 'p, 'm, 'b, 't, 'l, 's, 'c, 'v) store \<Rightarrow> ('n, 'z) serde_scheme \<Rightarrow> server
     \<Rightarrow> (string \<Rightarrow> nat) \<Rightarrow> (task \<Rightarrow> ('n, 'p, 'm) job) \<Rightarrow> ('w, 't) commit_sys \<Rightarrow> task
     \<Rightarrow> commit_action \<Rightarrow> ('w, 't) commit_sys option" where
  "commit_exec d sj srv sh job s t (LockAction act) =
     (case (lock_phase (job_url (job t)) (cy_phase s t) act, lock_exec sh (cy_locks s) t act) of
        (Some ph, Some l) \<Rightarrow> Some (goto t ph (cy_world s) (s\<lparr>cy_locks := l\<rparr>))
      | _ \<Rightarrow> None)"
| "commit_exec d sj srv sh job s t CheckExists =
     (case cy_phase s t of
        CSection \<Rightarrow>
          (case table_exists d (job_url (job t)) (srv_storage_opts srv) (cy_world s) of
             (Err e, w) \<Rightarrow> Some (goto t (CDone (Err (status_of_error e))) w s)
           | (Ok found, w) \<Rightarrow> Some (goto t (if found then COpen else CCreate) w s))
      | _ \<Rightarrow> None)"
| "commit_exec d sj srv sh job s t Create =
     (case cy_phase s t of
        CCreate \<Rightarrow>
          (case commit_create d srv (job_url (job t)) (job_expected (job t)) (job_actions (job t))
                  (cy_world s) of
             (r, w) \<Rightarrow> Some (goto t (CDone r) w s))
      | _ \<Rightarrow> None)"
| "commit_exec d sj srv sh job s t Open =
     (case cy_phase s t of
        COpen \<Rightarrow>
          (case open_table d (job_url (job t)) (srv_storage_opts srv) (cy_world s) of
             (Err e, w) \<Rightarrow> Some (goto t (CDone (Err (status_of_error e))) w s)
           | (Ok table, w) \<Rightarrow> Some (goto t (COpened table) w s))
      | _ \<Rightarrow> None)"
| "commit_exec d sj srv sh job s t Write =
     (case cy_phase s t of
        COpened table \<Rightarrow>
          (case check_expected_version d table (job_expected (job t)) of
             Err e \<Rightarrow> Some (goto t (CDone (Err e)) (cy_world s) s)
           | Ok _ \<Rightarrow>
               (case commit_actions d sj table (job_actions (job t)) (cy_world s) of
                  (Err e, w) \<Rightarrow> Some (goto t (CDone (Err (status_of_error e))) w s)
                | (Ok v, w) \<Rightarrow> Some (goto t (CDone (Ok \<lparr>committed_version = v\<rparr>)) w s)))
      | _ \<Rightarrow> None)"
| "commit_exec d sj srv sh job s t Abandon =
     (case cy_phase s t of
        CCreate \<Rightarrow>
          (case commit_create d srv (job_url (job t)) (job_expected (job t)) (job_actions (job t))
                  (cy_world s) of
             (_, w) \<Rightarrow> Some (goto t CCancelled w s))
      | COpened table \<Rightarrow>
          (case check_expected_version d table (job_expected (job t)) of
             Err e \<Rightarrow> None
           | Ok _ \<Rightarrow>
               (case commit_actions d sj table (job_actions (job t)) (cy_world s) of
                  (_, w) \<Rightarrow> Some (goto t CCancelled w s)))
      | _ \<Rightarrow> None)"

inductive commit_step ::
  "('w, 'n, 'p, 'm, 'b, 't, 'l, 's, 'c, 'v) store \<Rightarrow> ('n, 'z) serde_scheme \<Rightarrow> server
     \<Rightarrow> (string \<Rightarrow> nat) \<Rightarrow> (task \<Rightarrow> ('n, 'p, 'm) job) \<Rightarrow> nat \<Rightarrow> ('w \<Rightarrow> 'w \<Rightarrow> bool)
     \<Rightarrow> ('w, 't) commit_sys \<Rightarrow> ('w, 't) commit_sys \<Rightarrow> bool"
  for d sj srv sh job n env
where
  handler_step:
    "t < n \<Longrightarrow> commit_exec d sj srv sh job s t act = Some s' \<Longrightarrow>
       commit_step d sj srv sh job n env s s'"
| world_step:
    "env (cy_world s) w \<Longrightarrow> commit_step d sj srv sh job n env s (s\<lparr>cy_world := w\<rparr>)"

inductive_cases commit_stepE: "commit_step d sj srv sh job n env s s'"

definition commit_reachable ::
  "('w, 'n, 'p, 'm, 'b, 't, 'l, 's, 'c, 'v) store \<Rightarrow> ('n, 'z) serde_scheme \<Rightarrow> server
     \<Rightarrow> (string \<Rightarrow> nat) \<Rightarrow> (task \<Rightarrow> ('n, 'p, 'm) job) \<Rightarrow> nat \<Rightarrow> ('w \<Rightarrow> 'w \<Rightarrow> bool)
     \<Rightarrow> ('w, 't) commit_sys \<Rightarrow> bool" where
  "commit_reachable d sj srv sh job n env =
     reach (\<lambda>s. \<exists>w. s = commit_init w) (commit_step d sj srv sh job n env)"

subsection \<open>What the service relies on of the Delta log\<close>

text \<open>
  \<open>ver w u\<close> is the latest version of the log at \<open>u\<close> in the world \<open>w\<close>, and \<open>at l\<close> the location of a
  log store. Reading changes no version; an opened table has the version of the log; a commit
  appends the next version to the log of its own log store or leaves it as it is, and has appended
  it when it reports success.
\<close>

definition next_version :: "nat option \<Rightarrow> nat" where
  "next_version v = (case v of None \<Rightarrow> 0 | Some k \<Rightarrow> Suc k)"

definition log_contract ::
  "('w, 'n, 'p, 'm, 'b, 't, 'l, 's, 'c, 'v) store \<Rightarrow> ('w \<Rightarrow> url \<Rightarrow> nat option) \<Rightarrow> ('l \<Rightarrow> url)
     \<Rightarrow> bool" where
  "log_contract d ver at \<longleftrightarrow>
     (\<forall>u opts t. build_handle d u opts = Ok t \<longrightarrow> at (log_store d t) = u) \<and>
     (\<forall>l w r w'. is_delta_table_location d l w = (r, w') \<longrightarrow> ver w' = ver w) \<and>
     (\<forall>u opts w r w'. open_table_with_storage_options d u opts w = (r, w') \<longrightarrow>
        ver w' = ver w \<and>
        (\<forall>t. r = Ok t \<longrightarrow>
           at (log_store d t) = u \<and> table_version d t = map_option of_nat (ver w u))) \<and>
     (\<forall>actions base l op w r w'. commit_builder_build d actions base l op w = (r, w') \<longrightarrow>
        (\<forall>u. u \<noteq> at l \<longrightarrow> ver w' u = ver w u) \<and>
        ver w' (at l) \<in> {ver w (at l), Some (next_version (ver w (at l)))} \<and>
        (\<forall>v. r = Ok v \<longrightarrow> ver w' (at l) = Some (next_version (ver w (at l)))
           \<and> v = of_nat (next_version (ver w (at l)))))"

section \<open>Lemmas\<close>

fun in_section :: "'t commit_phase \<Rightarrow> bool" where
  "in_section CSection = True"
| "in_section CCreate = True"
| "in_section COpen = True"
| "in_section (COpened table) = True"
| "in_section ph = False"

lemma goto_simps [simp]:
  "cy_locks (goto t ph w s) = cy_locks s"
  "cy_world (goto t ph w s) = w"
  "cy_phase (goto t ph w s) = (cy_phase s)(t := ph)"
  by (simp_all add: goto_def)

subsection \<open>Calls to storage\<close>

lemma log_contractD:
  assumes "log_contract d ver at"
  shows "build_handle d u opts = Ok t \<Longrightarrow> at (log_store d t) = u"
    and "is_delta_table_location d l w = (rb, w') \<Longrightarrow> ver w' = ver w"
    and "open_table_with_storage_options d u opts w = (rt, w') \<Longrightarrow> ver w' = ver w"
    and "open_table_with_storage_options d u opts w = (Ok t, w') \<Longrightarrow> at (log_store d t) = u"
    and "open_table_with_storage_options d u opts w = (Ok t, w') \<Longrightarrow>
           table_version d t = map_option of_nat (ver w u)"
proof -
  note c = assms [unfolded log_contract_def]
  show "build_handle d u opts = Ok t \<Longrightarrow> at (log_store d t) = u"
    by (rule c [THEN conjunct1, rule_format])
  show "is_delta_table_location d l w = (rb, w') \<Longrightarrow> ver w' = ver w"
    by (rule c [THEN conjunct2, THEN conjunct1, rule_format])
  note o = c [THEN conjunct2, THEN conjunct2, THEN conjunct1, rule_format]
  show "open_table_with_storage_options d u opts w = (rt, w') \<Longrightarrow> ver w' = ver w"
    using o [THEN conjunct1] .
  show "open_table_with_storage_options d u opts w = (Ok t, w') \<Longrightarrow> at (log_store d t) = u"
    using o [THEN conjunct2, rule_format, THEN conjunct1] by blast
  show "open_table_with_storage_options d u opts w = (Ok t, w') \<Longrightarrow>
      table_version d t = map_option of_nat (ver w u)"
    using o [THEN conjunct2, rule_format, THEN conjunct2] by blast
qed

lemma log_contract_commitD:
  assumes "log_contract d ver at" "commit_builder_build d actions base l op w = (r, w')"
  shows "v \<noteq> at l \<Longrightarrow> ver w' v = ver w v"
    and "ver w' (at l) \<in> {ver w (at l), Some (next_version (ver w (at l)))}"
    and "r = Ok n \<Longrightarrow> ver w' (at l) = Some (next_version (ver w (at l)))"
    and "r = Ok n \<Longrightarrow> n = of_nat (next_version (ver w (at l)))"
proof -
  have "(\<forall>u. u \<noteq> at l \<longrightarrow> ver w' u = ver w u) \<and>
      ver w' (at l) \<in> {ver w (at l), Some (next_version (ver w (at l)))} \<and>
      (\<forall>v. r = Ok v \<longrightarrow> ver w' (at l) = Some (next_version (ver w (at l)))
         \<and> v = of_nat (next_version (ver w (at l))))"
    using assms(1)[unfolded log_contract_def, THEN conjunct2, THEN conjunct2, THEN conjunct2,
        rule_format, OF assms(2)] .
  then show "v \<noteq> at l \<Longrightarrow> ver w' v = ver w v"
    and "ver w' (at l) \<in> {ver w (at l), Some (next_version (ver w (at l)))}"
    and "r = Ok n \<Longrightarrow> ver w' (at l) = Some (next_version (ver w (at l)))"
    and "r = Ok n \<Longrightarrow> n = of_nat (next_version (ver w (at l)))"
    by blast+
qed

lemma table_exists_reads:
  assumes "log_contract d ver at" "table_exists d u opts w = (r, w')"
  shows "ver w' = ver w"
proof (cases "build_handle d u opts")
  case (Ok t)
  obtain r1 w1 where "is_delta_table_location d (log_store d t) w = (r1, w1)"
    by fastforce
  with Ok assms(2) log_contractD(2) [OF assms(1)] show ?thesis
    by (auto simp: table_exists_def io_then_def io_return_def io_map_err_def)
qed (use assms(2) in \<open>auto simp: table_exists_def io_then_def io_return_def\<close>)

lemma open_table_reads:
  assumes "log_contract d ver at" "open_table d u opts w = (r, w')"
  shows "ver w' = ver w"
  using assms(2)
  by (cases "open_table_with_storage_options d u opts w")
    (auto simp: open_table_def io_map_err_def dest: log_contractD(3) [OF assms(1)])

lemma open_table_view:
  assumes "log_contract d ver at" "open_table d u opts w = (Ok t, w')"
  shows "at (log_store d t) = u" "table_version d t = map_option of_nat (ver w u)"
proof -
  have "open_table_with_storage_options d u opts w = (Ok t, w')"
    using assms(2) by (simp add: open_table_def rust_simps)
  then show "at (log_store d t) = u" "table_version d t = map_option of_nat (ver w u)"
    using log_contractD(4,5) [OF assms(1)] by blast+
qed

text \<open>What a write may do to the versions: at most append one to the log at its own location.\<close>

definition appends :: "('w \<Rightarrow> url \<Rightarrow> nat option) \<Rightarrow> url \<Rightarrow> 'w \<Rightarrow> 'w \<Rightarrow> bool" where
  "appends ver u w w' \<longleftrightarrow>
     (\<forall>v. v \<noteq> u \<longrightarrow> ver w' v = ver w v) \<and>
     ver w' u \<in> {ver w u, Some (next_version (ver w u))}"

lemma appends_refl: "ver w' = ver w \<Longrightarrow> appends ver u w w'"
  by (simp add: appends_def)

lemma build_appends:
  assumes "log_contract d ver at" "commit_builder_build d actions base l op w = (r, w')"
  shows "appends ver (at l) w w'"
  using log_contract_commitD(1,2) [OF assms] by (auto simp: appends_def)

lemma commit_create_appends:
  assumes c: "log_contract d ver at" and "commit_create d srv u ex actions w = (r, w')"
  shows "appends ver u w w'"
proof -
  have "create_table d u (srv_storage_opts srv) actions p m w = (r', w1) \<Longrightarrow> appends ver u w w1"
    for p m r' w1
  proof (cases "build_handle d u (srv_storage_opts srv)")
    case (Ok table)
    obtain r2 w2 where b: "commit_builder_build d actions None (log_store d table)
        (OpCreate ErrorIfExists u p m) w = (r2, w2)"
      by fastforce
    assume "create_table d u (srv_storage_opts srv) actions p m w = (r', w1)"
    then have "w1 = w2"
      using Ok b by (cases r2)
        (auto simp: create_table_def io_then_def io_return_def io_map_err_def split: if_splits)
    with build_appends [OF c b] log_contractD(1) [OF c Ok] show ?thesis by simp
  qed (auto simp: create_table_def io_then_def io_return_def appends_refl)
  then show ?thesis
    using assms(2)
    by (auto simp: commit_create_def io_then_def io_return_def io_map_err_def appends_refl
        split: if_splits option.splits prod.splits result.splits)
qed

lemma commit_actions_appends:
  assumes c: "log_contract d ver at" and "commit_actions d sj table actions w = (r, w')"
  shows "appends ver (at (log_store d table)) w w'"
proof (cases "table_snapshot d table")
  case (Ok snapshot)
  obtain r2 w2 where b: "commit_builder_build d actions (Some snapshot) (log_store d table)
      (build_operation sj actions) w = (r2, w2)"
    by fastforce
  then have "w' = w2"
    using Ok assms(2) by (cases r2)
      (auto simp: commit_actions_def io_then_def io_return_def io_map_err_def)
  with build_appends [OF c b] show ?thesis by simp
qed (use assms(2) in \<open>auto simp: commit_actions_def io_then_def io_return_def appends_refl\<close>)

lemma commit_actions_version:
  assumes c: "log_contract d ver at" and "commit_actions d sj table actions w = (Ok v, w')"
  shows "ver w' (at (log_store d table)) = Some (next_version (ver w (at (log_store d table))))"
    and "v = of_nat (next_version (ver w (at (log_store d table))))"
  using assms(2) log_contract_commitD(3,4) [OF c] by (auto simp: commit_actions_Ok)

lemma commit_create_version:
  assumes c: "log_contract d ver at" and "commit_create d srv u ex actions w = (Ok r, w')"
  shows "ver w' u = Some (next_version (ver w u))"
    and "committed_version r = of_nat (next_version (ver w u))"
proof -
  obtain p m table where h: "build_handle d u (srv_storage_opts srv) = Ok table"
    and b: "commit_builder_build d actions None (log_store d table) (OpCreate ErrorIfExists u p m) w
      = (Ok (committed_version r), w')"
    using assms(2)
    by (cases r) (auto simp: commit_create_def create_table_def rust_simps Let_def
        split: if_splits option.splits)
  then show "ver w' u = Some (next_version (ver w u))"
    and "committed_version r = of_nat (next_version (ver w u))"
    using log_contract_commitD(3,4) [OF c b] log_contractD(1) [OF c h] by auto
qed

lemma commit_create_refuses:
  "commit_create d srv u (Some e) actions w = (r, w') \<Longrightarrow> w' = w \<and> (\<exists>st. r = Err st)"
  by (auto simp: commit_create_def io_return_def)

subsection \<open>Case analysis of an action\<close>

text \<open>The table a task has opened is the one of its job.\<close>

definition opened_ok ::
  "('w, 'n, 'p, 'm, 'b, 't, 'l, 's, 'c, 'v) store \<Rightarrow> ('l \<Rightarrow> url) \<Rightarrow> (task \<Rightarrow> ('n, 'p, 'm) job)
     \<Rightarrow> ('w, 't) commit_sys \<Rightarrow> bool" where
  "opened_ok d at job s \<longleftrightarrow>
     (\<forall>t tab. cy_phase s t = COpened tab \<longrightarrow> at (log_store d tab) = job_url (job t))"

text \<open>
  What a call that may write does for the task of a job: at most one version more, on success
  exactly one whose number is the answer, and nothing at all unless the job expects no version or
  the opened table has the one it expects.
\<close>

definition writes ::
  "('w, 'n, 'p, 'm, 'b, 't, 'l, 's, 'c, 'v) store \<Rightarrow> ('w \<Rightarrow> url \<Rightarrow> nat option)
     \<Rightarrow> ('n, 'p, 'm) job \<Rightarrow> 't commit_phase \<Rightarrow> (commit_response, status) result \<Rightarrow> 'w \<Rightarrow> 'w
     \<Rightarrow> bool" where
  "writes d ver j ph r w w' \<longleftrightarrow>
     appends ver (job_url j) w w' \<and>
     (\<forall>resp. r = Ok resp \<longrightarrow> ver w' (job_url j) = Some (next_version (ver w (job_url j)))
        \<and> committed_version resp = of_nat (next_version (ver w (job_url j)))) \<and>
     (\<forall>e. job_expected j = Some e \<longrightarrow> ver w' (job_url j) \<noteq> ver w (job_url j) \<longrightarrow>
        (\<exists>tab. ph = COpened tab \<and> table_version d tab = Some e))"

lemma writes_appends: "writes d ver j ph r w w' \<Longrightarrow> appends ver (job_url j) w w'"
  by (simp add: writes_def)

lemma next_version_neq [simp]: "Some (next_version v) \<noteq> v" "v \<noteq> Some (next_version v)"
  by (auto simp: next_version_def split: option.splits)

lemma writes_Ok:
  assumes "writes d ver j ph (Ok resp) w w'" "job_expected j = Some e"
  obtains tab where "ph = COpened tab" "table_version d tab = Some e"
    "ver w' (job_url j) = Some (next_version (ver w (job_url j)))"
    "committed_version resp = of_nat (next_version (ver w (job_url j)))"
  using assms by (fastforce simp: writes_def)

lemma create_writes:
  assumes "log_contract d ver at"
    and "commit_create d srv (job_url j) (job_expected j) (job_actions j) w = (r, w')"
  shows "writes d ver j ph r w w'"
proof (cases "job_expected j")
  case None
  with commit_create_appends [OF assms] commit_create_version [OF assms(1)] assms(2) show ?thesis
    by (auto simp: writes_def)
next
  case (Some e)
  then have "w' = w" "\<exists>st. r = Err st"
    using commit_create_refuses assms(2) by metis+
  then show ?thesis by (auto simp: writes_def appends_refl)
qed

definition answer :: "(i64, delta_txn_error) result \<Rightarrow> (commit_response, status) result" where
  "answer r = (case r of Err e \<Rightarrow> Err (status_of_error e) | Ok v \<Rightarrow> Ok \<lparr>committed_version = v\<rparr>)"

lemma actions_writes:
  assumes "log_contract d ver at" "at (log_store d tab) = job_url j"
    and "check_expected_version d tab (job_expected j) = Ok u"
    and "commit_actions d sj tab (job_actions j) w = (r, w')"
  shows "writes d ver j (COpened tab) (answer r) w w'"
proof -
  have "appends ver (job_url j) w w'"
    using commit_actions_appends [OF assms(1,4)] assms(2) by simp
  moreover have "table_version d tab = Some e" if "job_expected j = Some e" for e
    using assms(3) that by (simp add: check_expected_version_Ok)
  moreover have "ver w' (job_url j) = Some (next_version (ver w (job_url j)))
      \<and> v = of_nat (next_version (ver w (job_url j)))" if "r = Ok v" for v
    using commit_actions_version [OF assms(1), of sj tab "job_actions j" w v w'] assms(2,4) that
    by simp
  ultimately show ?thesis
    by (auto simp: writes_def answer_def split: result.splits)
qed

lemma commit_exec_cases [consumes 3, case_names lock look refuse put]:
  assumes ex: "commit_exec d sj srv sh job s t act = Some s'"
    and c: "log_contract d ver at"
    and opened: "opened_ok d at job s"
  obtains
    (lock) lact ph l where "lock_phase (job_url (job t)) (cy_phase s t) lact = Some ph"
      "lock_exec sh (cy_locks s) t lact = Some l"
      "s' = goto t ph (cy_world s) (s\<lparr>cy_locks := l\<rparr>)"
  | (look) ph w where "in_section (cy_phase s t)" "ver w = ver (cy_world s)" "s' = goto t ph w s"
      "\<And>r. ph \<noteq> CDone (Ok r)" "ph \<noteq> CSection" "ph \<noteq> CWaiting"
      "\<And>tab. ph = COpened tab \<Longrightarrow> at (log_store d tab) = job_url (job t)"
      "\<And>tab. ph = COpened tab \<Longrightarrow>
         table_version d tab = map_option of_nat (ver (cy_world s) (job_url (job t)))"
  | (refuse) tab e where "cy_phase s t = COpened tab"
      "check_expected_version d tab (job_expected (job t)) = Err e"
      "s' = goto t (CDone (Err e)) (cy_world s) s"
  | (put) r ph w where "in_section (cy_phase s t)" "s' = goto t ph w s"
      "ph = CDone r \<or> ph = CCancelled"
      "writes d ver (job t) (cy_phase s t) r (cy_world s) w"
proof (cases act)
  case (LockAction lact)
  then show thesis using ex lock by (auto split: option.splits)
next
  case CheckExists
  obtain r w where e: "table_exists d (job_url (job t)) (srv_storage_opts srv) (cy_world s) = (r, w)"
    by fastforce
  with CheckExists ex look table_exists_reads [OF c e] show thesis
    by (auto split: commit_phase.splits result.splits if_splits)
next
  case Open
  obtain r w where e: "open_table d (job_url (job t)) (srv_storage_opts srv) (cy_world s) = (r, w)"
    by fastforce
  show thesis
  proof (cases r)
    case (Ok tab)
    with Open ex e open_table_reads [OF c e] open_table_view [OF c, of _ _ _ tab w] show thesis
      by (intro look [of w "COpened tab"]) (auto split: commit_phase.splits)
  next
    case (Err x)
    with Open ex e open_table_reads [OF c e] show thesis
      by (intro look [of w "CDone (Err (status_of_error x))"]) (auto split: commit_phase.splits)
  qed
next
  case Create
  obtain r w where e: "commit_create d srv (job_url (job t)) (job_expected (job t))
      (job_actions (job t)) (cy_world s) = (r, w)"
    by fastforce
  with Create ex create_writes [OF c e] show thesis
    by (intro put [of "CDone r" w r]) (auto split: commit_phase.splits)
next
  case Write
  then obtain tab where tab: "cy_phase s t = COpened tab"
    using ex by (auto split: commit_phase.splits)
  show thesis
  proof (cases "check_expected_version d tab (job_expected (job t))")
    case (Err e)
    with Write ex tab show thesis by (intro refuse [of tab e]) auto
  next
    case (Ok u)
    obtain r w where e: "commit_actions d sj tab (job_actions (job t)) (cy_world s) = (r, w)"
      by fastforce
    have "writes d ver (job t) (COpened tab) (answer r) (cy_world s) w"
      using actions_writes [OF c _ Ok e] opened tab by (simp add: opened_ok_def)
    with Write ex tab Ok e show thesis
      by (intro put [of "CDone (answer r)" w "answer r"])
        (auto simp: answer_def split: result.splits)
  qed
next
  case Abandon
  show thesis
  proof (cases "cy_phase s t = CCreate")
    case True
    obtain r w where e: "commit_create d srv (job_url (job t)) (job_expected (job t))
        (job_actions (job t)) (cy_world s) = (r, w)"
      by fastforce
    with Abandon ex create_writes [OF c e] True show thesis
      by (intro put [of CCancelled w r]) auto
  next
    case False
    then obtain tab u where tab: "cy_phase s t = COpened tab"
      "check_expected_version d tab (job_expected (job t)) = Ok u"
      using Abandon ex by (auto split: commit_phase.splits result.splits)
    obtain r w where e: "commit_actions d sj tab (job_actions (job t)) (cy_world s) = (r, w)"
      by fastforce
    have "writes d ver (job t) (COpened tab) (answer r) (cy_world s) w"
      using actions_writes [OF c _ tab(2) e] opened tab(1) by (simp add: opened_ok_def)
    with Abandon ex tab e show thesis
      by (intro put [of CCancelled w "answer r"]) auto
  qed
qed

subsection \<open>The invariant\<close>

definition phases_ok :: "(task \<Rightarrow> ('n, 'p, 'm) job) \<Rightarrow> ('w, 't) commit_sys \<Rightarrow> bool" where
  "phases_ok job s \<longleftrightarrow>
     (\<forall>t. in_section (cy_phase s t) \<longrightarrow> lock_holds (cy_locks s) t (job_url (job t))) \<and>
     (\<forall>t k a. user_of (pcs (cy_locks s) t) = Some (k, a) \<longrightarrow> k = job_url (job t))"

text \<open>A task between \<open>open_table\<close> and its write has the current version of the table \<open>u\<close>.\<close>

definition views_ok ::
  "('w, 'n, 'p, 'm, 'b, 't, 'l, 's, 'c, 'v) store \<Rightarrow> ('w \<Rightarrow> url \<Rightarrow> nat option)
     \<Rightarrow> (task \<Rightarrow> ('n, 'p, 'm) job) \<Rightarrow> url \<Rightarrow> ('w, 't) commit_sys \<Rightarrow> bool" where
  "views_ok d ver job u s \<longleftrightarrow>
     (\<forall>t tab. cy_phase s t = COpened tab \<longrightarrow> job_url (job t) = u \<longrightarrow>
        table_version d tab = map_option of_nat (ver (cy_world s) u))"

text \<open>The tasks that have committed to \<open>u\<close> with an expected version, and the version each replaced.\<close>

definition winner ::
  "(task \<Rightarrow> ('n, 'p, 'm) job) \<Rightarrow> url \<Rightarrow> ('w, 't) commit_sys \<Rightarrow> task \<Rightarrow> i64 \<Rightarrow> bool" where
  "winner job u s t e \<longleftrightarrow>
     job_url (job t) = u \<and> job_expected (job t) = Some e \<and> (\<exists>r. cy_phase s t = CDone (Ok r))"

definition winners_ok ::
  "('w \<Rightarrow> url \<Rightarrow> nat option) \<Rightarrow> (task \<Rightarrow> ('n, 'p, 'm) job) \<Rightarrow> url \<Rightarrow> ('w, 't) commit_sys \<Rightarrow> bool" where
  "winners_ok ver job u s \<longleftrightarrow>
     (\<exists>f. \<forall>t e. winner job u s t e \<longrightarrow>
        of_nat (f t) = e \<and> (\<exists>m. ver (cy_world s) u = Some m \<and> f t < m) \<and>
        (\<forall>t' e'. winner job u s t' e' \<longrightarrow> t' \<noteq> t \<longrightarrow> f t' \<noteq> f t))"

definition commit_inv where
  "commit_inv d ver at job u sh n s \<longleftrightarrow>
     lock_inv sh n (cy_locks s) \<and> phases_ok job s \<and> opened_ok d at job s \<and>
     views_ok d ver job u s \<and> winners_ok ver job u s"

lemma phases_okD:
  assumes "phases_ok job s"
  shows "in_section (cy_phase s t) \<Longrightarrow> lock_holds (cy_locks s) t (job_url (job t))"
    and "user_of (pcs (cy_locks s) t) = Some (k, a) \<Longrightarrow> k = job_url (job t)"
  using assms by (auto simp: phases_ok_def)

lemma lock_phase_keeps:
  assumes "lock_phase url ph act = Some ph'" "lock_exec sh l t act = Some l'"
    and "in_section ph \<Longrightarrow> lock_holds l t url"
    and "\<And>k a. user_of (pcs l t) = Some (k, a) \<Longrightarrow> k = url"
  shows "in_section ph' \<Longrightarrow> lock_holds l' t url"
    and "user_of (pcs l' t) = Some (k, a) \<Longrightarrow> k = url"
proof -
  show "in_section ph' \<Longrightarrow> lock_holds l' t url"
  proof (cases act)
    case Acquire
    with assms(1,2,4) show "in_section ph' \<Longrightarrow> lock_holds l' t url"
      by (auto simp: lock_holds_def set_mutex_def split: lock_pc.splits if_splits)
  qed (use assms(1-3) in \<open>auto simp: lock_holds_def Let_def
      split: lock_pc.splits if_splits commit_phase.splits\<close>)
  show "user_of (pcs l' t) = Some (k, a) \<Longrightarrow> k = url"
    using assms(1,2,4)
    by (cases act) (auto simp: Let_def lock_mem_defs split: lock_pc.splits if_splits option.splits)
qed

lemma lock_phase_back:
  assumes "lock_phase url ph act = Some ph'"
  shows "ph' = COpened tab \<Longrightarrow> ph = COpened tab" and "ph' = CDone r \<Longrightarrow> ph = CDone r"
  using assms by (cases act; auto split: if_splits commit_phase.splits)+

lemma winners_ok_mono:
  assumes "winners_ok ver job u s"
    and "\<And>t e. winner job u s' t e \<Longrightarrow> winner job u s t e"
    and "\<And>m. ver (cy_world s) u = Some m \<Longrightarrow> \<exists>m'\<ge>m. ver (cy_world s') u = Some m'"
  shows "winners_ok ver job u s'"
proof -
  obtain f where f: "\<And>t e. winner job u s t e \<Longrightarrow>
      of_nat (f t) = e \<and> (\<exists>m. ver (cy_world s) u = Some m \<and> f t < m) \<and>
      (\<forall>t' e'. winner job u s t' e' \<longrightarrow> t' \<noteq> t \<longrightarrow> f t' \<noteq> f t)"
    using assms(1) by (auto simp: winners_ok_def)
  have "\<exists>m. ver (cy_world s') u = Some m \<and> f t < m" if "winner job u s' t e" for t e
    using f [OF assms(2) [OF that]] assms(3) by (metis order_less_le_trans)
  then show ?thesis
    unfolding winners_ok_def using f assms(2) by (intro exI [of _ f]) blast
qed

lemma winners_ok_new:
  assumes "winners_ok ver job u s" "ver (cy_world s) u = Some k" "ver (cy_world s') u = Some (Suc k)"
    and "\<And>t' e. t' \<noteq> t \<Longrightarrow> winner job u s' t' e \<Longrightarrow> winner job u s t' e"
    and "\<And>e. winner job u s' t e \<Longrightarrow> of_nat k = e"
  shows "winners_ok ver job u s'"
proof -
  obtain f where f: "\<And>t e. winner job u s t e \<Longrightarrow>
      of_nat (f t) = e \<and> (\<exists>m. ver (cy_world s) u = Some m \<and> f t < m) \<and>
      (\<forall>t' e'. winner job u s t' e' \<longrightarrow> t' \<noteq> t \<longrightarrow> f t' \<noteq> f t)"
    using assms(1) by (auto simp: winners_ok_def)
  have less: "f t' < k" if "t' \<noteq> t" "winner job u s' t' e" for t' e
    using f [OF assms(4) [OF that]] assms(2) by auto
  show ?thesis
    unfolding winners_ok_def
  proof (intro exI [of _ "f(t := k)"] allI impI conjI)
    fix t1 e1 assume w1: "winner job u s' t1 e1"
    show "of_nat ((f(t := k)) t1) = e1"
      using w1 f [OF assms(4), of t1] assms(5) by (cases "t1 = t") auto
    show "\<exists>m. ver (cy_world s') u = Some m \<and> (f(t := k)) t1 < m"
      using less [of t1 e1] w1 assms(3) by (cases "t1 = t") auto
    fix t2 e2 assume w2: "winner job u s' t2 e2" and "t2 \<noteq> t1"
    then show "(f(t := k)) t2 \<noteq> (f(t := k)) t1"
      using less w1 w2 f [OF assms(4), of t1] assms(4) [of t2]
      by (cases "t1 = t"; cases "t2 = t") (fastforce dest: less)+
  qed
qed

subsection \<open>Every action keeps the invariant\<close>

lemma commit_inv_exec:
  assumes inv: "commit_inv d ver at job u sh n s" and c: "log_contract d ver at"
    and n: "n < 2 ^ 64" and t: "t < n" and ex: "commit_exec d sj srv sh job s t act = Some s'"
  shows "commit_inv d ver at job u sh n s'"
proof -
  have li: "lock_inv sh n (cy_locks s)" and ph: "phases_ok job s" and op: "opened_ok d at job s"
    and vw: "views_ok d ver job u s" and wi: "winners_ok ver job u s"
    using inv by (auto simp: commit_inv_def)
  from ex c op show ?thesis
  proof (cases rule: commit_exec_cases)
    case (lock lact p l)
    have keeps1: "in_section p \<Longrightarrow> lock_holds l t (job_url (job t))"
      by (rule lock_phase_keeps(1) [OF lock(1,2)]) (auto dest: phases_okD [OF ph])
    have keeps2: "user_of (pcs l t) = Some (k, a) \<Longrightarrow> k = job_url (job t)" for k a
      by (rule lock_phase_keeps(2) [OF lock(1,2)]) (auto dest: phases_okD [OF ph])
    note prior = lock_phase_back [OF lock(1)]
    note other = lock_exec_others [OF lock(2)]
    have "lock_inv sh n l"
      using tm.keeps [of n sh "cy_locks s" t lact l] n li t lock(2) by blast
    moreover have "phases_ok job s'"
      unfolding phases_ok_def
    proof (intro conjI allI impI)
      fix t' assume "in_section (cy_phase s' t')"
      then show "lock_holds (cy_locks s') t' (job_url (job t'))"
        using keeps1 phases_okD(1) [OF ph, of t'] other [of t']
        by (cases "t' = t") (auto simp: lock(3) lock_holds_def)
    next
      fix t' k a assume "user_of (pcs (cy_locks s') t') = Some (k, a)"
      then show "k = job_url (job t')"
        using keeps2 [of k a] phases_okD(2) [OF ph, of t' k a] other [of t']
        by (cases "t' = t") (auto simp: lock(3))
    qed
    moreover have "opened_ok d at job s'"
      using prior(1) op by (auto simp: opened_ok_def lock(3) split: if_splits)
    moreover have "views_ok d ver job u s'"
      using prior(1) vw by (auto simp: views_ok_def lock(3) split: if_splits)
    moreover have "winners_ok ver job u s'"
      by (rule winners_ok_mono [OF wi])
        (use prior(2) in \<open>auto simp: winner_def lock(3) split: if_splits\<close>)
    ultimately show ?thesis by (simp add: commit_inv_def lock(3))
  next
    case (look p w)
    have "phases_ok job s'"
      using ph look(1,3) by (auto simp: phases_ok_def)
    moreover have "opened_ok d at job s'"
      using op look(3,7) by (auto simp: opened_ok_def)
    moreover have "views_ok d ver job u s'"
      using vw look(2,3,8) by (auto simp: views_ok_def)
    moreover have "winners_ok ver job u s'"
      by (rule winners_ok_mono [OF wi])
        (use look(2,3,4) in \<open>auto simp: winner_def split: if_splits\<close>)
    ultimately show ?thesis using li by (simp add: commit_inv_def look(3))
  next
    case (refuse tab e)
    have "winners_ok ver job u s'"
      by (rule winners_ok_mono [OF wi])
        (use refuse(3) in \<open>auto simp: winner_def split: if_splits\<close>)
    with li ph op vw show ?thesis
      by (auto simp: commit_inv_def phases_ok_def opened_ok_def views_ok_def refuse(3))
  next
    case (put r p w)
    have app: "appends ver (job_url (job t)) (cy_world s) w"
      using put(4) by (rule writes_appends)
    have "phases_ok job s'"
      using ph put(2,3) by (auto simp: phases_ok_def)
    moreover have "opened_ok d at job s'"
      using op put(2,3) by (auto simp: opened_ok_def)
    moreover have "views_ok d ver job u s'"
      unfolding views_ok_def put(2)
    proof (intro allI impI)
      fix t' tab assume tab: "cy_phase (goto t p w s) t' = COpened tab"
        and u: "job_url (job t') = u"
      then have "t' \<noteq> t" and tab': "cy_phase s t' = COpened tab"
        using put(3) by (auto split: if_splits)
      then have "job_url (job t) \<noteq> u"
        using lock_holds_exclusive [OF li, of t u t'] phases_okD(1) [OF ph, of t]
          phases_okD(1) [OF ph, of t'] put(1) u by auto
      then have "ver w u = ver (cy_world s) u"
        using app by (auto simp: appends_def)
      with vw tab' u show "table_version d tab = map_option of_nat (ver (cy_world (goto t p w s)) u)"
        by (simp add: views_ok_def)
    qed
    moreover have "winners_ok ver job u s'"
    proof (cases "\<exists>e. winner job u s' t e")
      case True
      then obtain e resp where e: "job_url (job t) = u" "job_expected (job t) = Some e" "r = Ok resp"
        using put(3) by (auto simp: winner_def put(2))
      obtain tab where tab: "cy_phase s t = COpened tab" "table_version d tab = Some e"
        and nv: "ver w u = Some (next_version (ver (cy_world s) u))"
        using writes_Ok [OF put(4) [unfolded e(3)] e(2)] e(1) by blast
      obtain k where k: "ver (cy_world s) u = Some k" "of_nat k = e"
        using vw tab e(1) by (auto simp: views_ok_def)
      show ?thesis
        by (rule winners_ok_new [OF wi k(1), of _ t])
          (use nv k e(2) in \<open>auto simp: put(2) next_version_def winner_def split: if_splits\<close>)
    next
      case False
      show ?thesis
      proof (rule winners_ok_mono [OF wi])
        show "winner job u s t' e" if "winner job u s' t' e" for t' e
          using that False by (auto simp: winner_def put(2) split: if_splits)
        show "\<exists>m'\<ge>m. ver (cy_world s') u = Some m'" if "ver (cy_world s) u = Some m" for m
          using that app by (cases "u = job_url (job t)") (auto simp: put(2) appends_def next_version_def)
      qed
    qed
    ultimately show ?thesis using li by (simp add: commit_inv_def put(2))
  qed
qed

lemma lock_sys_init_idle: "pcs lock_sys_init t = Idle"
  by (simp add: lock_sys_init_def lock_mem.defs)

lemma commit_inv_init: "commit_inv d ver at job u sh n (commit_init w)"
  by (simp add: commit_inv_def commit_init_def lock_inv_init phases_ok_def opened_ok_def views_ok_def
      winners_ok_def winner_def lock_sys_init_idle)

lemma commit_inv_step:
  assumes "commit_inv d ver at job u sh n s" "log_contract d ver at" "n < 2 ^ 64"
    and "\<And>w w'. env w w' \<Longrightarrow> ver w' u = ver w u"
    and "commit_step d sj srv sh job n env s s'"
  shows "commit_inv d ver at job u sh n s'"
  using assms(5)
proof (rule commit_stepE)
  fix t act assume "t < n" "commit_exec d sj srv sh job s t act = Some s'"
  with commit_inv_exec [OF assms(1-3)] show ?thesis by blast
next
  fix w assume s': "s' = s\<lparr>cy_world := w\<rparr>" and "env (cy_world s) w"
  then have "ver w u = ver (cy_world s) u" using assms(4) by blast
  with assms(1) s' show ?thesis
    by (simp add: commit_inv_def phases_ok_def opened_ok_def views_ok_def winners_ok_def winner_def)
qed

interpretation ci: inductive_invariant
  "\<lambda>s. \<exists>w. s = commit_init w" "commit_step d sj srv sh job n env"
  "\<lambda>s. n < 2 ^ 64 \<longrightarrow> log_contract d ver at \<longrightarrow> (\<forall>w w'. env w w' \<longrightarrow> ver w' u = ver w u) \<longrightarrow>
     commit_inv d ver at job u sh n s"
  for d sj srv sh job n env ver at u
proof
  show "n < 2 ^ 64 \<longrightarrow> log_contract d ver at \<longrightarrow> (\<forall>w w'. env w w' \<longrightarrow> ver w' u = ver w u) \<longrightarrow>
      commit_inv d ver at job u sh n s'"
    if "n < 2 ^ 64 \<longrightarrow> log_contract d ver at \<longrightarrow> (\<forall>w w'. env w w' \<longrightarrow> ver w' u = ver w u) \<longrightarrow>
      commit_inv d ver at job u sh n s" "commit_step d sj srv sh job n env s s'" for s s'
    using that commit_inv_step [of d ver at job u sh n s env sj srv s'] by blast
qed (auto simp: commit_inv_init)

lemma reachable_commit_inv:
  assumes "commit_reachable d sj srv sh job n env s" "n < 2 ^ 64" "log_contract d ver at"
    and "\<And>w w'. env w w' \<Longrightarrow> ver w' u = ver w u"
  shows "commit_inv d ver at job u sh n s"
  using ci.reach_invariant [OF assms(1) [unfolded commit_reachable_def], of ver at u] assms(2-4)
  by blast

subsection \<open>Runs\<close>

fun commit_run ::
  "('w, 'n, 'p, 'm, 'b, 't, 'l, 's, 'c, 'v) store \<Rightarrow> ('n, 'z) serde_scheme \<Rightarrow> server
     \<Rightarrow> (string \<Rightarrow> nat) \<Rightarrow> (task \<Rightarrow> ('n, 'p, 'm) job) \<Rightarrow> ('w, 't) commit_sys
     \<Rightarrow> (task \<times> commit_action) list \<Rightarrow> ('w, 't) commit_sys option" where
  "commit_run d sj srv sh job s [] = Some s"
| "commit_run d sj srv sh job s ((t, act) # rest) =
     (case commit_exec d sj srv sh job s t act of
        None \<Rightarrow> None
      | Some s' \<Rightarrow> commit_run d sj srv sh job s' rest)"

lemma commit_reachable_init: "commit_reachable d sj srv sh job n env (commit_init w)"
  by (auto simp: commit_reachable_def intro: reach_rules)

lemma commit_reachable_exec:
  "commit_reachable d sj srv sh job n env s \<Longrightarrow> t < n \<Longrightarrow>
     commit_exec d sj srv sh job s t act = Some s' \<Longrightarrow> commit_reachable d sj srv sh job n env s'"
  unfolding commit_reachable_def by (blast intro: reach_rules commit_step.intros)

lemma commit_run_reachable:
  "commit_reachable d sj srv sh job n env s \<Longrightarrow> \<forall>(t, act)\<in>set acts. t < n \<Longrightarrow>
     commit_run d sj srv sh job s acts = Some s' \<Longrightarrow> commit_reachable d sj srv sh job n env s'"
proof (induction acts arbitrary: s)
  case (Cons p acts)
  obtain t act where p: "p = (t, act)" by (cases p)
  with Cons.prems obtain s1 where "commit_exec d sj srv sh job s t act = Some s1"
    and "commit_run d sj srv sh job s1 acts = Some s'"
    by (auto split: option.splits)
  with Cons p commit_reachable_exec [of d sj srv sh job n env s t act s1] show ?case by auto
qed simp

section \<open>Properties\<close>

text \<open>
  Property C5 (version_check_and_write_are_atomic). When a commit with an expected version succeeds,
  the table had exactly that version at the moment of the write, not only when it was opened, and
  the write made the next one, whose number is the answer. This holds for any number of concurrent
  commits of the process and any scheduling, as long as no other process writes the table.
\<close>

theorem version_check_and_write_are_atomic:
  assumes "commit_reachable d sj srv sh job n env s" and "n < 2 ^ 64" and "log_contract d ver at"
    and "\<And>w w'. env w w' \<Longrightarrow> ver w' (job_url (job t)) = ver w (job_url (job t))"
    and "commit_exec d sj srv sh job s t Write = Some s'"
    and "cy_phase s' t = CDone (Ok r)" and "job_expected (job t) = Some e"
  shows "\<exists>k. ver (cy_world s) (job_url (job t)) = Some k \<and> of_nat k = e
    \<and> ver (cy_world s') (job_url (job t)) = Some (Suc k) \<and> committed_version r = e + 1"
proof -
  let ?u = "job_url (job t)"
  have inv: "commit_inv d ver at job ?u sh n s"
    by (rule reachable_commit_inv [OF assms(1-4)])
  obtain tab where tab: "cy_phase s t = COpened tab"
    using assms(5) by (auto split: commit_phase.splits)
  have op: "opened_ok d at job s"
    using inv by (simp add: commit_inv_def)
  have view: "table_version d tab = map_option of_nat (ver (cy_world s) ?u)"
    using inv tab by (simp add: commit_inv_def views_ok_def)
  from assms(5,3) op show ?thesis
  proof (cases rule: commit_exec_cases)
    case (lock lact ph l)
    then show ?thesis using lock_phase_back(2) [OF lock(1)] assms(6) tab by auto
  next
    case (look ph w)
    then show ?thesis using assms(6) by auto
  next
    case (refuse tab' e')
    then show ?thesis using assms(6) by auto
  next
    case (put r' p w)
    then have r': "r' = Ok r" using assms(6) by auto
    obtain tab' where tab': "cy_phase s t = COpened tab'" "table_version d tab' = Some e"
      and nv: "ver w ?u = Some (next_version (ver (cy_world s) ?u))"
        "committed_version r = of_nat (next_version (ver (cy_world s) ?u))"
      by (rule writes_Ok [OF put(4) [unfolded r'] assms(7)])
    obtain k where "ver (cy_world s) ?u = Some k" "of_nat k = e"
      using tab' view tab by (cases "ver (cy_world s) ?u") auto
    with nv show ?thesis by (simp add: put(2) next_version_def)
  qed
qed

text \<open>
  Property C3 (no_lost_update). Of any number of concurrent commits to one table that expect the
  same version, at most one succeeds, as long as no other process writes the table and the table has
  fewer than \<open>2^64\<close> versions.
\<close>

theorem no_lost_update:
  assumes "commit_reachable d sj srv sh job n env s" and "n < 2 ^ 64" and "log_contract d ver at"
    and "\<And>w w'. env w w' \<Longrightarrow> ver w' u = ver w u"
    and "\<And>m. ver (cy_world s) u = Some m \<Longrightarrow> m < 2 ^ 64"
    and "t \<noteq> t'" and "job_url (job t) = u" and "job_url (job t') = u"
    and "job_expected (job t) = Some e" and "job_expected (job t') = Some e"
    and "cy_phase s t = CDone (Ok r)"
  shows "cy_phase s t' \<noteq> CDone (Ok r')"
proof
  assume "cy_phase s t' = CDone (Ok r')"
  then have w: "winner job u s t e" "winner job u s t' e"
    using assms(7-11) by (auto simp: winner_def)
  have "winners_ok ver job u s"
    using reachable_commit_inv [OF assms(1-4)] by (simp add: commit_inv_def)
  then obtain f where f: "\<And>t e. winner job u s t e \<Longrightarrow>
      of_nat (f t) = e \<and> (\<exists>m. ver (cy_world s) u = Some m \<and> f t < m) \<and>
      (\<forall>t' e'. winner job u s t' e' \<longrightarrow> t' \<noteq> t \<longrightarrow> f t' \<noteq> f t)"
    unfolding winners_ok_def by blast
  have "f t < 2 ^ 64" "f t' < 2 ^ 64"
    using f [OF w(1)] f [OF w(2)] assms(5) by (auto intro: less_trans)
  moreover have "(of_nat (f t) :: i64) = of_nat (f t')"
    using f [OF w(1)] f [OF w(2)] by simp
  ultimately have "f t = f t'" by (simp add: of_nat_usize_inject)
  with f [OF w(1)] w(2) assms(6) show False by metis
qed

text \<open>
  Property C28 (commit_section_refines_steps). The locked section of the handler is what its atomic
  actions do when no other task and no other process comes between: from the moment the lock is
  held, at most three calls to storage lead to the answer and to the world of \<open>commit_section\<close>.
\<close>

theorem commit_section_refines_steps:
  assumes "cy_phase s t = CSection"
  shows "\<exists>acts s'. length acts \<le> 3
    \<and> commit_run d sj srv sh job s (map (Pair t) acts) = Some s'
    \<and> cy_locks s' = cy_locks s
    \<and> (\<exists>r. cy_phase s' t = CDone r \<and> (r, cy_world s') =
         commit_section d sj srv (job_url (job t)) (job_expected (job t)) (job_actions (job t))
           (cy_world s))"
proof -
  let ?u = "job_url (job t)" and ?o = "srv_storage_opts srv"
  obtain found w1 where e: "table_exists d ?u ?o (cy_world s) = (found, w1)" by fastforce
  consider (err) x where "found = Err x" | (create) "found = Ok False" | (found) "found = Ok True"
    by (cases found) auto
  then show ?thesis
  proof cases
    case err
    with assms e show ?thesis
      by (intro exI [of _ "[CheckExists]"])
        (auto simp: commit_section_def io_then_def io_map_err_def)
  next
    case create
    obtain r w2 where "commit_create d srv ?u (job_expected (job t)) (job_actions (job t)) w1 = (r, w2)"
      by fastforce
    with create assms e show ?thesis
      by (intro exI [of _ "[CheckExists, Create]"])
        (auto simp: commit_section_def io_then_def io_map_err_def)
  next
    case found
    obtain opened w2 where o: "open_table d ?u ?o w1 = (opened, w2)" by fastforce
    show ?thesis
    proof (cases opened)
      case (Err x)
      with found assms e o show ?thesis
        by (intro exI [of _ "[CheckExists, Open]"])
          (auto simp: commit_section_def io_then_def io_map_err_def)
    next
      case (Ok table)
      obtain r w3 where a: "commit_actions d sj table (job_actions (job t)) w2 = (r, w3)" by fastforce
      show ?thesis
        by (intro exI [of _ "[CheckExists, Open, Write]"],
            cases "check_expected_version d table (job_expected (job t))"; cases r)
          (use Ok found assms e o a in
            \<open>auto simp: commit_section_def io_then_def io_map_err_def io_return_def\<close>)
    qed
  qed
qed

section \<open>Witnesses\<close>

definition sample_ver :: "sample_world \<Rightarrow> url \<Rightarrow> nat option" where
  "sample_ver w u = map_option (\<lambda>s. unat (sl_version s)) (map_of w u)"

lemma sample_apply_version: "sl_version (fold sample_apply actions s) = sl_version s"
proof (induction actions arbitrary: s)
  case (Cons a actions)
  have "sl_version (sample_apply a s) = sl_version s" by (cases a) auto
  with Cons show ?case by simp
qed simp

lemma sample_commit_versions:
  assumes "sample_commit actions u w = (r, w')"
  shows "(\<forall>v. v \<noteq> u \<longrightarrow> sample_ver w' v = sample_ver w v)
    \<and> sample_ver w' u \<in> {sample_ver w u, Some (next_version (sample_ver w u))}
    \<and> (\<forall>v. r = Ok v \<longrightarrow> sample_ver w' u = Some (next_version (sample_ver w u))
        \<and> v = of_nat (next_version (sample_ver w u)))"
proof -
  have suc: "unat (v + 1) = Suc (unat v)" if "v \<noteq> - 1" for v :: u64
    using that by (metis add.commute add_eq_0_iff unatSuc)
  show ?thesis
    using assms suc
    by (cases "map_of w u")
      (auto simp: sample_commit_def sample_ver_def next_version_def sample_next_def
        sample_apply_version update_conv' Let_def split: if_splits)
qed

lemma sample_log_contract: "log_contract sample_store sample_ver id"
proof -
  have look: "is_delta_table_location sample_store l w = (r, w') \<Longrightarrow> w' = w" for l w r w'
    by (simp add: sample_store_def)
  have opens: "open_table_with_storage_options sample_store u opts w = (r, w') \<Longrightarrow>
      w' = w \<and> (\<forall>t. r = Ok t \<longrightarrow> log_store sample_store t = u
        \<and> table_version sample_store t = map_option of_nat (sample_ver w u))" for u opts w r w'
    by (auto simp: sample_store_def sample_ver_def split: option.splits)
  have handle: "build_handle sample_store u opts = Ok t \<Longrightarrow> log_store sample_store t = u" for u opts t
    by (auto simp: sample_store_def build_handle_def)
  have build: "commit_builder_build sample_store actions base l op w = sample_commit actions l w"
    for actions base l op w
    by (simp add: sample_store_def)
  show ?thesis
    unfolding log_contract_def id_apply build
    by (intro conjI allI impI; (drule look opens handle sample_commit_versions)?) auto
qed

text \<open>Two commits that both expect version 3; task 0 is about to write while task 1 waits.\<close>

definition sample_job :: "task \<Rightarrow> (sample_number, sample_doc, sample_doc) job" where
  "sample_job t = \<lparr>job_url = ''s3://b/t'', job_expected = Some 3, job_actions = []\<rparr>"

definition sample_schedule :: "(task \<times> commit_action) list" where
  "sample_schedule =
     [(0, LockAction (Enter ''s3://b/t'')), (0, LockAction FetchAdd), (0, LockAction Acquire),
      (1, LockAction (Enter ''s3://b/t'')), (1, LockAction FetchAdd),
      (0, CheckExists), (0, Open)]"

abbreviation sample_exec where
  "sample_exec \<equiv> commit_exec sample_store sample_sj0 sample_server (\<lambda>_. 0) sample_job"

abbreviation sample_run where
  "sample_run \<equiv> commit_run sample_store sample_sj0 sample_server (\<lambda>_. 0) sample_job
     (commit_init (sample_world_at 3))"

abbreviation sample_reachable where
  "sample_reachable \<equiv>
     commit_reachable sample_store sample_sj0 sample_server (\<lambda>_. 0) sample_job 2 (=)"

lemma sample_run_opened:
  obtains s s' where "sample_run sample_schedule = Some s" "sample_reachable s"
    "cy_world s = sample_world_at 3"
    "sample_exec s 0 Write = Some s'" "cy_phase s' 0 = CDone (Ok \<lparr>committed_version = 4\<rparr>)"
    "cy_world s' = sample_world_at 4" "cy_phase s' 1 = CWaiting"
proof -
  obtain s s' where s: "sample_run sample_schedule = Some s" and w: "cy_world s = sample_world_at 3"
    "sample_exec s 0 Write = Some s'" "cy_phase s' 0 = CDone (Ok \<lparr>committed_version = 4\<rparr>)"
    "cy_world s' = sample_world_at 4" "cy_phase s' 1 = CWaiting"
    by (simp add: sample_schedule_def commit_init_def lock_sys_init_def lock_manager_default_def
        lock_mem.defs lock_mem_defs goto_def sample_job_def sample_store_eval ok_or_def
        check_expected_version_def commit_actions_def sample_server_def Let_def)
  have "sample_reachable s"
    by (rule commit_run_reachable [OF commit_reachable_init _ s]) (simp add: sample_schedule_def)
  with s w that show thesis by blast
qed

theorem version_check_and_write_are_atomic_witness:
  "\<exists>s s'. sample_run sample_schedule = Some s \<and> sample_exec s 0 Write = Some s'
     \<and> sample_ver (cy_world s) ''s3://b/t'' = Some 3 \<and> sample_ver (cy_world s') ''s3://b/t'' = Some 4"
proof -
  obtain s s' where s: "sample_run sample_schedule = Some s" and "sample_reachable s"
    and w: "cy_world s = sample_world_at 3" and "sample_exec s 0 Write = Some s'"
    "cy_phase s' 0 = CDone (Ok \<lparr>committed_version = 4\<rparr>)"
    by (rule sample_run_opened)
  then have "\<exists>k. sample_ver (cy_world s) (job_url (sample_job 0)) = Some k \<and> of_nat k = (3 :: i64)
    \<and> sample_ver (cy_world s') (job_url (sample_job 0)) = Some (Suc k)
    \<and> committed_version \<lparr>committed_version = 4\<rparr> = (3 :: i64) + 1"
    by (intro version_check_and_write_are_atomic [OF \<open>sample_reachable s\<close> _ sample_log_contract])
      (auto simp: sample_job_def)
  with s \<open>sample_exec s 0 Write = Some s'\<close> w show ?thesis
    by (auto simp: sample_job_def sample_ver_def sample_log_at_def)
qed

theorem no_lost_update_witness:
  "\<exists>s. sample_reachable s \<and> cy_phase s 0 = CDone (Ok \<lparr>committed_version = 4\<rparr>)
     \<and> cy_phase s 1 \<noteq> CDone (Ok \<lparr>committed_version = 4\<rparr>)"
proof -
  obtain s0 s where "sample_reachable s0" "sample_exec s0 0 Write = Some s"
    and fin: "cy_phase s 0 = CDone (Ok \<lparr>committed_version = 4\<rparr>)"
    and w: "cy_world s = sample_world_at 4"
    by (rule sample_run_opened)
  then have s: "sample_reachable s"
    using commit_reachable_exec [of sample_store sample_sj0 sample_server "\<lambda>_. 0" sample_job 2 "(=)" s0 0
        Write s] by (simp del: commit_exec.simps)
  have "cy_phase s 1 \<noteq> CDone (Ok \<lparr>committed_version = 4\<rparr>)"
    by (rule no_lost_update [OF s _ sample_log_contract, of "''s3://b/t''" 0 1 3 "\<lparr>committed_version = 4\<rparr>"])
      (auto simp: w sample_ver_def sample_log_at_def sample_job_def fin)
  with s fin show ?thesis by blast
qed

theorem commit_section_refines_steps_witness:
  "\<exists>acts s'. length acts \<le> 3
     \<and> commit_run sample_store sample_sj0 sample_server (\<lambda>_. 0) sample_job
         ((commit_init (sample_world_at 3))\<lparr>cy_phase := (\<lambda>_. CSection)\<rparr>) (map (Pair 0) acts) = Some s'
     \<and> cy_phase s' 0 = CDone (Ok \<lparr>committed_version = 4\<rparr>)"
proof -
  let ?s = "(commit_init (sample_world_at 3))\<lparr>cy_phase := (\<lambda>_. CSection)\<rparr>"
  have "commit_section sample_store sample_sj0 sample_server ''s3://b/t'' (Some 3) [] (sample_world_at 3)
      = (Ok \<lparr>committed_version = 4\<rparr>, sample_world_at 4)"
    by (simp add: commit_section_def check_expected_version_def commit_actions_def sample_store_eval
        ok_or_def sample_server_def Let_def)
  then show ?thesis
    using commit_section_refines_steps [of ?s 0 sample_store sample_sj0 sample_server "\<lambda>_. 0" sample_job]
    by (auto simp: sample_job_def commit_init_def)
qed

end
