(* ===== verification/Commit_Spec.thy ===== *)
theory Commit_Spec
  imports Commit_System
begin

section \<open>The atomic specification of commits\<close>

text \<open>
  What a client may believe of the service: commits happen one at a time, each at one moment between
  its request and its answer. The state of the specification is the latest version of every table. A
  commit either lands, when it expects no version or exactly the latest one, and makes the next
  version; or it is refused because the latest version is another one.

  The system of \<open>Commit_System\<close> refines it: whatever the interleaving of the handlers, their calls to
  storage and their cancellations, a history of such atomic commits explains all answers and the
  versions in storage, and it only grows.
\<close>

datatype commit_entry = Landed task nat | Refused task

fun entry_task :: "commit_entry \<Rightarrow> task" where
  "entry_task (Landed t k) = t"
| "entry_task (Refused t) = t"

fun accepts :: "i64 option \<Rightarrow> nat option \<Rightarrow> bool" where
  "accepts None v = True"
| "accepts (Some e) v = (map_option of_nat v = Some e)"

fun spec_exec ::
  "(task \<Rightarrow> ('n, 'p, 'm) job) \<Rightarrow> (url \<Rightarrow> nat option) \<Rightarrow> commit_entry \<Rightarrow> (url \<Rightarrow> nat option) option"
where
  "spec_exec job v (Landed t k) =
     (let u = job_url (job t) in
      if accepts (job_expected (job t)) (v u) \<and> k = next_version (v u) then Some (v(u \<mapsto> k)) else None)"
| "spec_exec job v (Refused t) =
     (if accepts (job_expected (job t)) (v (job_url (job t))) then None else Some v)"

text \<open>
  A history explains a state: the versions it leads to are those of the storage, for the tables of
  the jobs; every task is in it at most once, and not before it writes; a successful answer is the
  version with which the commit landed; a commit refused in the history has been answered with an
  error of the version check.
\<close>

definition explains ::
  "(task \<Rightarrow> ('n, 'p, 'm) job) \<Rightarrow> ('w \<Rightarrow> url \<Rightarrow> nat option) \<Rightarrow> nat \<Rightarrow> (url \<Rightarrow> nat option)
     \<Rightarrow> commit_entry list \<Rightarrow> ('w, 't) commit_sys \<Rightarrow> bool" where
  "explains job ver n v h s \<longleftrightarrow>
     (\<forall>t<n. v (job_url (job t)) = ver (cy_world s) (job_url (job t))) \<and>
     distinct (map entry_task h) \<and> (\<forall>x\<in>set h. entry_task x < n) \<and>
     (\<forall>t. cy_phase s t = CWaiting \<or> in_section (cy_phase s t) \<longrightarrow> t \<notin> entry_task ` set h) \<and>
     (\<forall>t r. cy_phase s t = CDone (Ok r) \<longrightarrow>
        (\<exists>k. Landed t k \<in> set h \<and> committed_version r = of_nat k)) \<and>
     (\<forall>t. Refused t \<in> set h \<longrightarrow>
        (\<exists>st. cy_phase s t = CDone (Err st) \<and> status_code st \<in> {FailedPrecondition, Aborted}))"

section \<open>Lemmas\<close>

subsection \<open>Histories\<close>

lemma spec_exec_grows:
  assumes "spec_exec job v x = Some v'" "v u = Some m"
  shows "\<exists>m'\<ge>m. v' u = Some m'"
  using assms by (cases x) (auto simp: Let_def next_version_def split: if_splits)

lemma spec_runs_grow:
  "runs (spec_exec job) h v = Some v' \<Longrightarrow> v u = Some m \<Longrightarrow> \<exists>m'\<ge>m. v' u = Some m'"
proof (induction h arbitrary: v m)
  case (Cons x h)
  then obtain v1 where v1: "spec_exec job v x = Some v1" "runs (spec_exec job) h v1 = Some v'"
    by (auto split: option.splits)
  obtain m1 where "m \<le> m1" "v1 u = Some m1"
    using spec_exec_grows [OF v1(1) Cons.prems(2)] by blast
  then show ?case using Cons.IH [OF v1(2)] by (metis order_trans)
qed simp

text \<open>A version that landed is newer than all before and not newer than the latest one.\<close>

lemma spec_landed:
  "runs (spec_exec job) h v = Some v' \<Longrightarrow> Landed t k \<in> set h \<Longrightarrow> u = job_url (job t) \<Longrightarrow>
     (\<forall>m. v u = Some m \<longrightarrow> m < k) \<and> (\<exists>m'\<ge>k. v' u = Some m')"
proof (induction h arbitrary: v)
  case (Cons x h)
  then obtain v1 where v1: "spec_exec job v x = Some v1" "runs (spec_exec job) h v1 = Some v'"
    by (auto split: option.splits)
  show ?case
  proof (cases "x = Landed t k")
    case True
    then have "v1 u = Some k" "k = next_version (v u)"
      using v1(1) Cons.prems(3) by (auto simp: Let_def split: if_splits)
    then show ?thesis using spec_runs_grow [OF v1(2)] by (auto simp: next_version_def)
  next
    case False
    then have "(\<forall>m. v1 u = Some m \<longrightarrow> m < k) \<and> (\<exists>m'\<ge>k. v' u = Some m')"
      using Cons.IH [OF v1(2)] Cons.prems(2,3) by auto
    then show ?thesis using spec_exec_grows [OF v1(1), of u] by (meson order_le_less_trans)
  qed
qed simp

text \<open>Commits that all expect the same version of a table: the first to land is the last.\<close>

lemma spec_same_expectation:
  "runs (spec_exec job) h v = Some v' \<Longrightarrow>
     \<forall>x\<in>set h. job_url (job (entry_task x)) = u \<longrightarrow> job_expected (job (entry_task x)) = Some e \<Longrightarrow>
     v' u = v u \<or> (\<exists>k. v u = Some k \<and> of_nat k = e \<and> v' u = Some (Suc k))"
proof (induction h arbitrary: v)
  case (Cons x h)
  then obtain v1 where v1: "spec_exec job v x = Some v1" "runs (spec_exec job) h v1 = Some v'"
    by (auto split: option.splits)
  have later: "v' u = v1 u \<or> (\<exists>k. v1 u = Some k \<and> of_nat k = e \<and> v' u = Some (Suc k))"
    using Cons.IH [OF v1(2)] Cons.prems(2) by simp
  have "v1 u = v u \<or> (\<exists>k. v u = Some k \<and> of_nat k = e \<and> v1 u = Some (Suc k))"
    using v1(1) Cons.prems(2)
    by (cases x) (auto simp: Let_def next_version_def split: if_splits)
  moreover have "of_nat (Suc k) \<noteq> (of_nat k :: i64)" for k by simp
  ultimately show ?case using later by auto
qed simp

lemma explainsD:
  assumes "explains job ver n v h s"
  shows "t < n \<Longrightarrow> v (job_url (job t)) = ver (cy_world s) (job_url (job t))"
    and "x \<in> set h \<Longrightarrow> entry_task x < n"
    and "cy_phase s t = CWaiting \<Longrightarrow> t \<notin> entry_task ` set h"
    and "cy_phase s t = CDone (Ok r) \<Longrightarrow>
           \<exists>k. Landed t k \<in> set h \<and> committed_version r = of_nat k"
  using assms unfolding explains_def by blast+

subsection \<open>Every step of the system is explained\<close>

lemma check_expected_version_refuses:
  assumes "check_expected_version d tab ex = Err st" "table_version d tab = map_option of_nat v"
  shows "\<not> accepts ex v"
proof (cases ex)
  case None
  with assms(1) show ?thesis by (simp add: check_expected_version_def)
next
  case (Some e)
  with assms check_expected_version_Ok [of d tab e] show ?thesis by auto
qed

lemma lock_phase_open:
  "lock_phase url ph act = Some ph' \<Longrightarrow> ph' = CWaiting \<or> in_section ph' \<Longrightarrow>
     ph = CWaiting \<or> in_section ph"
  by (cases act) (auto split: if_splits commit_phase.splits)

lemma lock_phase_done: "lock_phase url (CDone r) act = Some ph' \<Longrightarrow> ph' = CDone r"
  by (cases act) (auto split: if_splits)

text \<open>Nothing happens to the tables: the history stays.\<close>

lemma explains_quiet:
  assumes "explains job ver n v h s"
    and "\<And>t. t < n \<Longrightarrow> ver (cy_world s') (job_url (job t)) = ver (cy_world s) (job_url (job t))"
    and "\<And>t. cy_phase s' t = CWaiting \<or> in_section (cy_phase s' t) \<Longrightarrow>
      cy_phase s t = CWaiting \<or> in_section (cy_phase s t)"
    and "\<And>t r. cy_phase s' t = CDone (Ok r) \<Longrightarrow> cy_phase s t = CDone (Ok r)"
    and "\<And>t st. cy_phase s t = CDone (Err st) \<Longrightarrow> cy_phase s' t = CDone (Err st)"
  shows "explains job ver n v h s'"
  using assms unfolding explains_def by (intro conjI) metis+

text \<open>A task in its section adds its entry; the tables then are those of the storage.\<close>

lemma explains_entry:
  assumes "explains job ver n v h s" and "t < n" and "in_section (cy_phase s t)"
    and "entry_task x = t" and "cy_phase s' = (cy_phase s)(t := ph)"
    and "\<not> in_section ph" and "ph \<noteq> CWaiting"
    and "\<And>t. t < n \<Longrightarrow> v' (job_url (job t)) = ver (cy_world s') (job_url (job t))"
    and "\<And>r. ph = CDone (Ok r) \<Longrightarrow> \<exists>k. x = Landed t k \<and> committed_version r = of_nat k"
    and "x = Refused t \<Longrightarrow>
      \<exists>st. ph = CDone (Err st) \<and> status_code st \<in> {FailedPrecondition, Aborted}"
  shows "explains job ver n v' (h @ [x]) s'"
proof -
  have new: "t \<notin> entry_task ` set h" and old: "distinct (map entry_task h)"
    "\<forall>x\<in>set h. entry_task x < n"
    using assms(1,3) by (auto simp: explains_def)
  have waits: "t' \<notin> entry_task ` set (h @ [x])"
    if "cy_phase s' t' = CWaiting \<or> in_section (cy_phase s' t')" for t'
    using that assms(1,4-7) by (cases "t' = t") (auto simp: explains_def)
  have oks: "\<exists>k. Landed t' k \<in> set (h @ [x]) \<and> committed_version r = of_nat k"
    if "cy_phase s' t' = CDone (Ok r)" for t' r
    using that assms(1,5,9) by (cases "t' = t") (fastforce simp: explains_def)+
  have refused: "\<exists>st. cy_phase s' t' = CDone (Err st) \<and> status_code st \<in> {FailedPrecondition, Aborted}"
    if "Refused t' \<in> set (h @ [x])" for t'
  proof (cases "t' = t")
    case True
    with that new have "x = Refused t" by force
    with assms(5,10) True show ?thesis by simp
  next
    case False
    with that assms(4) have "Refused t' \<in> set h" by auto
    with assms(1,5) False show ?thesis by (simp add: explains_def)
  qed
  show ?thesis
    unfolding explains_def
  proof (intro conjI allI impI)
    show "distinct (map entry_task (h @ [x]))" using new old assms(4) by simp
    show "\<forall>x\<in>set (h @ [x]). entry_task x < n" using old assms(2,4) by simp
  qed (use assms(8) waits oks refused in blast)+
qed

lemma explains_put:
  assumes "explains job ver n v h s" and "t < n" and "in_section (cy_phase s t)"
    and w: "writes d ver (job t) (cy_phase s t) r (cy_world s) w"
    and "views_ok d ver job (job_url (job t)) s"
    and s': "s' = goto t ph w s" and ph: "ph = CDone r \<or> ph = CCancelled"
  shows "\<exists>h' v'. runs (spec_exec job) h' v = Some v' \<and> explains job ver n v' (h @ h') s'"
proof -
  let ?u = "job_url (job t)"
  have vu: "v (job_url (job t')) = ver (cy_world s) (job_url (job t'))" if "t' < n" for t'
    using assms(1) that by (simp add: explains_def)
  have app: "appends ver ?u (cy_world s) w" by (rule writes_appends [OF w])
  show ?thesis
  proof (cases "ver w ?u = ver (cy_world s) ?u")
    case True
    have "ver w = ver (cy_world s)"
    proof
      show "ver w u = ver (cy_world s) u" for u
        using True app by (cases "u = ?u") (auto simp: appends_def)
    qed
    moreover have "ph \<noteq> CDone (Ok resp)" for resp
      using ph w True by (auto simp: writes_def)
    ultimately have "explains job ver n v h s'"
      using assms(3) ph by (intro explains_quiet [OF assms(1)])
        (auto simp: s' split: if_splits)
    then show ?thesis by (intro exI [of _ "[]"] exI [of _ v]) simp
  next
    case False
    define k where "k = next_version (ver (cy_world s) ?u)"
    have wk: "ver w ?u = Some k" using False app by (auto simp: appends_def k_def)
    have "accepts (job_expected (job t)) (v ?u)"
      using w False assms(5) vu [OF assms(2)]
      by (cases "job_expected (job t)") (fastforce simp: writes_def views_ok_def)+
    then have run: "runs (spec_exec job) [Landed t k] v = Some (v(?u \<mapsto> k))"
      using vu [OF assms(2)] by (simp add: Let_def k_def)
    have "explains job ver n (v(?u \<mapsto> k)) (h @ [Landed t k]) s'"
    proof (rule explains_entry [OF assms(1-3)])
      show "\<exists>k'. Landed t k = Landed t k' \<and> committed_version resp = of_nat k'"
        if "ph = CDone (Ok resp)" for resp
        using that ph w by (auto simp: writes_def k_def)
      show "(v(?u \<mapsto> k)) (job_url (job t')) = ver (cy_world s') (job_url (job t'))" if "t' < n" for t'
        using vu [OF that] wk app by (simp add: s' appends_def)
    qed (use ph in \<open>auto simp: s'\<close>)
    with run show ?thesis by blast
  qed
qed

lemma explains_exec:
  assumes ex: "commit_exec d sj srv sh job s t act = Some s'" and c: "log_contract d ver at"
    and inv: "commit_inv d ver at job (job_url (job t)) sh n s"
    and e: "explains job ver n v h s" and t: "t < n"
  shows "\<exists>h' v'. runs (spec_exec job) h' v = Some v' \<and> explains job ver n v' (h @ h') s'"
proof -
  have op: "opened_ok d at job s" and vw: "views_ok d ver job (job_url (job t)) s"
    using inv by (auto simp: commit_inv_def)
  have quiet: ?thesis if "explains job ver n v h s'"
    using that by (intro exI [of _ "[]"] exI [of _ v]) simp
  from ex c op show ?thesis
  proof (cases rule: commit_exec_cases)
    case (lock lact ph l)
    show ?thesis
    proof (rule quiet, rule explains_quiet [OF e])
      show "cy_phase s' t' = CDone (Err st)" if "cy_phase s t' = CDone (Err st)" for t' st
        using that lock(1) lock_phase_done by (fastforce simp: lock(3))
    qed (use lock_phase_open [OF lock(1)] lock_phase_back(2) [OF lock(1)] in
        \<open>auto simp: lock(3) split: if_splits\<close>)
  next
    case (look ph w)
    show ?thesis
      by (rule quiet, rule explains_quiet [OF e])
        (use look(1-4,6) in \<open>auto split: if_splits\<close>)
  next
    case (refuse tab st)
    have "\<not> accepts (job_expected (job t)) (v (job_url (job t)))"
      using check_expected_version_refuses [OF refuse(2)] vw refuse(1) e t
      by (simp add: views_ok_def explains_def)
    then have "runs (spec_exec job) [Refused t] v = Some v" by simp
    moreover have "explains job ver n v (h @ [Refused t]) s'"
      using e refuse check_expected_version_Err [OF refuse(2)]
      by (intro explains_entry [OF e t]) (auto simp: explains_def)
    ultimately show ?thesis by blast
  next
    case (put r ph w)
    show ?thesis by (rule explains_put [OF e t put(1,4) vw put(2,3)])
  qed
qed

lemma explains_init: "explains job ver n (ver w) [] (commit_init w)"
  by (simp add: explains_def commit_init_def)

text \<open>What the simulation needs: the invariant of \<open>Commit_System\<close> for every table of a job.\<close>

definition explainable where
  "explainable d ver at job sh n env s \<longleftrightarrow>
     n < 2 ^ 64 \<and> log_contract d ver at \<and>
     (\<forall>w w' t. env w w' \<longrightarrow> t < n \<longrightarrow> ver w' (job_url (job t)) = ver w (job_url (job t))) \<and>
     (\<forall>t<n. commit_inv d ver at job (job_url (job t)) sh n s)"

lemma explainable_init:
  assumes "n < 2 ^ 64" "log_contract d ver at"
    and "\<And>w w' t. env w w' \<Longrightarrow> t < n \<Longrightarrow> ver w' (job_url (job t)) = ver w (job_url (job t))"
  shows "explainable d ver at job sh n env (commit_init w)"
  using assms by (auto simp: explainable_def intro: commit_inv_init)

lemma explainable_step:
  assumes "explainable d ver at job sh n env s" "commit_step d sj srv sh job n env s s'"
  shows "explainable d ver at job sh n env s'"
  using assms commit_inv_step [of d ver at job _ sh n s env sj srv s']
  by (auto simp: explainable_def)

lemma explains_step:
  assumes inv: "explainable d ver at job sh n env s" and st: "commit_step d sj srv sh job n env s s'"
    and e: "explains job ver n v h s"
  shows "\<exists>h' v'. runs (spec_exec job) h' v = Some v' \<and> explains job ver n v' (h @ h') s'"
  using st
proof (rule commit_stepE)
  fix t act assume "t < n" "commit_exec d sj srv sh job s t act = Some s'"
  with inv e show ?thesis
    by (intro explains_exec [of d sj srv sh job s t act s' ver at]) (auto simp: explainable_def)
next
  fix w assume w: "s' = s\<lparr>cy_world := w\<rparr>" "env (cy_world s) w"
  have "explains job ver n v h s'"
    by (rule explains_quiet [OF e]) (use inv w in \<open>auto simp: explainable_def\<close>)
  then show ?thesis by (intro exI [of _ "[]"] exI [of _ v]) simp
qed

interpretation cs: history_simulation "commit_step d sj srv sh job n env" "spec_exec job"
  "explainable d ver at job sh n env" "explains job ver n"
  for d sj srv sh job n env ver at
  by unfold_locales (erule (1) explainable_step, erule (2) explains_step)

lemma commit_run_steps:
  "commit_run d sj srv sh job s acts = Some s' \<Longrightarrow> list_all (\<lambda>(t, act). t < n) acts \<Longrightarrow>
     (commit_step d sj srv sh job n env)\<^sup>*\<^sup>* s s'"
proof (induction acts arbitrary: s)
  case (Cons p acts)
  obtain t act where p: "p = (t, act)" by (cases p)
  with Cons.prems obtain s1 where s1: "commit_exec d sj srv sh job s t act = Some s1"
    "commit_run d sj srv sh job s1 acts = Some s'"
    by (auto split: option.splits)
  have "commit_step d sj srv sh job n env s s1"
    using s1(1) Cons.prems(2) p by (auto intro: handler_step)
  then show ?case using Cons.IH [OF s1(2)] Cons.prems(2) by (auto intro: converse_rtranclp_into_rtranclp)
qed simp

lemma explained_run:
  assumes "(commit_step d sj srv sh job n env)\<^sup>*\<^sup>* (commit_init w) s"
    and "(commit_step d sj srv sh job n env)\<^sup>*\<^sup>* s s'"
    and "n < 2 ^ 64" and "log_contract d ver at"
    and "\<And>w w' t. env w w' \<Longrightarrow> t < n \<Longrightarrow> ver w' (job_url (job t)) = ver w (job_url (job t))"
  obtains h v h' v' where
    "runs (spec_exec job) h (ver w) = Some v" "explains job ver n v h s"
    "runs (spec_exec job) h' v = Some v'" "explains job ver n v' (h @ h') s'"
proof -
  have i: "explainable d ver at job sh n env (commit_init w)"
    by (rule explainable_init [OF assms(3-5)])
  obtain h v where h: "runs (spec_exec job) h (ver w) = Some v" "explains job ver n v h s"
    using cs.steps_simulated [OF assms(1) i explains_init] by auto
  with cs.steps_simulated [OF assms(2) cs.steps_invariant [OF assms(1) i] h(2)] that
  show thesis by blast
qed

section \<open>Properties\<close>

text \<open>
  Property C2 (commits_are_linearizable). Concurrent commits are linearizable: at any moment \<open>s\<close> of a
  run there is a history of atomic commits, legal from the initial versions of the tables, that
  explains the versions in storage and every answer given so far; at a later moment \<open>s'\<close> the history
  is an extension of the same one, so that a commit answered before another has begun comes before
  it. This includes commits whose client has gone away and commits that were answered with an error
  of the storage although they landed. It holds for any number of handlers and any scheduling, as
  long as no other process writes the tables.
\<close>

theorem commits_are_linearizable:
  assumes "(commit_step d sj srv sh job n env)\<^sup>*\<^sup>* (commit_init w) s"
    and "(commit_step d sj srv sh job n env)\<^sup>*\<^sup>* s s'"
    and "n < 2 ^ 64" and "log_contract d ver at"
    and "\<And>w w' t. env w w' \<Longrightarrow> t < n \<Longrightarrow> ver w' (job_url (job t)) = ver w (job_url (job t))"
  shows "\<exists>h v h' v'. runs (spec_exec job) h (ver w) = Some v \<and> explains job ver n v h s
    \<and> runs (spec_exec job) h' v = Some v' \<and> explains job ver n v' (h @ h') s'"
  using explained_run [OF assms] by metis

text \<open>
  Property C22 (later_commits_get_later_versions). A commit that begins after another one to the same
  table was answered with success gets a larger version number, for tables with fewer than \<open>2^63\<close>
  versions, with or without expected versions.
\<close>

theorem later_commits_get_later_versions:
  assumes "(commit_step d sj srv sh job n env)\<^sup>*\<^sup>* (commit_init w) s"
    and "(commit_step d sj srv sh job n env)\<^sup>*\<^sup>* s s'"
    and "n < 2 ^ 64" and "log_contract d ver at"
    and "\<And>w w' t. env w w' \<Longrightarrow> t < n \<Longrightarrow> ver w' (job_url (job t)) = ver w (job_url (job t))"
    and "cy_phase s t = CDone (Ok r)" and "cy_phase s t' = CWaiting"
    and "cy_phase s' t' = CDone (Ok r')" and "job_url (job t) = job_url (job t')"
    and "\<And>m. ver (cy_world s') (job_url (job t')) = Some m \<Longrightarrow> m < 2 ^ 63"
  shows "sint (committed_version r) < sint (committed_version r')"
proof -
  let ?u = "job_url (job t')"
  obtain h v h' v' where
    h: "runs (spec_exec job) h (ver w) = Some v" "explains job ver n v h s"
    and h': "runs (spec_exec job) h' v = Some v'" "explains job ver n v' (h @ h') s'"
    using explained_run [OF assms(1-5)] by blast
  obtain k where k: "Landed t k \<in> set h" "committed_version r = of_nat k"
    using explainsD(4) [OF h(2) assms(6)] by blast
  obtain k' where k': "Landed t' k' \<in> set (h @ h')" "committed_version r' = of_nat k'"
    using explainsD(4) [OF h'(2) assms(8)] by blast
  then have later: "Landed t' k' \<in> set h'"
    using explainsD(3) [OF h(2) assms(7)] by force
  have "t' < n" using explainsD(2) [OF h'(2) k'(1)] by simp
  obtain m where "v ?u = Some m" "k \<le> m"
    using spec_landed [OF h(1) k(1)] assms(9) by auto
  then have "k < k'" using spec_landed [OF h'(1) later] by fastforce
  obtain m' where "v' ?u = Some m'" "k' \<le> m'"
    using spec_landed [OF h'(1) later] by blast
  then have "k' < 2 ^ 63"
    using assms(10) [of m'] explainsD(1) [OF h'(2) \<open>t' < n\<close>] by simp
  have "sint (of_nat x :: i64) = int x" if "x < 2 ^ 63" for x
    using that by (simp add: signed_of_nat signed_take_bit_int_eq_self)
  with \<open>k < k'\<close> \<open>k' < 2 ^ 63\<close> k(2) k'(2) show ?thesis by simp
qed


section \<open>Witnesses\<close>

text \<open>
  Two commits without an expected version: task 1 begins after task 0 was answered, and gets the next
  version.
\<close>

definition free_job :: "task \<Rightarrow> (sample_number, sample_doc, sample_doc) job" where
  "free_job t = \<lparr>job_url = ''s3://b/t'', job_expected = None, job_actions = []\<rparr>"

definition section_schedule :: "task \<Rightarrow> (task \<times> commit_action) list" where
  "section_schedule t =
     [(t, LockAction (Enter ''s3://b/t'')), (t, LockAction FetchAdd), (t, LockAction Acquire),
      (t, CheckExists), (t, Open)]"

abbreviation free_run where
  "free_run \<equiv> commit_run sample_store sample_sj0 sample_server (\<lambda>_. 0) free_job"

abbreviation free_steps where
  "free_steps \<equiv>
     (commit_step sample_store sample_sj0 sample_server (\<lambda>_. 0) free_job 2 (=))\<^sup>*\<^sup>*"

lemmas sample_run_eval = section_schedule_def commit_init_def lock_sys_init_def
  lock_manager_default_def lock_mem.defs lock_mem_defs goto_def sample_job_def free_job_def
  sample_store_eval ok_or_def check_expected_version_def commit_actions_def sample_server_def Let_def

lemma free_run_ends:
  obtains s s' where "free_steps (commit_init (sample_world_at 3)) s" "free_steps s s'"
    "cy_phase s 0 = CDone (Ok \<lparr>committed_version = 4\<rparr>)" "cy_phase s 1 = CWaiting"
    "cy_phase s' 1 = CDone (Ok \<lparr>committed_version = 5\<rparr>)" "cy_world s' = sample_world_at 5"
proof -
  obtain s s' where
    s: "free_run (commit_init (sample_world_at 3)) (section_schedule 0 @ [(0, Write)]) = Some s"
    and s': "free_run s ((0, LockAction Release) # section_schedule 1 @ [(1, Write)]) = Some s'"
    and "cy_phase s 0 = CDone (Ok \<lparr>committed_version = 4\<rparr>)" "cy_phase s 1 = CWaiting"
    "cy_phase s' 1 = CDone (Ok \<lparr>committed_version = 5\<rparr>)" "cy_world s' = sample_world_at 5"
    by (simp add: sample_run_eval)
  moreover have "free_steps (commit_init (sample_world_at 3)) s" "free_steps s s'"
    by (rule commit_run_steps [OF s] commit_run_steps [OF s'], simp add: section_schedule_def)+
  ultimately show thesis using that by blast
qed

theorem commits_are_linearizable_witness:
  "\<exists>s s' h v h' v'. free_steps (commit_init (sample_world_at 3)) s \<and> free_steps s s'
     \<and> cy_phase s 0 = CDone (Ok \<lparr>committed_version = 4\<rparr>)
     \<and> cy_phase s' 1 = CDone (Ok \<lparr>committed_version = 5\<rparr>)
     \<and> runs (spec_exec free_job) h (sample_ver (sample_world_at 3)) = Some v
     \<and> explains free_job sample_ver 2 v h s
     \<and> runs (spec_exec free_job) h' v = Some v' \<and> explains free_job sample_ver 2 v' (h @ h') s'"
proof -
  obtain s s' where r: "free_steps (commit_init (sample_world_at 3)) s" "free_steps s s'"
    and p: "cy_phase s 0 = CDone (Ok \<lparr>committed_version = 4\<rparr>)"
    "cy_phase s' 1 = CDone (Ok \<lparr>committed_version = 5\<rparr>)"
    by (rule free_run_ends)
  have "\<exists>h v h' v'. runs (spec_exec free_job) h (sample_ver (sample_world_at 3)) = Some v
      \<and> explains free_job sample_ver 2 v h s
      \<and> runs (spec_exec free_job) h' v = Some v' \<and> explains free_job sample_ver 2 v' (h @ h') s'"
    by (rule commits_are_linearizable [OF r _ sample_log_contract]) auto
  with r p show ?thesis by blast
qed

theorem later_commits_get_later_versions_witness:
  "\<exists>s s'. free_steps (commit_init (sample_world_at 3)) s \<and> free_steps s s'
     \<and> cy_phase s 0 = CDone (Ok \<lparr>committed_version = 4\<rparr>) \<and> cy_phase s 1 = CWaiting
     \<and> cy_phase s' 1 = CDone (Ok \<lparr>committed_version = 5\<rparr>) \<and> sint (4 :: i64) < sint (5 :: i64)"
proof -
  obtain s s' where r: "free_steps (commit_init (sample_world_at 3)) s" "free_steps s s'"
    and p: "cy_phase s 0 = CDone (Ok \<lparr>committed_version = 4\<rparr>)" "cy_phase s 1 = CWaiting"
    "cy_phase s' 1 = CDone (Ok \<lparr>committed_version = 5\<rparr>)" and w: "cy_world s' = sample_world_at 5"
    by (rule free_run_ends)
  have "sint (committed_version \<lparr>committed_version = 4\<rparr>)
      < sint (committed_version \<lparr>committed_version = 5\<rparr>)"
    by (rule later_commits_get_later_versions [OF r _ sample_log_contract _ p])
      (auto simp: w free_job_def sample_ver_def sample_log_at_def)
  with r p show ?thesis by auto
qed


end
