(* ===== verification/Commit_Progress.thy ===== *)
theory Commit_Progress
  imports Commit_System
begin

section \<open>Concurrent commits end\<close>

text \<open>
  The system of \<open>Commit_System\<close> cannot run for ever or stop half-way: every action of a handler
  lowers a rank, whatever other processes do to the world in between, and while some commit is
  neither answered nor cancelled some handler can go on without being cancelled. Nothing is assumed
  of storage but that its calls return.
\<close>

text \<open>An action of a handler, or a change of the world by another process.\<close>

datatype 'w commit_event = Handler task commit_action | World 'w

fun commit_event_exec ::
  "('w, 'n, 'p, 'm, 'b, 't, 'l, 's, 'c, 'v) store \<Rightarrow> ('n, 'z) serde_scheme \<Rightarrow> server
     \<Rightarrow> (string \<Rightarrow> nat) \<Rightarrow> (task \<Rightarrow> ('n, 'p, 'm) job) \<Rightarrow> nat \<Rightarrow> ('w \<Rightarrow> 'w \<Rightarrow> bool)
     \<Rightarrow> ('w, 't) commit_sys \<Rightarrow> 'w commit_event \<Rightarrow> ('w, 't) commit_sys option" where
  "commit_event_exec d sj srv sh job n env s (Handler t act) =
     (if t < n then commit_exec d sj srv sh job s t act else None)"
| "commit_event_exec d sj srv sh job n env s (World w) =
     (if env (cy_world s) w then Some (s\<lparr>cy_world := w\<rparr>) else None)"

text \<open>
  The handler's future is dropped while it waits for the lock or at an await of the section. The
  actions that remain without such cancellations.
\<close>

fun cancels :: "'t commit_phase \<Rightarrow> commit_action \<Rightarrow> bool" where
  "cancels ph (LockAction Release) = in_section ph"
| "cancels ph (LockAction DropLock) = (ph = CWaiting)"
| "cancels ph Abandon = True"
| "cancels ph act = False"

fun uncancelled_exec ::
  "('w, 'n, 'p, 'm, 'b, 't, 'l, 's, 'c, 'v) store \<Rightarrow> ('n, 'z) serde_scheme \<Rightarrow> server
     \<Rightarrow> (string \<Rightarrow> nat) \<Rightarrow> (task \<Rightarrow> ('n, 'p, 'm) job) \<Rightarrow> nat \<Rightarrow> ('w \<Rightarrow> 'w \<Rightarrow> bool)
     \<Rightarrow> ('w, 't) commit_sys \<Rightarrow> 'w commit_event \<Rightarrow> ('w, 't) commit_sys option" where
  "uncancelled_exec d sj srv sh job n env s (Handler t act) =
     (if cancels (cy_phase s t) act then None
      else commit_event_exec d sj srv sh job n env s (Handler t act))"
| "uncancelled_exec d sj srv sh job n env s (World w) =
     commit_event_exec d sj srv sh job n env s (World w)"

fun is_handler :: "'w commit_event \<Rightarrow> bool" where
  "is_handler (Handler t act) = True"
| "is_handler (World w) = False"

fun settled :: "'t commit_phase \<Rightarrow> bool" where
  "settled (CDone r) = True"
| "settled CCancelled = True"
| "settled ph = False"

section \<open>Lemmas\<close>

subsection \<open>Position in the lock protocol and phase of the handler\<close>

fun phase_fits :: "lock_pc \<Rightarrow> 't commit_phase \<Rightarrow> bool" where
  "phase_fits Idle ph = (ph = CWaiting \<or> settled ph)"
| "phase_fits (Entered k a) ph = (ph = CWaiting)"
| "phase_fits (Waiting k a) ph = (ph = CWaiting)"
| "phase_fits (Holding k a) ph = (in_section ph \<or> settled ph)"
| "phase_fits pc ph = settled ph"

definition progress_inv :: "(string \<Rightarrow> nat) \<Rightarrow> nat \<Rightarrow> ('w, 't) commit_sys \<Rightarrow> bool" where
  "progress_inv sh n s \<longleftrightarrow>
     n < 2 ^ 64 \<and> lock_inv sh n (cy_locks s) \<and>
     (\<forall>t. phase_fits (pcs (cy_locks s) t) (cy_phase s t))"

lemma settled_section: "settled ph \<Longrightarrow> \<not> in_section ph"
  by (cases ph) auto

fun phase_rank :: "'t commit_phase \<Rightarrow> nat" where
  "phase_rank CWaiting = 4"
| "phase_rank CSection = 3"
| "phase_rank COpen = 2"
| "phase_rank CCreate = 1"
| "phase_rank (COpened table) = 1"
| "phase_rank ph = 0"

definition handler_rank :: "lock_pc \<Rightarrow> 't commit_phase \<Rightarrow> nat" where
  "handler_rank pc ph =
     (if pc = Idle \<and> ph = CWaiting then 11 else lock_rank pc + phase_rank ph)"

definition commit_rank :: "nat \<Rightarrow> ('w, 't) commit_sys \<Rightarrow> nat" where
  "commit_rank n s = (\<Sum>t<n. handler_rank (pcs (cy_locks s) t) (cy_phase s t))"

text \<open>A section that runs goes on: storage answers and the phase moves towards an answer.\<close>

lemma section_exec:
  assumes "commit_exec d sj srv sh job s t act = Some s'" "\<And>lact. act \<noteq> LockAction lact"
  obtains ph w where "s' = goto t ph w s" "in_section (cy_phase s t)"
    "phase_rank ph < phase_rank (cy_phase s t)" "in_section ph \<or> settled ph"
    "act \<noteq> Abandon \<Longrightarrow> ph \<noteq> CCancelled"
  using assms
  by (cases act) (auto split: commit_phase.splits prod.splits result.splits)

lemma section_moves:
  assumes "in_section (cy_phase s t)"
  shows "\<exists>act s'. commit_exec d sj srv sh job s t act = Some s' \<and> \<not> cancels (cy_phase s t) act
    \<and> (\<forall>k. act \<noteq> LockAction (Enter k))"
proof (cases "cy_phase s t")
  case CSection
  then have "\<exists>s'. commit_exec d sj srv sh job s t CheckExists = Some s'"
    by (simp split: prod.split result.split)
  then show ?thesis by (meson cancels.simps commit_action.distinct)
next
  case CCreate
  then have "\<exists>s'. commit_exec d sj srv sh job s t Create = Some s'"
    by (simp split: prod.split)
  then show ?thesis by (meson cancels.simps commit_action.distinct)
next
  case COpen
  then have "\<exists>s'. commit_exec d sj srv sh job s t Open = Some s'"
    by (simp split: prod.split result.split)
  then show ?thesis by (meson cancels.simps commit_action.distinct)
next
  case (COpened tab)
  then have "\<exists>s'. commit_exec d sj srv sh job s t Write = Some s'"
    by (simp split: prod.split result.split)
  then show ?thesis by (meson cancels.simps commit_action.distinct)
qed (use assms in auto)

lemma lock_action_fits:
  assumes "lock_phase url ph act = Some ph'" "lock_exec sh l t act = Some l'"
    and "phase_fits (pcs l t) ph"
  shows "phase_fits (pcs l' t) ph'"
    and "handler_rank (pcs l' t) ph' < handler_rank (pcs l t) ph"
  using assms
  by (cases act; auto simp: lock_mem_defs Let_def handler_rank_def
      split: lock_pc.splits if_splits option.splits commit_phase.splits)+

subsection \<open>Every action keeps the invariant and lowers the rank\<close>

text \<open>What an action of a handler does: to its own position and phase, and to nobody else's.\<close>

lemma commit_exec_moves:
  assumes ex: "commit_exec d sj srv sh job s t act = Some s'"
    and inv: "progress_inv sh n s" and t: "t < n"
  shows "lock_inv sh n (cy_locks s')"
    and "phase_fits (pcs (cy_locks s') t) (cy_phase s' t)"
    and "handler_rank (pcs (cy_locks s') t) (cy_phase s' t)
           < handler_rank (pcs (cy_locks s) t) (cy_phase s t)"
    and "u \<noteq> t \<Longrightarrow> pcs (cy_locks s') u = pcs (cy_locks s) u \<and> cy_phase s' u = cy_phase s u"
proof -
  have li: "n < 2 ^ 64 \<and> lock_inv sh n (cy_locks s)"
    and fits: "phase_fits (pcs (cy_locks s) t) (cy_phase s t)"
    using inv by (auto simp: progress_inv_def)
  have all: "lock_inv sh n (cy_locks s') \<and> phase_fits (pcs (cy_locks s') t) (cy_phase s' t)
    \<and> handler_rank (pcs (cy_locks s') t) (cy_phase s' t)
         < handler_rank (pcs (cy_locks s) t) (cy_phase s t)
    \<and> (u \<noteq> t \<longrightarrow> pcs (cy_locks s') u = pcs (cy_locks s) u \<and> cy_phase s' u = cy_phase s u)"
  proof (cases "\<exists>lact. act = LockAction lact")
    case True
    then obtain lact where act: "act = LockAction lact" by blast
    then obtain ph l where l: "lock_phase (job_url (job t)) (cy_phase s t) lact = Some ph"
        "lock_exec sh (cy_locks s) t lact = Some l" "s' = goto t ph (cy_world s) (s\<lparr>cy_locks := l\<rparr>)"
      using ex by (auto split: option.splits)
    have "lock_inv sh n l" using tm.keeps [OF li t l(2)] by simp
    with lock_action_fits [OF l(1,2) fits] lock_exec_others [OF l(2), of u] show ?thesis
      by (simp add: l(3))
  next
    case False
    then obtain ph w where "s' = goto t ph w s" "in_section (cy_phase s t)"
        "phase_rank ph < phase_rank (cy_phase s t)" "in_section ph \<or> settled ph"
      using section_exec [OF ex] by blast
    with li fits show ?thesis
      by (cases "pcs (cy_locks s) t") (auto simp: handler_rank_def dest: settled_section)
  qed
  then show "lock_inv sh n (cy_locks s')"
    and "phase_fits (pcs (cy_locks s') t) (cy_phase s' t)"
    and "handler_rank (pcs (cy_locks s') t) (cy_phase s' t)
           < handler_rank (pcs (cy_locks s) t) (cy_phase s t)"
    and "u \<noteq> t \<Longrightarrow> pcs (cy_locks s') u = pcs (cy_locks s) u \<and> cy_phase s' u = cy_phase s u"
    by blast+
qed

lemma progress_inv_event:
  assumes "progress_inv sh n s" "commit_event_exec d sj srv sh job n env s ev = Some s'"
  shows "progress_inv sh n s'"
proof (cases ev)
  case (Handler t act)
  then have ex: "commit_exec d sj srv sh job s t act = Some s'" and t: "t < n"
    using assms(2) by (auto split: if_splits)
  note moves = commit_exec_moves [OF ex assms(1) t]
  have "phase_fits (pcs (cy_locks s') u) (cy_phase s' u)" for u
    using moves(2) moves(4) [of u] assms(1) by (cases "u = t") (auto simp: progress_inv_def)
  with moves(1) assms(1) show ?thesis by (simp add: progress_inv_def)
qed (use assms in \<open>auto simp: progress_inv_def split: if_splits\<close>)

lemma commit_rank_event:
  assumes "progress_inv sh n s" "commit_event_exec d sj srv sh job n env s ev = Some s'"
  shows "of_bool (is_handler ev) + commit_rank n s' \<le> commit_rank n s"
proof (cases ev)
  case (Handler t act)
  then have ex: "commit_exec d sj srv sh job s t act = Some s'" and t: "t < n"
    using assms(2) by (auto split: if_splits)
  note moves = commit_exec_moves [OF ex assms(1) t]
  have "commit_rank n s' < commit_rank n s"
    unfolding commit_rank_def
  proof (rule sum_strict_mono_ex1)
    show "\<forall>u\<in>{..<n}. handler_rank (pcs (cy_locks s') u) (cy_phase s' u)
        \<le> handler_rank (pcs (cy_locks s) u) (cy_phase s u)"
      using moves(3,4) by (metis order.refl order.strict_implies_order)
    show "\<exists>u\<in>{..<n}. handler_rank (pcs (cy_locks s') u) (cy_phase s' u)
        < handler_rank (pcs (cy_locks s) u) (cy_phase s u)"
      using moves(3) t by blast
  qed simp
  with Handler show ?thesis by simp
qed (use assms(2) in \<open>auto simp: commit_rank_def split: if_splits\<close>)

interpretation ce: ranked_system "commit_event_exec d sj srv sh job n env" "progress_inv sh n"
  "\<lambda>ev. of_bool (is_handler ev)" "commit_rank n"
  by unfold_locales (erule (1) progress_inv_event, erule (1) commit_rank_event)

lemma uncancelled_event:
  "uncancelled_exec d sj srv sh job n env s ev = Some s' \<Longrightarrow>
     commit_event_exec d sj srv sh job n env s ev = Some s'"
  by (cases ev) (auto split: if_splits)

interpretation cu: ranked_system "uncancelled_exec d sj srv sh job n env" "progress_inv sh n"
  "\<lambda>ev. of_bool (is_handler ev)" "commit_rank n"
  by unfold_locales
    (erule progress_inv_event, erule uncancelled_event,
      erule commit_rank_event, erule uncancelled_event)

lemma progress_inv_init: "n < 2 ^ 64 \<Longrightarrow> progress_inv sh n (commit_init w)"
  by (simp add: progress_inv_def commit_init_def lock_inv_init lock_sys_init_idle)

lemma commit_rank_init: "commit_rank n (commit_init w) = 11 * n"
  by (simp add: commit_rank_def commit_init_def lock_sys_init_idle handler_rank_def)

subsection \<open>Some handler can go on\<close>

text \<open>When the commits that have begun cannot go on, they have all ended.\<close>

lemma begun_progress:
  assumes inv: "progress_inv sh n s"
    and stuck: "\<And>t act. \<not> cancels (cy_phase s t) act \<Longrightarrow> t < n \<Longrightarrow>
      (\<And>k. act \<noteq> LockAction (Enter k)) \<Longrightarrow> commit_exec d sj srv sh job s t act = None"
  shows "pcs (cy_locks s) t = Idle"
proof -
  have li: "lock_inv sh n (cy_locks s)"
    and fits: "phase_fits (pcs (cy_locks s) u) (cy_phase s u)" for u
    using inv by (auto simp: progress_inv_def)
  have no_section: "\<not> in_section (cy_phase s u)" if u: "u < n" for u
  proof
    assume "in_section (cy_phase s u)"
    then obtain act s' where "commit_exec d sj srv sh job s u act = Some s'"
      "\<not> cancels (cy_phase s u) act" "\<And>k. act \<noteq> LockAction (Enter k)"
      using section_moves by metis
    with stuck [OF _ u, of act] show False by simp
  qed
  show ?thesis
  proof (rule ccontr)
    assume "pcs (cy_locks s) t \<noteq> Idle"
    then obtain v act l where v: "v < n" "lock_exec sh (cy_locks s) v act = Some l"
        "\<And>k. act \<noteq> Enter k" "act = DropLock \<Longrightarrow> \<exists>k a. pcs (cy_locks s) v = Unlocked k a"
      using lock_inv_progress [OF li] by blast
    have "\<not> cancels (cy_phase s v) (LockAction act)"
      using v(4) fits [of v] no_section [OF v(1)] by (cases act) auto
    moreover have "\<exists>ph. lock_phase (job_url (job v)) (cy_phase s v) act = Some ph"
      using v(2,3) fits [of v]
      by (cases act) (auto split: lock_pc.splits commit_phase.splits)
    ultimately show False using stuck [of v "LockAction act"] v(1-3) by auto
  qed
qed

lemma handlers_progress:
  assumes inv: "progress_inv sh n s"
    and stuck: "\<And>t act. \<not> cancels (cy_phase s t) act \<Longrightarrow> t < n \<Longrightarrow>
      commit_exec d sj srv sh job s t act = None"
  shows "pcs (cy_locks s) t = Idle" and "t < n \<Longrightarrow> settled (cy_phase s t)"
proof -
  have li: "lock_inv sh n (cy_locks s)"
    and fits: "phase_fits (pcs (cy_locks s) u) (cy_phase s u)" for u
    using inv by (auto simp: progress_inv_def)
  have idle: "pcs (cy_locks s) u = Idle" for u
    by (rule begun_progress [OF inv stuck])
  then show "pcs (cy_locks s) t = Idle" .
  assume t: "t < n"
  show "settled (cy_phase s t)"
  proof (rule ccontr)
    assume "\<not> settled (cy_phase s t)"
    then have "cy_phase s t = CWaiting" using fits [of t] idle [of t] by simp
    moreover have "shard (cy_locks s) i = None" for i
      using shards_okD(2) [of sh "cy_locks s" i] li idle
      by (cases "shard (cy_locks s) i") (auto simp: lock_inv_def)
    ultimately show False
      using stuck [of t "LockAction (Enter (job_url (job t)))"] t idle [of t]
      by (auto simp: Let_def split: prod.splits)
  qed
qed

text \<open>Without cancellations no commit becomes cancelled.\<close>

lemma uncancelled_keeps:
  assumes inv: "progress_inv sh n s" and ex: "uncancelled_exec d sj srv sh job n env s ev = Some s'"
    and "cy_phase s' t = CCancelled"
  shows "cy_phase s t = CCancelled"
proof (cases ev)
  case (Handler u act)
  then have ex': "commit_exec d sj srv sh job s u act = Some s'" and u: "u < n"
    and nc: "\<not> cancels (cy_phase s u) act"
    using ex by (auto split: if_splits)
  have fits: "phase_fits (pcs (cy_locks s) u) (cy_phase s u)"
    using inv by (simp add: progress_inv_def)
  show ?thesis
  proof (cases "u = t")
    case True
    show ?thesis
    proof (cases act)
      case (LockAction lact)
      with ex' nc fits True assms(3) show ?thesis
        by (cases lact)
          (auto split: option.splits if_splits commit_phase.splits lock_pc.splits)
    qed (use section_exec [OF ex'] True assms(3) nc in \<open>fastforce simp del: commit_exec.simps\<close>)+
  next
    case False
    with commit_exec_moves(4) [OF ex' inv u, of t] assms(3) show ?thesis by simp
  qed
qed (use ex assms(3) in \<open>auto split: if_splits\<close>)

lemma uncancelled_runs:
  "progress_inv sh n s \<Longrightarrow> runs (uncancelled_exec d sj srv sh job n env) evs s = Some s' \<Longrightarrow>
     cy_phase s' t = CCancelled \<Longrightarrow> cy_phase s t = CCancelled"
proof (induction evs arbitrary: s)
  case (Cons ev evs)
  then obtain s1 where s1: "uncancelled_exec d sj srv sh job n env s ev = Some s1"
      "runs (uncancelled_exec d sj srv sh job n env) evs s1 = Some s'"
    by (auto split: option.splits)
  have "progress_inv sh n s1" by (rule cu.invariant_exec [OF Cons.prems(1) s1(1)])
  from Cons.IH [OF this s1(2) Cons.prems(3)] show ?case
    by (rule uncancelled_keeps [OF Cons.prems(1) s1(1)])
qed simp

section \<open>Property\<close>

text \<open>
  Property C6 (concurrent_commits_terminate). However \<open>n\<close> commit handlers of a process interleave,
  and whatever other processes write in between, the handlers make at most eleven actions each. When
  no handler can go on any more, every commit is answered or was cancelled, every task has given its
  handle back and the lock map is empty. And from every state they can go on, without a further
  cancellation, until every commit that was not cancelled has its answer.
\<close>

theorem concurrent_commits_terminate:
  assumes "n < 2 ^ 64"
    and "runs (commit_event_exec d sj srv sh job n env) evs (commit_init w) = Some s"
  shows "length (filter is_handler evs) \<le> 11 * n
    \<and> ((\<forall>ev. is_handler ev \<longrightarrow> uncancelled_exec d sj srv sh job n env s ev = None) \<longrightarrow>
         (\<forall>t<n. settled (cy_phase s t) \<and> pcs (cy_locks s) t = Idle)
         \<and> locks (cy_locks s) = Map.empty)
    \<and> (\<exists>more s'. runs (uncancelled_exec d sj srv sh job n env) more s = Some s'
         \<and> (\<forall>t<n. (\<exists>r. cy_phase s' t = CDone r) \<or> cy_phase s t = CCancelled)
         \<and> locks (cy_locks s') = Map.empty)"
proof -
  have inv: "progress_inv sh n s"
    by (rule ce.runs_invariant [OF progress_inv_init [OF assms(1)] assms(2)])
  have stop: "(\<forall>t<n. settled (cy_phase s' t) \<and> pcs (cy_locks s') t = Idle)
      \<and> locks (cy_locks s') = Map.empty"
    if "progress_inv sh n s'"
      "\<forall>ev. is_handler ev \<longrightarrow> uncancelled_exec d sj srv sh job n env s' ev = None" for s'
  proof -
    have "commit_exec d sj srv sh job s' t act = None" if "\<not> cancels (cy_phase s' t) act" "t < n" for t act
      using \<open>\<forall>ev. is_handler ev \<longrightarrow> _\<close> [rule_format, of "Handler t act"] that by simp
    note idle = handlers_progress [OF \<open>progress_inv sh n s'\<close> this]
    have "lock_inv sh n (cy_locks s')" using that(1) by (simp add: progress_inv_def)
    with idle show ?thesis by (simp add: quiescent_map_empty)
  qed
  have "(\<Sum>ev\<leftarrow>evs. of_bool (is_handler ev)) + commit_rank n s \<le> 11 * n"
    using ce.runs_bounded [OF progress_inv_init [OF assms(1)] assms(2)]
    by (simp add: commit_rank_init)
  moreover have "(\<Sum>ev\<leftarrow>evs. of_bool (is_handler ev)) = length (filter is_handler evs)"
    by (induction evs) auto
  moreover have "\<exists>more s'. runs (uncancelled_exec d sj srv sh job n env) more s = Some s'
         \<and> (\<forall>t<n. (\<exists>r. cy_phase s' t = CDone r) \<or> cy_phase s t = CCancelled)
         \<and> locks (cy_locks s') = Map.empty"
  proof -
    obtain more s' where more: "runs (uncancelled_exec d sj srv sh job n env) more s = Some s'"
      and none: "\<forall>ev. is_handler ev \<longrightarrow> uncancelled_exec d sj srv sh job n env s' ev = None"
      using cu.runs_end [OF inv, of d sj srv job env] by auto
    note st = stop [OF cu.runs_invariant [OF inv more] none]
    have "(\<exists>r. cy_phase s' t = CDone r) \<or> cy_phase s t = CCancelled" if "t < n" for t
      using st that uncancelled_runs [OF inv more, of t] by (cases "cy_phase s' t") auto
    with more st show ?thesis by blast
  qed
  ultimately show ?thesis
    using stop [OF inv] by auto
qed

text \<open>Two commits to one table; another process commits while the first is about to take the lock.\<close>

abbreviation sample_events where
  "sample_events \<equiv>
     [Handler 0 (LockAction (Enter ''s3://b/t'')), World (sample_world_at 4),
      Handler 0 (LockAction FetchAdd), Handler 0 (LockAction Acquire)]"

theorem concurrent_commits_terminate_witness:
  "\<exists>s more s'. runs (commit_event_exec sample_store sample_sj0 sample_server (\<lambda>_. 0) sample_job 2
         (\<lambda>_ _. True)) sample_events (commit_init (sample_world_at 3)) = Some s
     \<and> cy_phase s 0 = CSection
     \<and> runs (uncancelled_exec sample_store sample_sj0 sample_server (\<lambda>_. 0) sample_job 2
         (\<lambda>_ _. True)) more s = Some s'
     \<and> (\<exists>r. cy_phase s' 0 = CDone r) \<and> (\<exists>r. cy_phase s' 1 = CDone r)
     \<and> locks (cy_locks s') = Map.empty"
proof -
  obtain s where s: "runs (commit_event_exec sample_store sample_sj0 sample_server (\<lambda>_. 0) sample_job 2
         (\<lambda>_ _. True)) sample_events (commit_init (sample_world_at 3)) = Some s"
    and ph: "cy_phase s 0 = CSection" "cy_phase s 1 = CWaiting"
    by (simp add: commit_init_def lock_sys_init_def lock_manager_default_def lock_mem.defs
        lock_mem_defs goto_def sample_job_def Let_def)
  have two: "(2 :: nat) < 2 ^ 64" by simp
  from concurrent_commits_terminate [OF two s] obtain more s' where
    more: "runs (uncancelled_exec sample_store sample_sj0 sample_server (\<lambda>_. 0) sample_job 2
         (\<lambda>_ _. True)) more s = Some s'"
    and answered: "\<forall>t<2. (\<exists>r. cy_phase s' t = CDone r) \<or> cy_phase s t = CCancelled"
    and "locks (cy_locks s') = Map.empty"
    by blast
  moreover have "\<exists>r. cy_phase s' 0 = CDone r" "\<exists>r. cy_phase s' 1 = CDone r"
    using answered ph by (auto simp: less_2_cases_iff)
  ultimately show ?thesis using s ph by blast
qed

end
