(* ===== verification/Table_Independence.thy ===== *)
theory Table_Independence
  imports Commit_Progress
begin

section \<open>Commits to different tables do not hold each other up\<close>

text \<open>
  The lock is one per table. A commit whose storage call hangs keeps the lock of its own table for as
  long as it hangs; commits to other tables must go on meanwhile. This is shown in the strongest form:
  one handler is run alone from a state in which all the others have stopped for good, each at an
  await. The entries of the lock map of different tables may share a shard of the map, but no await
  is inside a shard section, so that a stopped handler is never in one.
\<close>

text \<open>The uncancelled actions of one handler, all others standing still.\<close>

definition alone_exec ::
  "('w, 'n, 'p, 'm, 'b, 't, 'l, 's, 'c, 'v) store \<Rightarrow> ('n, 'z) serde_scheme \<Rightarrow> server
     \<Rightarrow> (string \<Rightarrow> nat) \<Rightarrow> (task \<Rightarrow> ('n, 'p, 'm) job) \<Rightarrow> nat \<Rightarrow> task
     \<Rightarrow> ('w, 't) commit_sys \<Rightarrow> commit_action \<Rightarrow> ('w, 't) commit_sys option" where
  "alone_exec d sj srv sh job n t s act =
     uncancelled_exec d sj srv sh job n (\<lambda>_ _. False) s (Handler t act)"

text \<open>A handler at an await, or not running: it is not in a shard section of the lock map.\<close>

definition at_await :: "('w, 't) commit_sys \<Rightarrow> task \<Rightarrow> bool" where
  "at_await s u \<longleftrightarrow> in_shard (pcs (cy_locks s) u) = None"

section \<open>Lemmas\<close>

text \<open>A handler uses the lock of the table of its job and no other.\<close>

definition keys_ok :: "(task \<Rightarrow> ('n, 'p, 'm) job) \<Rightarrow> ('w, 't) commit_sys \<Rightarrow> bool" where
  "keys_ok job s \<longleftrightarrow>
     (\<forall>t k a. toucher_of (pcs (cy_locks s) t) = Some (k, a) \<longrightarrow> k = job_url (job t))"

lemma lock_exec_key:
  assumes "lock_exec sh l t act = Some l'" "toucher_of (pcs l' t) = Some (k, a)"
    and "\<And>k'. act = Enter k' \<Longrightarrow> k' = u"
    and "\<And>k a. toucher_of (pcs l t) = Some (k, a) \<Longrightarrow> k = u"
  shows "k = u"
  using assms
  by (cases act) (auto simp: lock_mem_defs Let_def split: lock_pc.splits if_splits option.splits)

lemma keys_ok_exec:
  assumes "keys_ok job s" "commit_exec d sj srv sh job s t act = Some s'"
  shows "keys_ok job s'"
proof (cases "\<exists>lact. act = LockAction lact")
  case True
  then obtain lact ph l where l: "act = LockAction lact"
      "lock_phase (job_url (job t)) (cy_phase s t) lact = Some ph"
      "lock_exec sh (cy_locks s) t lact = Some l" "s' = goto t ph (cy_world s) (s\<lparr>cy_locks := l\<rparr>)"
    using assms(2) by (auto split: option.splits)
  have "k = job_url (job u)" if "toucher_of (pcs l u) = Some (k, a)" for u k a
  proof (cases "u = t")
    case True
    show ?thesis
      by (rule lock_exec_key [OF l(3) that [unfolded True], of "job_url (job u)"])
        (use l(2) assms(1) True in \<open>auto simp: keys_ok_def split: if_splits\<close>)
  next
    case False
    with lock_exec_others [OF l(3) False] that assms(1) show ?thesis by (simp add: keys_ok_def)
  qed
  with l(4) show ?thesis by (simp add: keys_ok_def)
next
  case False
  then obtain ph w where "s' = goto t ph w s" using section_exec [OF assms(2)] by blast
  with assms(1) show ?thesis by (simp add: keys_ok_def)
qed

lemma keys_ok_event:
  assumes "keys_ok job s" "commit_event_exec d sj srv sh job n env s ev = Some s'"
  shows "keys_ok job s'"
proof (cases ev)
  case (Handler t act)
  with assms(2) show ?thesis
    by (auto simp del: commit_exec.simps split: if_splits intro: keys_ok_exec [OF assms(1)])
qed (use assms in \<open>auto simp: keys_ok_def split: if_splits\<close>)

lemma keys_ok_init: "keys_ok job (commit_init w)"
  by (simp add: keys_ok_def commit_init_def lock_sys_init_idle)

text \<open>What the handler that runs alone finds: nobody else is in its way.\<close>

definition clear_way ::
  "(string \<Rightarrow> nat) \<Rightarrow> (task \<Rightarrow> ('n, 'p, 'm) job) \<Rightarrow> nat \<Rightarrow> task \<Rightarrow> (task \<Rightarrow> lock_pc)
     \<Rightarrow> (task \<Rightarrow> 't commit_phase) \<Rightarrow> ('w, 't) commit_sys \<Rightarrow> bool" where
  "clear_way sh job n t pc ph s \<longleftrightarrow>
     progress_inv sh n s \<and> keys_ok job s \<and>
     (\<forall>u. u \<noteq> t \<longrightarrow> pcs (cy_locks s) u = pc u \<and> cy_phase s u = ph u \<and> at_await s u
        \<and> \<not> lock_holds (cy_locks s) u (job_url (job t)))"

lemma alone_handler:
  assumes "alone_exec d sj srv sh job n t s act = Some s'"
  shows "commit_exec d sj srv sh job s t act = Some s'" "t < n" "\<not> cancels (cy_phase s t) act"
    "uncancelled_exec d sj srv sh job n env s (Handler t act) = Some s'"
  using assms by (auto simp: alone_exec_def simp del: commit_exec.simps split: if_splits)

lemma clear_way_exec:
  assumes inv: "clear_way sh job n t pc ph s"
    and ex: "alone_exec d sj srv sh job n t s act = Some s'"
  shows "clear_way sh job n t pc ph s'"
    and "handler_rank (pcs (cy_locks s') t) (cy_phase s' t)
      < handler_rank (pcs (cy_locks s) t) (cy_phase s t)"
proof -
  note ex' = alone_handler [OF ex]
  have p: "progress_inv sh n s" and k: "keys_ok job s" using inv by (auto simp: clear_way_def)
  have p': "progress_inv sh n s'"
    by (rule cu.invariant_exec [OF p ex'(4)])
  note moves = commit_exec_moves [OF ex'(1) p ex'(2)]
  have "pcs (cy_locks s') u = pc u \<and> cy_phase s' u = ph u \<and> at_await s' u
      \<and> \<not> lock_holds (cy_locks s') u (job_url (job t))" if "u \<noteq> t" for u
    using moves(4) [OF that] inv that by (metis clear_way_def at_await_def lock_holds_def)
  with p' keys_ok_exec [OF k ex'(1)] show "clear_way sh job n t pc ph s'"
    by (simp add: clear_way_def)
  show "handler_rank (pcs (cy_locks s') t) (cy_phase s' t)
      < handler_rank (pcs (cy_locks s) t) (cy_phase s t)"
    by (rule moves(3))
qed

interpretation al: ranked_system "alone_exec d sj srv sh job n t" "clear_way sh job n t pc ph" "\<lambda>_. 1"
  "\<lambda>s. handler_rank (pcs (cy_locks s) t) (cy_phase s t)"
  for d sj srv sh job n t pc ph
  by unfold_locales (erule (1) clear_way_exec, drule (1) clear_way_exec(2), simp)

lemma alone_runs:
  "runs (alone_exec d sj srv sh job n t) acts s = Some s' \<Longrightarrow>
     runs (uncancelled_exec d sj srv sh job n env) (map (Handler t) acts) s = Some s'"
proof (induction acts arbitrary: s)
  case (Cons act acts)
  then obtain s1 where s1: "alone_exec d sj srv sh job n t s act = Some s1"
      "runs (alone_exec d sj srv sh job n t) acts s1 = Some s'"
    by (auto split: option.splits)
  then show ?case
    by (simp add: Cons.IH alone_handler(4) del: uncancelled_exec.simps)
qed simp

text \<open>With the way clear, the handler can always make its next action.\<close>

lemma clear_way_moves:
  assumes inv: "clear_way sh job n t pc ph s" and t: "t < n"
    and stuck: "\<And>act. alone_exec d sj srv sh job n t s act = None"
  shows "pcs (cy_locks s) t = Idle \<and> settled (cy_phase s t)"
proof -
  have li: "lock_inv sh n (cy_locks s)"
    and fits: "phase_fits (pcs (cy_locks s) t) (cy_phase s t)" and keys: "keys_ok job s"
    using inv by (auto simp: clear_way_def progress_inv_def)
  have none: "commit_exec d sj srv sh job s t act = None" if "\<not> cancels (cy_phase s t) act" for act
    using stuck [of act] that t by (simp add: alone_exec_def)
  have no_section: "\<not> in_section (cy_phase s t)"
    using section_moves [of s t d sj srv sh job] none by force
  have lock: "lock_exec sh (cy_locks s) t act = None"
    if "\<not> cancels (cy_phase s t) (LockAction act)"
      "lock_phase (job_url (job t)) (cy_phase s t) act = Some p" for act p
    using none [OF that(1)] that(2) by (auto split: option.splits)
  have shard: "shard (cy_locks s) i = None \<or> (\<exists>k. in_shard (pcs (cy_locks s) t) = Some k)" for i
    using shards_okD(2) [of sh "cy_locks s" i] li inv
    by (cases "shard (cy_locks s) i") (auto simp: lock_inv_def clear_way_def at_await_def)
  have free: "mutex (heap (cy_locks s) a) = None" if w: "pcs (cy_locks s) t = Waiting k a" for k a
  proof (rule ccontr)
    assume "mutex (heap (cy_locks s) a) \<noteq> None"
    then obtain u l where u: "pcs (cy_locks s) u = Holding l a"
      using li by (auto simp: lock_inv_def mutexes_ok_def)
    have m: "map_ok (cy_locks s)" using li by (simp add: lock_inv_def)
    have "locks (cy_locks s) k = Some a" "locks (cy_locks s) l = Some a"
      using map_okD(1) [OF m, of t k a] map_okD(1) [OF m, of u l a] u w by auto
    then have "l = k" using m by (auto simp: map_ok_def)
    moreover have "k = job_url (job t)" using keys w by (simp add: keys_ok_def)
    ultimately show False using inv u w by (cases "u = t") (auto simp: clear_way_def lock_holds_def)
  qed
  show ?thesis
  proof (cases "pcs (cy_locks s) t")
    case Idle
    then have "cy_phase s t = CWaiting \<or> settled (cy_phase s t)" using fits by simp
    moreover have "cy_phase s t \<noteq> CWaiting"
      using lock [of "Enter (job_url (job t))" CWaiting] Idle shard
      by (auto simp: Let_def split: prod.splits)
    ultimately show ?thesis using Idle by simp
  next
    case (Entered k a)
    then show ?thesis using lock [of FetchAdd "cy_phase s t"] by simp
  next
    case (Waiting k a)
    then show ?thesis using lock [of Acquire CSection] fits free [OF Waiting] by simp
  next
    case (Holding k a)
    then have "settled (cy_phase s t)" using fits no_section by simp
    then show ?thesis
      using lock [of Release] Holding by (cases "cy_phase s t") auto
  next
    case (Unlocked k a)
    then show ?thesis
      using lock [of DropLock "cy_phase s t"] fits by (cases "cy_phase s t") (auto simp: Let_def)
  next
    case (Removing k a)
    then show ?thesis using lock [of CheckUnused "cy_phase s t"] shard by auto
  next
    case (Checked k a)
    then show ?thesis using lock [of Evict "cy_phase s t"] by simp
  qed
qed

lemma handler_rank_bound: "phase_fits pc ph \<Longrightarrow> handler_rank pc ph \<le> 11"
  by (cases pc; cases ph) (auto simp: handler_rank_def)

section \<open>Property\<close>

text \<open>
  Property C7 (only_the_same_table_blocks). A commit waits for commits to its own table only. Take any
  moment \<open>s\<close> of any run, and let all other handlers stop for ever where they are, for example in
  storage calls that never return. If none of them holds the lock of the table of commit \<open>t\<close>, and each
  is at an await or not running, then \<open>t\<close> alone goes on to its answer (unless it was cancelled before)
  and gives its lock back, in at most eleven actions and without any action of the others.
\<close>

theorem only_the_same_table_blocks:
  assumes "n < 2 ^ 64"
    and "runs (commit_event_exec d sj srv sh job n env) evs (commit_init w) = Some s" and "t < n"
    and "\<And>u. u \<noteq> t \<Longrightarrow> at_await s u"
    and "\<And>u. u \<noteq> t \<Longrightarrow> \<not> lock_holds (cy_locks s) u (job_url (job t))"
  shows "\<exists>acts s'. length acts \<le> 11
    \<and> runs (uncancelled_exec d sj srv sh job n env) (map (Handler t) acts) s = Some s'
    \<and> ((\<exists>r. cy_phase s' t = CDone r) \<or> cy_phase s t = CCancelled) \<and> pcs (cy_locks s') t = Idle
    \<and> (\<forall>u. u \<noteq> t \<longrightarrow> pcs (cy_locks s') u = pcs (cy_locks s) u \<and> cy_phase s' u = cy_phase s u)"
proof -
  have p: "progress_inv sh n s"
    by (rule ce.runs_invariant [OF progress_inv_init [OF assms(1)] assms(2)])
  have k: "keys_ok job s"
    by (rule runs_keep [where P = "keys_ok job", OF _ keys_ok_init assms(2)]) (rule keys_ok_event)
  have inv: "clear_way sh job n t (pcs (cy_locks s)) (cy_phase s) s"
    using p k assms(4,5) by (simp add: clear_way_def)
  obtain acts s' where acts: "runs (alone_exec d sj srv sh job n t) acts s = Some s'"
    and stuck: "\<And>act. alone_exec d sj srv sh job n t s' act = None"
    using al.runs_end [OF inv, of d sj srv] by auto
  have inv': "clear_way sh job n t (pcs (cy_locks s)) (cy_phase s) s'"
    by (rule al.runs_invariant [OF inv acts])
  have "length acts \<le> handler_rank (pcs (cy_locks s) t) (cy_phase s t)"
    using al.runs_bounded [OF inv acts] by (simp add: sum_list_triv)
  then have "length acts \<le> 11"
    using handler_rank_bound p by (fastforce simp: progress_inv_def intro: order_trans)
  moreover note run = alone_runs [OF acts, of env]
  moreover have ended: "pcs (cy_locks s') t = Idle" "settled (cy_phase s' t)"
    using clear_way_moves [OF inv' assms(3) stuck] by auto
  moreover have "(\<exists>r. cy_phase s' t = CDone r) \<or> cy_phase s t = CCancelled"
    using ended(2) uncancelled_runs [OF p run, of t] by (cases "cy_phase s' t") auto
  ultimately show ?thesis using inv' by (auto simp: clear_way_def)
qed

text \<open>
  Task 0 hangs in its first storage call, holding the lock of its table; task 1 commits to another
  table whose entry is in the same shard.
\<close>

definition two_tables :: "task \<Rightarrow> (sample_number, sample_doc, sample_doc) job" where
  "two_tables t =
     \<lparr>job_url = (if t = 0 then ''s3://b/t'' else ''s3://b/u''), job_expected = None, job_actions = []\<rparr>"

theorem only_the_same_table_blocks_witness:
  "\<exists>s acts s'. runs (commit_event_exec sample_store sample_sj0 sample_server (\<lambda>_. 0) two_tables 2
         (\<lambda>_ _. True)) sample_events (commit_init (sample_world_at 3)) = Some s
     \<and> cy_phase s 0 = CSection \<and> length acts \<le> 11
     \<and> runs (uncancelled_exec sample_store sample_sj0 sample_server (\<lambda>_. 0) two_tables 2
         (\<lambda>_ _. True)) (map (Handler 1) acts) s = Some s'
     \<and> (\<exists>r. cy_phase s' 1 = CDone r) \<and> cy_phase s' 0 = CSection"
proof -
  obtain s where s: "runs (commit_event_exec sample_store sample_sj0 sample_server (\<lambda>_. 0) two_tables 2
         (\<lambda>_ _. True)) sample_events (commit_init (sample_world_at 3)) = Some s"
    and ph: "cy_phase s 0 = CSection" "cy_phase s 1 = CWaiting"
    and pc: "pcs (cy_locks s) = (\<lambda>u. if u = 0 then Holding ''s3://b/t'' 0 else Idle)"
    by (simp add: commit_init_def lock_sys_init_def lock_manager_default_def lock_mem.defs
        lock_mem_defs goto_def two_tables_def Let_def fun_eq_iff)
  have "\<exists>acts s'. length acts \<le> 11
    \<and> runs (uncancelled_exec sample_store sample_sj0 sample_server (\<lambda>_. 0) two_tables 2
         (\<lambda>_ _. True)) (map (Handler 1) acts) s = Some s'
    \<and> ((\<exists>r. cy_phase s' 1 = CDone r) \<or> cy_phase s 1 = CCancelled) \<and> pcs (cy_locks s') 1 = Idle
    \<and> (\<forall>u. u \<noteq> 1 \<longrightarrow> pcs (cy_locks s') u = pcs (cy_locks s) u \<and> cy_phase s' u = cy_phase s u)"
    by (rule only_the_same_table_blocks [OF _ s])
      (auto simp: at_await_def lock_holds_def pc two_tables_def)
  with s ph show ?thesis by fastforce
qed

end
