(* ===== verification/Concurrent_Reads.thy ===== *)
theory Concurrent_Reads
  imports Active_Files Commit_Progress "HOL-Library.Option_ord"
begin

section \<open>Reads that run beside commits\<close>

text \<open>
  \<open>GetTable\<close> and \<open>ListActiveFiles\<close> take no lock. Here any number of them run between the actions of the
  commits of \<open>Commit_Progress\<close> and the writes of other processes. A read is interleaved at its calls
  to storage: the test whether the table exists, opening it, and for a listing reading the files of
  the opened snapshot. The check of the table URI does not depend on shared state, so a read starts
  with its normalized URL; a listing has in addition the message from which on its client is gone.
\<close>

datatype read_call = ReadTable url | ListFiles url "nat option"

fun read_url :: "read_call \<Rightarrow> url" where
  "read_url (ReadTable u) = u"
| "read_url (ListFiles u gone) = u"

text \<open>How far a read is; the last two are the answers.\<close>

datatype ('t, 's) read_phase =
    RBegun
  | ROpening
  | RListing 't 's "stream_item list"
  | RTable "(get_table_response, status) result"
  | RList "stream_item list"

record ('w, 't, 's) read_sys =
  rd_commits :: "('w, 't) commit_sys"
  rd_phase :: "nat \<Rightarrow> ('t, 's) read_phase"

datatype read_action = ReadExists | ReadOpen | ReadFiles

definition read_init :: "'w \<Rightarrow> ('w, 't, 's) read_sys" where
  "read_init w = \<lparr>rd_commits = commit_init w, rd_phase = (\<lambda>_. RBegun)\<rparr>"

abbreviation rd_world :: "('w, 't, 's) read_sys \<Rightarrow> 'w" where
  "rd_world s \<equiv> cy_world (rd_commits s)"

definition read_goto ::
  "nat \<Rightarrow> ('t, 's) read_phase \<Rightarrow> 'w \<Rightarrow> ('w, 't, 's) read_sys \<Rightarrow> ('w, 't, 's) read_sys" where
  "read_goto r ph w s =
     s\<lparr>rd_commits := (rd_commits s)\<lparr>cy_world := w\<rparr>, rd_phase := (rd_phase s)(r := ph)\<rparr>"

text \<open>The answer to a failure before any message was sent: an error, or the one item of the stream.\<close>

fun read_failed :: "read_call \<Rightarrow> status \<Rightarrow> ('t, 's) read_phase" where
  "read_failed (ReadTable u) status = RTable (Err status)"
| "read_failed (ListFiles u gone) status = RList (snd (send gone (Err status) []))"

text \<open>What both calls do with an opened table, up to the next call to storage.\<close>

definition read_opened ::
  "('w, 'n, 'p, 'm, 'b, 't, 'l, 's, 'c, 'v) store \<Rightarrow> read_call \<Rightarrow> 't \<Rightarrow> ('t, 's) read_phase" where
  "read_opened d call table =
     (case map_err map_open_or_snapshot_error (table_snapshot d table) of
        Err status \<Rightarrow> read_failed call status
      | Ok snapshot \<Rightarrow>
          (case build_metadata_and_protocol d snapshot of
             Err status \<Rightarrow> read_failed call status
           | Ok (metadata, protocol) \<Rightarrow>
               (case call of
                  ReadTable u \<Rightarrow> RTable (Ok
                    \<lparr>gt_version = snapshot_version d snapshot,
                     gt_metadata = Some metadata,
                     gt_protocol = Some protocol\<rparr>)
                | ListFiles u gone \<Rightarrow>
                    (case send gone (Ok (Header
                            \<lparr>lh_version = snapshot_version d snapshot,
                             lh_metadata = Some metadata,
                             lh_protocol = Some protocol\<rparr>)) [] of
                       (False, sent) \<Rightarrow> RList sent
                     | (True, sent) \<Rightarrow> RListing table snapshot sent))))"

fun read_gone :: "read_call \<Rightarrow> nat option" where
  "read_gone (ReadTable u) = None"
| "read_gone (ListFiles u gone) = gone"

fun read_exec ::
  "('w, 'n, 'p, 'm, 'b, 't, 'l, 's, 'c, 'v) store \<Rightarrow> ('n, 'z) serde_scheme \<Rightarrow> server
     \<Rightarrow> (nat \<Rightarrow> read_call) \<Rightarrow> ('w, 't, 's) read_sys \<Rightarrow> nat \<Rightarrow> read_action
     \<Rightarrow> ('w, 't, 's) read_sys option" where
  "read_exec d sj srv call s r ReadExists =
     (case rd_phase s r of
        RBegun \<Rightarrow>
          (case table_exists d (read_url (call r)) (srv_storage_opts srv) (rd_world s) of
             (Err e, w) \<Rightarrow> Some (read_goto r (read_failed (call r) (status_of_error e)) w s)
           | (Ok False, w) \<Rightarrow>
               Some (read_goto r (read_failed (call r) (not_found (read_url (call r)))) w s)
           | (Ok True, w) \<Rightarrow> Some (read_goto r ROpening w s))
      | _ \<Rightarrow> None)"
| "read_exec d sj srv call s r ReadOpen =
     (case rd_phase s r of
        ROpening \<Rightarrow>
          (case open_table d (read_url (call r)) (srv_storage_opts srv) (rd_world s) of
             (Err e, w) \<Rightarrow> Some (read_goto r (read_failed (call r) (status_of_error e)) w s)
           | (Ok table, w) \<Rightarrow> Some (read_goto r (read_opened d (call r) table) w s))
      | _ \<Rightarrow> None)"
| "read_exec d sj srv call s r ReadFiles =
     (case rd_phase s r of
        RListing table snapshot sent \<Rightarrow>
          (case file_views d snapshot (log_store d table) (rd_world s) of
             (items, w) \<Rightarrow>
               (case stream_files d sj (read_gone (call r)) items [] sent of
                  (Err status, sent) \<Rightarrow>
                    Some (read_goto r (RList (snd (send (read_gone (call r)) (Err status) sent))) w s)
                | (Ok _, sent) \<Rightarrow> Some (read_goto r (RList sent) w s)))
      | _ \<Rightarrow> None)"

text \<open>The reads and the commits together.\<close>

datatype 'w service_event = Committing "'w commit_event" | Reading nat read_action

fun service_exec ::
  "('w, 'n, 'p, 'm, 'b, 't, 'l, 's, 'c, 'v) store \<Rightarrow> ('n, 'z) serde_scheme \<Rightarrow> server
     \<Rightarrow> (string \<Rightarrow> nat) \<Rightarrow> (task \<Rightarrow> ('n, 'p, 'm) job) \<Rightarrow> nat \<Rightarrow> ('w \<Rightarrow> 'w \<Rightarrow> bool)
     \<Rightarrow> (nat \<Rightarrow> read_call) \<Rightarrow> ('w, 't, 's) read_sys \<Rightarrow> 'w service_event
     \<Rightarrow> ('w, 't, 's) read_sys option" where
  "service_exec d sj srv sh job n env call s (Committing ev) =
     map_option (\<lambda>c. s\<lparr>rd_commits := c\<rparr>) (commit_event_exec d sj srv sh job n env (rd_commits s) ev)"
| "service_exec d sj srv sh job n env call s (Reading r act) = read_exec d sj srv call s r act"

subsection \<open>What a reader relies on of a snapshot\<close>

text \<open>
  \<open>files w u\<close> are the active files of the table at \<open>u\<close> in the world \<open>w\<close>. An opened table and its
  snapshot have one version, and the files read through the snapshot, whenever they are read, are
  those the table had when it was opened, unless an error is reported. Reading them changes no log.
\<close>

definition snapshot_contract ::
  "('w, 'n, 'p, 'm, 'b, 't, 'l, 's, 'c, 'v) store \<Rightarrow> ('w \<Rightarrow> url \<Rightarrow> nat option)
     \<Rightarrow> ('w \<Rightarrow> url \<Rightarrow> 'v file_view list) \<Rightarrow> bool" where
  "snapshot_contract d ver files \<longleftrightarrow>
     (\<forall>u opts w t w' snap. open_table_with_storage_options d u opts w = (Ok t, w') \<longrightarrow>
        table_snapshot d t = Ok snap \<longrightarrow>
        table_version d t = Some (snapshot_version d snap) \<and>
        (\<forall>w1 items w2. file_views d snap (log_store d t) w1 = (items, w2) \<longrightarrow>
           list_all (\<lambda>x. \<exists>fv. x = Ok fv) items \<longrightarrow> items = map Ok (files w u))) \<and>
     (\<forall>snap l w items w'. file_views d snap l w = (items, w') \<longrightarrow> ver w' = ver w)"

text \<open>The version an answer shows, also while the files of a listing are still to come.\<close>

fun shown :: "('t, 's) read_phase \<Rightarrow> i64 option" where
  "shown (RTable (Ok response)) = Some (gt_version response)"
| "shown (RListing table snapshot (Ok (Header h) # sent)) = Some (lh_version h)"
| "shown (RList (Ok (Header h) # items)) = Some (lh_version h)"
| "shown ph = None"

section \<open>Lemmas\<close>

subsection \<open>Commits only add versions\<close>

text \<open>
  Every answered commit is in the log: its version, or a later one, is the latest of its table. This
  also holds when other processes write, as long as they, too, only add versions.
\<close>

definition acknowledged ::
  "('w, 'n, 'p, 'm, 'b, 't, 'l, 's, 'c, 'v) store \<Rightarrow> ('w \<Rightarrow> url \<Rightarrow> nat option) \<Rightarrow> ('l \<Rightarrow> url)
     \<Rightarrow> (task \<Rightarrow> ('n, 'p, 'm) job) \<Rightarrow> ('w, 't) commit_sys \<Rightarrow> bool" where
  "acknowledged d ver at job c \<longleftrightarrow>
     opened_ok d at job c \<and>
     (\<forall>t r. cy_phase c t = CDone (Ok r) \<longrightarrow>
        (\<exists>k. committed_version r = of_nat k \<and> Some k \<le> ver (cy_world c) (job_url (job t))))"

lemma acknowledged_world:
  assumes "acknowledged d ver at job c" "ver (cy_world c) \<le> ver w"
  shows "acknowledged d ver at job (c\<lparr>cy_world := w\<rparr>)"
  using assms unfolding acknowledged_def opened_ok_def
  by (simp add: le_fun_def) (blast intro: order_trans)

lemma appends_grows: "appends ver u w w' \<Longrightarrow> ver w \<le> ver w'"
proof (rule le_funI)
  fix v assume a: "appends ver u w w'"
  then consider "ver w' v = ver w v" | "ver w' v = Some (next_version (ver w v))"
    by (cases "v = u") (auto simp: appends_def)
  then show "ver w v \<le> ver w' v"
    by cases (auto simp: next_version_def split: option.splits)
qed

lemma acknowledged_exec:
  assumes ack: "acknowledged d ver at job c" and c: "log_contract d ver at"
    and ex: "commit_exec d sj srv sh job c t act = Some c'"
  shows "acknowledged d ver at job c'" and "ver (cy_world c) \<le> ver (cy_world c')"
proof -
  have op: "opened_ok d at job c" using ack by (simp add: acknowledged_def)
  have "acknowledged d ver at job c' \<and> ver (cy_world c) \<le> ver (cy_world c')"
    using ex c op
  proof (cases rule: commit_exec_cases)
    case (lock lact ph l)
    with ack lock_phase_back [OF lock(1)] show ?thesis
      by (auto simp: acknowledged_def opened_ok_def split: if_splits)
  next
    case (look ph w)
    with ack show ?thesis by (auto simp: acknowledged_def opened_ok_def)
  next
    case (refuse tab e)
    with ack show ?thesis by (auto simp: acknowledged_def opened_ok_def)
  next
    case (put r ph w)
    have grows: "ver (cy_world c) \<le> ver w"
      by (rule appends_grows [OF writes_appends [OF put(4)]])
    have new: "\<exists>k. committed_version resp = of_nat k \<and> Some k \<le> ver w (job_url (job t))"
      if "r = Ok resp" for resp
      using put(4) that by (auto simp: writes_def)
    from acknowledged_world [OF ack grows] put(2,3) new grows show ?thesis
      by (auto simp: acknowledged_def opened_ok_def split: if_splits)
  qed
  then show "acknowledged d ver at job c'" and "ver (cy_world c) \<le> ver (cy_world c')" by auto
qed

subsection \<open>What a read does\<close>

lemma read_goto_simps [simp]:
  "rd_world (read_goto r ph w s) = w"
  "cy_locks (rd_commits (read_goto r ph w s)) = cy_locks (rd_commits s)"
  "cy_phase (rd_commits (read_goto r ph w s)) = cy_phase (rd_commits s)"
  "rd_commits (read_goto r ph w s) = (rd_commits s)\<lparr>cy_world := w\<rparr>"
  "rd_phase (read_goto r ph w s) = (rd_phase s)(r := ph)"
  by (simp_all add: read_goto_def)

fun read_rank :: "('t, 's) read_phase \<Rightarrow> nat" where
  "read_rank RBegun = 3"
| "read_rank ROpening = 2"
| "read_rank (RListing table snapshot sent) = 1"
| "read_rank ph = 0"

lemma read_failed_final [simp]: "read_rank (read_failed call status) = 0"
  by (cases call) auto

lemma read_opened_rank [simp]: "read_rank (read_opened d call table) < 2"
  by (auto simp: read_opened_def split: result.splits read_call.splits prod.splits bool.splits)

lemma read_exec_rank:
  assumes "read_exec d sj srv call s r act = Some s'"
  obtains ph w where "s' = read_goto r ph w s" "read_rank ph < read_rank (rd_phase s r)"
  using assms
  by (cases act) (auto split: read_phase.splits prod.splits result.splits bool.splits)

lemma read_exec_reads:
  assumes "read_exec d sj srv call s r act = Some s'"
    and "log_contract d ver at" "snapshot_contract d ver files"
  shows "ver (rd_world s') = ver (rd_world s)"
proof (cases act)
  case ReadExists
  obtain e w where e: "table_exists d (read_url (call r)) (srv_storage_opts srv) (rd_world s) = (e, w)"
    by fastforce
  with ReadExists assms(1) table_exists_reads [OF assms(2) e] show ?thesis
    by (auto split: read_phase.splits result.splits bool.splits)
next
  case ReadOpen
  obtain e w where e: "open_table d (read_url (call r)) (srv_storage_opts srv) (rd_world s) = (e, w)"
    by fastforce
  with ReadOpen assms(1) open_table_reads [OF assms(2) e] show ?thesis
    by (auto split: read_phase.splits result.splits)
next
  case ReadFiles
  with assms(1,3) show ?thesis
    by (auto simp: snapshot_contract_def split: read_phase.splits result.splits prod.splits)
qed

subsection \<open>The moment of a read\<close>

text \<open>
  A phase shows version \<open>k\<close> and the files \<open>fs\<close>: a finished listing without an error, to a client that
  stayed, has all of them; an unfinished one will read them from its snapshot.
\<close>

fun pictures ::
  "('w, 'n, 'p, 'm, 'b, 't, 'l, 's, 'c, 'v) store \<Rightarrow> ('n, 'z) serde_scheme \<Rightarrow> nat option \<Rightarrow> nat
     \<Rightarrow> 'v file_view list \<Rightarrow> ('t, 's) read_phase \<Rightarrow> bool" where
  "pictures d sj gone k fs (RTable r) = (\<exists>response. r = Ok response \<and> gt_version response = of_nat k)"
| "pictures d sj gone k fs (RListing table snapshot sent) =
     (\<exists>h. sent = [Ok (Header h)] \<and> lh_version h = of_nat k \<and>
       (\<forall>w items w'. file_views d snapshot (log_store d table) w = (items, w') \<longrightarrow>
          list_all (\<lambda>x. \<exists>fv. x = Ok fv) items \<longrightarrow> items = map Ok fs))"
| "pictures d sj gone k fs (RList items) =
     (\<exists>h rest. items = Ok (Header h) # rest \<and> lh_version h = of_nat k \<and>
       (gone = None \<longrightarrow> list_all (\<lambda>x. \<exists>p. x = Ok p) rest \<longrightarrow>
          rest = batch_items (chunks file_batch_size (map (active_file d sj) fs))))"
| "pictures d sj gone k fs ph = False"

lemma shown_pictures: "pictures d sj gone k fs ph \<Longrightarrow> shown ph = Some (of_nat k)"
  by (cases ph) auto

lemma shown_failed [simp]: "shown (read_failed call status) = None"
  by (cases call) (auto simp: send_def)

lemma read_opened_pictures:
  assumes "log_contract d ver at" "snapshot_contract d ver files"
    and "open_table d (read_url call) opts w = (Ok table, w')"
    and "shown (read_opened d call table) \<noteq> None"
  shows "\<exists>k. ver w (read_url call) = Some k
    \<and> pictures d sj (read_gone call) k (files w (read_url call)) (read_opened d call table)"
proof -
  have o: "open_table_with_storage_options d (read_url call) opts w = (Ok table, w')"
    using assms(3) by (simp add: open_table_def rust_simps)
  obtain snapshot where snap: "table_snapshot d table = Ok snapshot"
    using assms(4) by (cases "table_snapshot d table") (auto simp: read_opened_def)
  note s = assms(2) [unfolded snapshot_contract_def, THEN conjunct1, rule_format, OF o snap]
  have files: "items = map Ok (files w (read_url call))"
    if "file_views d snapshot (log_store d table) w1 = (items, w2)"
      "list_all (\<lambda>x. \<exists>fv. x = Ok fv) items" for w1 items w2
    using s [THEN conjunct2, rule_format, OF that] .
  have "map_option of_nat (ver w (read_url call)) = Some (snapshot_version d snapshot)"
    using open_table_view(2) [OF assms(1,3)] s [THEN conjunct1] by simp
  then obtain k where k: "ver w (read_url call) = Some k" "snapshot_version d snapshot = of_nat k"
    by auto
  show ?thesis
    using assms(4) k
    by (auto simp: read_opened_def snap send_def dest: files
        split: result.splits read_call.splits option.splits if_splits)
qed

lemma stream_files_prefix: "prefix sent (snd (stream_files d sj gone items batch sent))"
proof (induction items arbitrary: batch sent)
  case Nil
  then show ?case by (simp add: send_def)
next
  case (Cons item items)
  show ?case
  proof (cases item)
    case (Ok fv)
    let ?batch = "batch @ [active_file d sj fv]"
    have "prefix sent (snd (stream_files d sj gone items [] (sent @ [result.Ok (Batch ?batch)])))"
      by (rule append_prefixD [OF Cons.IH])
    with Cons.IH [of sent ?batch] Ok show ?thesis by (simp add: send_def Let_def)
  qed simp
qed

lemma finish_prefix: "prefix sent (snd rs) \<Longrightarrow> prefix sent (finish gone rs)"
  by (cases rs) (auto simp: finish_def send_def split: result.splits)

lemma pictures_files:
  assumes p: "pictures d sj gone k fs (RListing table snapshot sent)"
    and v: "file_views d snapshot (log_store d table) w = (items, w')"
  shows "pictures d sj gone k fs (RList (finish gone (stream_files d sj gone items [] sent)))"
proof -
  obtain h where h: "sent = [Ok (Header h)]" "lh_version h = of_nat k"
    and all: "list_all (\<lambda>x. \<exists>fv. x = Ok fv) items \<Longrightarrow> items = map Ok fs"
    using p v by auto
  have "prefix sent (finish gone (stream_files d sj gone items [] sent))"
    by (rule finish_prefix [OF stream_files_prefix])
  then obtain rest where rest: "finish gone (stream_files d sj gone items [] sent) = Ok (Header h) # rest"
    using h by (auto simp: prefix_def)
  have "rest = batch_items (chunks file_batch_size (map (active_file d sj) fs))"
    if g: "gone = None" and ok: "list_all (\<lambda>x. \<exists>p. x = Ok p) rest"
  proof (cases rule: list_of_results [of items])
    case (1 fvs)
    then have "items = map Ok fs" by (intro all) (auto simp: list_all_iff)
    then show ?thesis
      using rest h(1) g by (simp add: stream_files_stays file_batch_size_pos finish_simps)
  next
    case (2 fvs e more)
    then have "Err (mk_status Internal ''internal error streaming active files'') \<in> set rest"
      using rest h(1) g by (simp add: stream_files_fails file_batch_size_pos finish_simps send_stays)
        auto
    with ok show ?thesis by (auto simp: list_all_iff)
  qed
  with rest h(2) show ?thesis by simp
qed

lemma service_exec_other:
  assumes "service_exec d sj srv sh job n env call s ev = Some s'" "\<And>act. ev \<noteq> Reading r act"
  shows "rd_phase s' r = rd_phase s r"
proof (cases ev)
  case (Reading r' act)
  with assms read_exec_rank [of d sj srv call s r' act s'] show ?thesis by fastforce
qed (use assms in auto)

lemma final_exec:
  assumes "service_exec d sj srv sh job n env call s ev = Some s'" "read_rank (rd_phase s r) = 0"
  shows "rd_phase s' r = rd_phase s r"
proof (cases "\<exists>act. ev = Reading r act")
  case True
  with assms read_exec_rank show ?thesis by fastforce
qed (use service_exec_other [OF assms(1)] in blast)

lemma pictures_exec:
  assumes "service_exec d sj srv sh job n env call s ev = Some s'"
    and "pictures d sj (read_gone (call r)) k fs (rd_phase s r)"
  shows "pictures d sj (read_gone (call r)) k fs (rd_phase s' r)"
proof (cases "\<exists>act. ev = Reading r act")
  case True
  then obtain act where act: "read_exec d sj srv call s r act = Some s'" using assms(1) by auto
  show ?thesis
  proof (cases "rd_phase s r")
    case (RListing table snapshot sent)
    then have "act = ReadFiles" using act by (cases act) auto
    obtain items w where v: "file_views d snapshot (log_store d table) (rd_world s) = (items, w)"
      by fastforce
    have "s' = read_goto r
        (RList (finish (read_gone (call r)) (stream_files d sj (read_gone (call r)) items [] sent))) w s"
      using act RListing v \<open>act = ReadFiles\<close>
      by (auto simp: finish_def split: prod.splits result.splits)
    with pictures_files [OF assms(2) [unfolded RListing] v] show ?thesis by simp
  qed (use assms(2) act final_exec [OF assms(1), of r] in auto)
next
  case False
  with service_exec_other [OF assms(1)] assms(2) show ?thesis by auto
qed

lemma unshown_final: "shown (read_opened d call table) = None \<Longrightarrow> read_rank (read_opened d call table) = 0"
  by (auto simp: read_opened_def send_def
      split: result.splits read_call.splits option.splits if_splits)

text \<open>An answer that shows a version shows the table at one moment between its request and itself.\<close>

lemma read_moment:
  assumes log: "log_contract d ver at" and snap: "snapshot_contract d ver files"
    and run: "runs (service_exec d sj srv sh job n env call) evs s = Some s'"
    and begun: "rd_phase s r = RBegun" and shown: "shown (rd_phase s' r) = Some v"
  obtains before after s1 k where "evs = before @ after"
    "runs (service_exec d sj srv sh job n env call) before s = Some s1"
    "runs (service_exec d sj srv sh job n env call) after s1 = Some s'"
    "ver (rd_world s1) (read_url (call r)) = Some k" "v = of_nat k"
    "pictures d sj (read_gone (call r)) k (files (rd_world s1) (read_url (call r))) (rd_phase s' r)"
proof -
  let ?u = "read_url (call r)"
  have "\<not> read_rank (rd_phase s r) < 2" "read_rank (rd_phase s' r) < 2"
    using begun shown by (auto elim: shown.elims)
  with run obtain before ev after s1 s2 where evs: "evs = before @ ev # after"
    and b: "runs (service_exec d sj srv sh job n env call) before s = Some s1"
    and s1: "\<not> read_rank (rd_phase s1 r) < 2" and ev: "service_exec d sj srv sh job n env call s1 ev = Some s2"
    and s2: "read_rank (rd_phase s2 r) < 2"
    and a: "runs (service_exec d sj srv sh job n env call) after s2 = Some s'"
    by (rule runs_change [where P = "\<lambda>s. read_rank (rd_phase s r) < 2"])
  obtain act where act: "ev = Reading r act" "read_exec d sj srv call s1 r act = Some s2"
    using service_exec_other [OF ev] s1 s2 ev by fastforce
  have seen: "shown (rd_phase s2 r) \<noteq> None" if "read_rank (rd_phase s2 r) = 0"
  proof -
    have "rd_phase s' r = rd_phase s2 r"
      by (rule runs_keep [where P = "\<lambda>s. rd_phase s r = rd_phase s2 r", OF _ _ a])
        (use final_exec that in \<open>fastforce simp del: service_exec.simps\<close>)+
    with shown show ?thesis by simp
  qed
  have "act = ReadOpen"
    using act(2) s1 s2 seen
    by (cases act) (auto split: read_phase.splits prod.splits result.splits bool.splits)
  then obtain table w where o: "open_table d ?u (srv_storage_opts srv) (rd_world s1) = (Ok table, w)"
    and s2': "s2 = read_goto r (read_opened d (call r) table) w s1"
    using act(2) seen by (auto split: read_phase.splits prod.splits result.splits)
  have "shown (read_opened d (call r) table) \<noteq> None"
    using seen s2' unshown_final by fastforce
  from read_opened_pictures [OF log snap o this, of sj] obtain k where k: "ver (rd_world s1) ?u = Some k"
    and p: "pictures d sj (read_gone (call r)) k (files (rd_world s1) ?u) (rd_phase s2 r)"
    using s2' by auto
  have p': "pictures d sj (read_gone (call r)) k (files (rd_world s1) ?u) (rd_phase s' r)"
    by (rule runs_keep [where P = "\<lambda>s. pictures d sj (read_gone (call r)) k (files (rd_world s1) ?u)
          (rd_phase s r)", OF _ p a])
      (rule pictures_exec)
  moreover have "runs (service_exec d sj srv sh job n env call) (ev # after) s1 = Some s'"
    using ev a by simp
  ultimately show thesis using that evs b k shown_pictures [OF p'] shown by simp
qed

subsection \<open>Versions along a run\<close>

lemma acknowledged_init: "acknowledged d ver at job (rd_commits (read_init w))"
  by (simp add: acknowledged_def opened_ok_def read_init_def commit_init_def)

lemma acknowledged_event:
  assumes ack: "acknowledged d ver at job (rd_commits s)"
    and log: "log_contract d ver at" and snap: "snapshot_contract d ver files"
    and env: "\<And>w w'. env w w' \<Longrightarrow> ver w \<le> ver w'"
    and ex: "service_exec d sj srv sh job n env call s ev = Some s'"
  shows "acknowledged d ver at job (rd_commits s')" and "ver (rd_world s) \<le> ver (rd_world s')"
proof -
  have "acknowledged d ver at job (rd_commits s') \<and> ver (rd_world s) \<le> ver (rd_world s')"
  proof (cases ev)
    case (Committing cev)
    then obtain c where c: "commit_event_exec d sj srv sh job n env (rd_commits s) cev = Some c"
        "s' = s\<lparr>rd_commits := c\<rparr>"
      using ex by auto
    show ?thesis
    proof (cases cev)
      case (Handler t act)
      then have "commit_exec d sj srv sh job (rd_commits s) t act = Some c"
        using c(1) by (auto split: if_splits)
      with acknowledged_exec [OF ack log] c(2) show ?thesis by auto
    next
      case (World w)
      then have "ver (rd_world s) \<le> ver w" "c = (rd_commits s)\<lparr>cy_world := w\<rparr>"
        using c(1) env by (auto split: if_splits)
      with acknowledged_world [OF ack] c(2) show ?thesis by simp
    qed
  next
    case (Reading r act)
    then have act: "read_exec d sj srv call s r act = Some s'" using ex by simp
    obtain ph w where "s' = read_goto r ph w s" by (rule read_exec_rank [OF act])
    with acknowledged_world [OF ack, of w] read_exec_reads [OF act log snap] show ?thesis by simp
  qed
  then show "acknowledged d ver at job (rd_commits s')" and "ver (rd_world s) \<le> ver (rd_world s')"
    by auto
qed

lemma acknowledged_runs:
  assumes "log_contract d ver at" "snapshot_contract d ver files"
    and "\<And>w w'. env w w' \<Longrightarrow> ver w \<le> ver w'"
    and "acknowledged d ver at job (rd_commits s)"
    and "runs (service_exec d sj srv sh job n env call) evs s = Some s'"
  shows "acknowledged d ver at job (rd_commits s') \<and> ver (rd_world s) \<le> ver (rd_world s')"
proof (rule runs_keep [where P = "\<lambda>s'. acknowledged d ver at job (rd_commits s')
    \<and> ver (rd_world s) \<le> ver (rd_world s')", OF _ _ assms(5)])
  fix a ev b
  assume a: "acknowledged d ver at job (rd_commits a) \<and> ver (rd_world s) \<le> ver (rd_world a)"
    and ex: "service_exec d sj srv sh job n env call a ev = Some b"
  note step = acknowledged_event [OF conjunct1 [OF a] assms(1,2) assms(3) ex]
  show "acknowledged d ver at job (rd_commits b) \<and> ver (rd_world s) \<le> ver (rd_world b)"
    by (intro conjI step(1) order_trans [OF conjunct2 [OF a] step(2)])
qed (use assms(4) in simp)

lemma sint_of_nat_mono: "a \<le> b \<Longrightarrow> b < 2 ^ 63 \<Longrightarrow> sint (of_nat a :: i64) \<le> sint (of_nat b :: i64)"
  by (simp add: signed_of_nat signed_take_bit_int_eq_self)

subsection \<open>An uninterrupted read\<close>

text \<open>The answer of a read that has not opened its table yet, and the world it leaves.\<close>

lemma read_table_uninterrupted:
  assumes "rd_phase s r = RBegun" "call r = ReadTable u"
  shows "\<exists>acts s' answer. length acts \<le> 2
    \<and> runs (service_exec d sj srv sh job n env call) (map (Reading r) acts) s = Some s'
    \<and> rd_phase s' r = RTable answer
    \<and> (normalize_and_check_table_uri d srv uri w = (Ok u, rd_world s) \<longrightarrow>
         get_table d srv uri w = (answer, rd_world s'))"
proof -
  note handler = get_table_def io_then_def io_map_err_def io_return_def
  obtain found w1 where e: "table_exists d u (srv_storage_opts srv) (rd_world s) = (found, w1)"
    by fastforce
  obtain opened w2 where o: "open_table d u (srv_storage_opts srv) w1 = (opened, w2)" by fastforce
  show ?thesis
  proof (cases "found = Ok True")
    case False
    with assms e show ?thesis
      by (cases found; intro exI [of _ "[ReadExists]"]) (auto simp: handler)
  next
    case True
    show ?thesis
    proof (cases opened)
      case (Err x)
      with True assms e o show ?thesis
        by (intro exI [of _ "[ReadExists, ReadOpen]"]) (simp add: handler)
    next
      case (Ok table)
      have "\<exists>answer. read_opened d (ReadTable u) table = RTable answer \<and> answer =
          and_then (map_err map_open_or_snapshot_error (table_snapshot d table)) (\<lambda>snapshot.
          and_then (build_metadata_and_protocol d snapshot) (\<lambda>(metadata, protocol).
            result.Ok \<lparr>gt_version = snapshot_version d snapshot, gt_metadata = Some metadata,
              gt_protocol = Some protocol\<rparr>))"
        by (auto simp: read_opened_def split: result.splits)
      with True Ok assms e o show ?thesis
        by (intro exI [of _ "[ReadExists, ReadOpen]"])
          (auto simp: handler split: result.splits prod.splits)
    qed
  qed
qed

lemma list_files_uninterrupted:
  assumes "rd_phase s r = RBegun" "call r = ListFiles u gone"
  shows "\<exists>acts s' items. length acts \<le> 3
    \<and> runs (service_exec d sj srv sh job n env call) (map (Reading r) acts) s = Some s'
    \<and> rd_phase s' r = RList items
    \<and> stream_active_files d sj gone u (srv_storage_opts srv) (rd_world s) = (items, rd_world s')"
proof -
  note task = stream_active_files_def stream_active_files_inner_def
  obtain found w1 where e: "table_exists d u (srv_storage_opts srv) (rd_world s) = (found, w1)"
    by fastforce
  obtain opened w2 where o: "open_table d u (srv_storage_opts srv) w1 = (opened, w2)" by fastforce
  show ?thesis
  proof (cases "found = Ok True")
    case False
    with assms e show ?thesis
      by (cases found; intro exI [of _ "[ReadExists]"]) (auto simp: task)
  next
    case True
    show ?thesis
    proof (cases opened)
      case (Err x)
      with True assms e o show ?thesis
        by (intro exI [of _ "[ReadExists, ReadOpen]"]) (simp add: task)
    next
      case (Ok table)
      note found = True Ok assms e o
      show ?thesis
      proof (cases "read_opened d (ListFiles u gone) table")
        case (RListing table' snapshot sent)
        then obtain metadata protocol where sn: "table_snapshot d table = result.Ok snapshot"
          "build_metadata_and_protocol d snapshot = result.Ok (metadata, protocol)"
          and se: "send gone (result.Ok (Header \<lparr>lh_version = snapshot_version d snapshot,
            lh_metadata = Some metadata, lh_protocol = Some protocol\<rparr>)) [] = (True, sent)"
          and t: "table' = table"
          by (cases "table_snapshot d table")
            (auto simp: read_opened_def send_def split: result.splits option.splits if_splits)
        obtain views w3 where v: "file_views d snapshot (log_store d table) w2 = (views, w3)"
          by fastforce
        obtain res sent' where f: "stream_files d sj gone views [] sent = (res, sent')" by fastforce
        show ?thesis
          by (intro exI [of _ "[ReadExists, ReadOpen, ReadFiles]"])
            (cases res; use found RListing sn se t v f in \<open>simp add: task\<close>)
      next
        case (RList items)
        with found show ?thesis
          by (intro exI [of _ "[ReadExists, ReadOpen]"])
            (auto simp: task read_opened_def split: result.splits prod.splits bool.splits)
      qed (auto simp: read_opened_def split: result.splits prod.splits bool.splits)
    qed
  qed
qed

lemma reading_leaves_commits:
  "runs (service_exec d sj srv sh job n env call) (map (Reading r) acts) s = Some s' \<Longrightarrow>
     cy_locks (rd_commits s') = cy_locks (rd_commits s)
     \<and> cy_phase (rd_commits s') = cy_phase (rd_commits s)"
proof (induction acts arbitrary: s)
  case (Cons act acts)
  then obtain s1 where s1: "read_exec d sj srv call s r act = Some s1"
      "runs (service_exec d sj srv sh job n env call) (map (Reading r) acts) s1 = Some s'"
    by (auto split: option.splits)
  obtain ph w where "s1 = read_goto r ph w s" by (rule read_exec_rank [OF s1(1)])
  with Cons.IH [OF s1(2)] show ?case by simp
qed simp

section \<open>Properties\<close>

text \<open>
  Property C4 (reads_show_one_moment). A read needs no lock and is still consistent: whatever commits
  and other processes do while it runs, its answer shows the table as it was at one moment between
  the request and the answer. The version of the answer was the latest one at that moment; a listing
  that ends without an error, to a client that stayed, has exactly the files the table had at that
  moment, although other versions may have been committed before the last file was sent.
\<close>

theorem reads_show_one_moment:
  assumes "log_contract d ver at" and "snapshot_contract d ver files"
    and "runs (service_exec d sj srv sh job n env call) evs s = Some s'"
    and "rd_phase s r = RBegun" and "shown (rd_phase s' r) = Some v"
  shows "\<exists>before after s1 k. evs = before @ after
    \<and> runs (service_exec d sj srv sh job n env call) before s = Some s1
    \<and> runs (service_exec d sj srv sh job n env call) after s1 = Some s'
    \<and> ver (rd_world s1) (read_url (call r)) = Some k \<and> v = of_nat k
    \<and> (\<forall>h rest. rd_phase s' r = RList (Ok (Header h) # rest) \<and> read_gone (call r) = None
         \<and> list_all (\<lambda>x. \<exists>p. x = Ok p) rest \<longrightarrow>
         (\<exists>batches. rest = map (\<lambda>b. Ok (Batch b)) batches
            \<and> concat batches = map (active_file d sj) (files (rd_world s1) (read_url (call r)))))"
proof -
  obtain before after s1 k where m: "evs = before @ after"
    "runs (service_exec d sj srv sh job n env call) before s = Some s1"
    "runs (service_exec d sj srv sh job n env call) after s1 = Some s'"
    "ver (rd_world s1) (read_url (call r)) = Some k" "v = of_nat k"
    and p: "pictures d sj (read_gone (call r)) k (files (rd_world s1) (read_url (call r)))
      (rd_phase s' r)"
    by (rule read_moment [OF assms])
  moreover have "\<exists>batches. rest = map (\<lambda>b. Ok (Batch b)) batches
      \<and> concat batches = map (active_file d sj) (files (rd_world s1) (read_url (call r)))"
    if "rd_phase s' r = RList (Ok (Header h) # rest)" "read_gone (call r) = None"
      "list_all (\<lambda>x. \<exists>p. x = Ok p) rest" for h rest
    using p that concat_chunks [OF file_batch_size_pos] by (auto simp: batch_items_def)
  ultimately show ?thesis by blast
qed

text \<open>
  Property C8 (reads_see_acknowledged_commits). A read that begins after a commit to its table was
  answered with success shows the version of that commit or a later one, and never an earlier version
  than an answer another read had before it began. This holds also with other processes that write
  the table, as long as they only add versions, for tables with fewer than \<open>2^63\<close> versions.
\<close>

theorem reads_see_acknowledged_commits:
  assumes "log_contract d ver at" and "snapshot_contract d ver files"
    and "\<And>w w'. env w w' \<Longrightarrow> ver w \<le> ver w'"
    and "runs (service_exec d sj srv sh job n env call) evs0 (read_init w) = Some s"
    and "runs (service_exec d sj srv sh job n env call) evs s = Some s'"
    and "rd_phase s r = RBegun" and "shown (rd_phase s' r) = Some v"
    and "\<And>m. ver (rd_world s') (read_url (call r)) = Some m \<Longrightarrow> m < 2 ^ 63"
  shows "(\<forall>t c. cy_phase (rd_commits s) t = CDone (Ok c) \<and> job_url (job t) = read_url (call r) \<longrightarrow>
      sint (committed_version c) \<le> sint v)
    \<and> (\<forall>r' v'. shown (rd_phase s r') = Some v' \<and> read_url (call r') = read_url (call r) \<longrightarrow>
      sint v' \<le> sint v)"
proof -
  let ?u = "read_url (call r)"
  have grows: "acknowledged d ver at job (rd_commits b) \<and> ver (rd_world a) \<le> ver (rd_world b)"
    if "acknowledged d ver at job (rd_commits a)"
      "runs (service_exec d sj srv sh job n env call) es a = Some b" for a b es
    by (rule acknowledged_runs [OF assms(1,2) assms(3) that])
  have ack: "acknowledged d ver at job (rd_commits s)"
    using grows [OF acknowledged_init assms(4)] by simp
  obtain before after s1 k where
    b: "runs (service_exec d sj srv sh job n env call) before s = Some s1"
    and a: "runs (service_exec d sj srv sh job n env call) after s1 = Some s'"
    and k: "ver (rd_world s1) ?u = Some k" and v: "v = of_nat k"
    by (rule read_moment [OF assms(1,2,5,6,7)])
  have g: "ver (rd_world s) \<le> ver (rd_world s1)" "ver (rd_world s1) \<le> ver (rd_world s')"
    using grows [OF ack b] grows [OF _ a] by auto
  obtain m where "ver (rd_world s') ?u = Some m" "k \<le> m"
    using le_funD [OF g(2), of ?u] k by (cases "ver (rd_world s') ?u") auto
  then have "k < 2 ^ 63" using assms(8) by fastforce
  then have le: "sint (of_nat j :: i64) \<le> sint v" if "Some j \<le> ver (rd_world s) ?u" for j
    using order_trans [OF that le_funD [OF g(1)]] k sint_of_nat_mono [of j k] v by simp
  have "sint (committed_version c) \<le> sint v"
    if "cy_phase (rd_commits s) t = CDone (Ok c)" "job_url (job t) = ?u" for t c
    using ack that le by (fastforce simp: acknowledged_def)
  moreover have "sint v' \<le> sint v" if r': "shown (rd_phase s r') = Some v'" "read_url (call r') = ?u"
    for r' v'
  proof -
    have "rd_phase (read_init w) r' = RBegun" by (simp add: read_init_def)
    then obtain before0 after0 s0 j where
      b0: "runs (service_exec d sj srv sh job n env call) before0 (read_init w) = Some s0"
      and a0: "runs (service_exec d sj srv sh job n env call) after0 s0 = Some s"
      and j: "ver (rd_world s0) (read_url (call r')) = Some j" "v' = of_nat j"
      using r'(1) by (rule read_moment [OF assms(1,2,4)])
    have "ver (rd_world s0) \<le> ver (rd_world s)"
      using grows [OF acknowledged_init b0] grows [OF _ a0] by simp
    then have "Some j \<le> ver (rd_world s) ?u" using j(1) r'(2) by (metis le_funD)
    then show ?thesis using le j(2) by simp
  qed
  ultimately show ?thesis by blast
qed

text \<open>
  Property C29 (reads_never_wait). A read waits for nobody: from any state, whatever locks are held and
  whatever the commits are doing, at most three actions of its own lead to its answer and leave the
  locks and the commits as they are. Without other actions in between, the answer and the world are
  those of the handlers \<open>get_table\<close> and \<open>list_active_files\<close>.
\<close>

theorem reads_never_wait:
  assumes "rd_phase s r = RBegun"
    and "normalize_and_check_table_uri d srv uri w = (Ok (read_url (call r)), rd_world s)"
  shows "\<exists>acts s'. length acts \<le> 3
    \<and> runs (service_exec d sj srv sh job n env call) (map (Reading r) acts) s = Some s'
    \<and> cy_locks (rd_commits s') = cy_locks (rd_commits s)
    \<and> cy_phase (rd_commits s') = cy_phase (rd_commits s)
    \<and> (case call r of
         ReadTable u \<Rightarrow> \<exists>answer. rd_phase s' r = RTable answer
           \<and> get_table d srv uri w = (answer, rd_world s')
       | ListFiles u gone \<Rightarrow> \<exists>items. rd_phase s' r = RList items
           \<and> list_active_files d sj srv gone uri w = (Ok items, rd_world s'))"
proof (cases "call r")
  case (ReadTable u)
  with read_table_uninterrupted [of s r call u d sj srv sh job n env uri w] assms
  obtain acts s' answer where "length acts \<le> 2"
    and run: "runs (service_exec d sj srv sh job n env call) (map (Reading r) acts) s = Some s'"
    and "rd_phase s' r = RTable answer" "get_table d srv uri w = (answer, rd_world s')"
    by auto
  with ReadTable reading_leaves_commits [OF run] show ?thesis
    by (intro exI [of _ acts] exI [of _ s']) auto
next
  case (ListFiles u gone)
  with list_files_uninterrupted [of s r call u gone d sj srv sh job n env] assms
  obtain acts s' items where "length acts \<le> 3"
    and run: "runs (service_exec d sj srv sh job n env call) (map (Reading r) acts) s = Some s'"
    and "rd_phase s' r = RList items"
    "stream_active_files d sj gone u (srv_storage_opts srv) (rd_world s) = (items, rd_world s')"
    by auto
  moreover from this ListFiles assms(2)
  have "list_active_files d sj srv gone uri w = (Ok items, rd_world s')"
    by (simp add: list_active_files_def io_then_def)
  ultimately show ?thesis
    using ListFiles reading_leaves_commits [OF run] by (intro exI [of _ acts] exI [of _ s']) auto
qed

section \<open>Witnesses\<close>

text \<open>
  A listing opens the table at version 7, then a commit adds a file in version 8, then the listing
  reads its files.
\<close>

definition sample_files :: "sample_world \<Rightarrow> url \<Rightarrow> string option file_view list" where
  "sample_files w u =
     (case map_of w u of
        None \<Rightarrow> []
      | Some s \<Rightarrow> map (\<lambda>a. \<lparr>fv_path = ka_path a, fv_size = ka_size a,
          fv_modification_time = ka_modification_time a,
          fv_partition_values = Some (map fst (ka_partition_values a), map snd (ka_partition_values a)),
          fv_stats = ka_stats a\<rparr>) (sl_files s))"

lemma sample_snapshot_contract: "snapshot_contract sample_store sample_ver sample_files"
  by (auto simp: snapshot_contract_def sample_store_def sample_files_def ok_or_def
      split: option.splits)

definition adding_job :: "task \<Rightarrow> (sample_number, sample_doc, sample_doc) job" where
  "adding_job t =
     \<lparr>job_url = ''s3://b/t'', job_expected = None, job_actions = [KAdd (sample_kernel_add ''c'')]\<rparr>"

definition adding_events :: "sample_world service_event list" where
  "adding_events = map (\<lambda>act. Committing (Handler 0 act))
     [LockAction (Enter ''s3://b/t''), LockAction FetchAdd, LockAction Acquire, CheckExists, Open, Write]"

definition two_reads :: "nat \<Rightarrow> read_call" where
  "two_reads r = (if r = 0 then ReadTable ''s3://b/t'' else ListFiles ''s3://b/t'' None)"

abbreviation sample_service where
  "sample_service \<equiv>
     runs (service_exec sample_store sample_sj0 sample_server (\<lambda>_. 0) adding_job 1 (=) two_reads)"

definition added_log :: sample_log where
  "added_log = sample_full_log\<lparr>sl_version := 8,
     sl_files := sl_files sample_full_log @ [sample_kernel_add ''c'']\<rparr>"

lemma sample_calls:
  "map_of w u = Some l \<Longrightarrow> table_exists sample_store u opts w = (Ok True, w)"
  "map_of w u = Some l \<Longrightarrow> open_table sample_store u opts w = (Ok (u, Some l), w)"
  "table_snapshot sample_store (u, Some l) = Ok l"
  "snapshot_version sample_store l = sl_version l"
  "commit_actions sample_store sample_sj0 (''s3://b/t'', Some sample_full_log)
     [KAdd (sample_kernel_add ''c'')] sample_full_world = (Ok 8, [(''s3://b/t'', added_log)])"
  "build_metadata_and_protocol sample_store added_log =
     build_metadata_and_protocol sample_store sample_full_log"
  "file_views sample_store l ls w = (map Ok (sample_files [([], l)] []), w)"
  by (simp_all add: sample_store_eval ok_or_def commit_actions_def added_log_def Let_def
      build_metadata_and_protocol_def sample_files_def)
    (simp_all add: sample_full_log_def)

lemmas service_run_eval = sample_calls adding_events_def two_reads_def read_init_def commit_init_def
  lock_sys_init_def lock_manager_default_def lock_mem.defs lock_mem_defs goto_def adding_job_def
  check_expected_version_def read_goto_def read_opened_def send_def Let_def

lemma sample_reads:
  obtains s s1 s2 h rest response where
    "sample_service [Reading 1 ReadExists, Reading 1 ReadOpen] (read_init sample_full_world) = Some s"
    "sample_service adding_events s = Some s1"
    "cy_phase (rd_commits s1) 0 = CDone (Ok \<lparr>committed_version = 8\<rparr>)" "rd_phase s1 0 = RBegun"
    "sample_service [Reading 1 ReadFiles, Reading 0 ReadExists, Reading 0 ReadOpen] s1 = Some s2"
    "rd_phase s2 1 = RList (Ok (Header h) # rest)" "lh_version h = 7"
    "list_all (\<lambda>x. \<exists>p. x = Ok p) rest"
    "rd_phase s2 0 = RTable (Ok response)" "rd_world s2 = [(''s3://b/t'', added_log)]"
proof -
  obtain metadata protocol
    where b: "build_metadata_and_protocol sample_store sample_full_log = Ok (metadata, protocol)"
    using sample_build by blast
  have "sl_version sample_full_log = 7" by (simp add: sample_full_log_def)
  with b that show thesis
    by (simp add: service_run_eval stream_files_stays file_batch_size_pos batch_items_def list_all_iff)
qed

theorem reads_show_one_moment_witness:
  "\<exists>evs s h rest. sample_service evs (read_init sample_full_world) = Some s
     \<and> rd_phase s 1 = RList (Ok (Header h) # rest) \<and> lh_version h = 7
     \<and> sample_ver (rd_world s) ''s3://b/t'' = Some 8
     \<and> (\<exists>before after s1 k. evs = before @ after
          \<and> sample_service before (read_init sample_full_world) = Some s1
          \<and> sample_service after s1 = Some s
          \<and> sample_ver (rd_world s1) ''s3://b/t'' = Some k \<and> 7 = (of_nat k :: i64)
          \<and> (\<exists>batches. rest = map (\<lambda>b. Ok (Batch b)) batches
               \<and> concat batches = map (active_file sample_store sample_sj0)
                   (sample_files (rd_world s1) ''s3://b/t'')))"
proof -
  obtain s s1 s2 h rest where
    a: "sample_service [Reading 1 ReadExists, Reading 1 ReadOpen] (read_init sample_full_world) = Some s"
      "sample_service adding_events s = Some s1"
      "sample_service [Reading 1 ReadFiles, Reading 0 ReadExists, Reading 0 ReadOpen] s1 = Some s2"
    and l: "rd_phase s2 1 = RList (Ok (Header h) # rest)" "lh_version h = 7"
      "list_all (\<lambda>x. \<exists>p. x = Ok p) rest"
    and w: "rd_world s2 = [(''s3://b/t'', added_log)]"
    by (rule sample_reads)
  let ?evs = "[Reading 1 ReadExists, Reading 1 ReadOpen] @ adding_events
    @ [Reading 1 ReadFiles, Reading 0 ReadExists, Reading 0 ReadOpen]"
  have run: "sample_service ?evs (read_init sample_full_world) = Some s2"
    unfolding runs_append using a by simp
  have "rd_phase (read_init sample_full_world) 1 = RBegun" "shown (rd_phase s2 1) = Some 7"
    using l by (simp_all add: read_init_def)
  from reads_show_one_moment [OF sample_log_contract sample_snapshot_contract run this] run l w
  show ?thesis
    by (intro exI [of _ ?evs] exI [of _ s2] exI [of _ h] exI [of _ rest])
      (auto simp: two_reads_def sample_ver_def added_log_def)
qed

theorem reads_see_acknowledged_commits_witness:
  "\<exists>evs0 evs s s' response. sample_service evs0 (read_init sample_full_world) = Some s
     \<and> cy_phase (rd_commits s) 0 = CDone (Ok \<lparr>committed_version = 8\<rparr>)
     \<and> sample_service evs s = Some s' \<and> rd_phase s' 0 = RTable (Ok response)
     \<and> sint (8 :: i64) \<le> sint (gt_version response)"
proof -
  obtain s s1 s2 response where
    a: "sample_service [Reading 1 ReadExists, Reading 1 ReadOpen] (read_init sample_full_world) = Some s"
      "sample_service adding_events s = Some s1"
    and d: "cy_phase (rd_commits s1) 0 = CDone (Ok \<lparr>committed_version = 8\<rparr>)" "rd_phase s1 0 = RBegun"
    and b: "sample_service [Reading 1 ReadFiles, Reading 0 ReadExists, Reading 0 ReadOpen] s1 = Some s2"
    and t: "rd_phase s2 0 = RTable (Ok response)" and w: "rd_world s2 = [(''s3://b/t'', added_log)]"
    by (rule sample_reads)
  have run: "sample_service ([Reading 1 ReadExists, Reading 1 ReadOpen] @ adding_events)
      (read_init sample_full_world) = Some s1"
    unfolding runs_append using a by simp
  have "shown (rd_phase s2 0) = Some (gt_version response)" using t by simp
  from reads_see_acknowledged_commits [OF sample_log_contract sample_snapshot_contract _ run b d(2) this]
  have "sint (committed_version \<lparr>committed_version = 8 :: i64\<rparr>) \<le> sint (gt_version response)"
    using d(1) w by (fastforce simp: two_reads_def adding_job_def sample_ver_def added_log_def)
  then have "sint (8 :: i64) \<le> sint (gt_version response)" by (simp only: commit_response.select_convs)
  with run d(1) b t show ?thesis by blast
qed

theorem reads_never_wait_witness:
  "\<exists>acts s' answer. length acts \<le> 3
     \<and> sample_service (map (Reading 0) acts) (read_init sample_full_world) = Some s'
     \<and> rd_phase s' 0 = RTable answer
     \<and> get_table sample_store sample_server ''s3://b/t'' sample_full_world = (answer, rd_world s')"
proof -
  let ?s = "read_init sample_full_world"
  have s: "rd_phase ?s 0 = RBegun"
    and u: "normalize_and_check_table_uri sample_store sample_server ''s3://b/t'' sample_full_world
      = (Ok (read_url (two_reads 0)), rd_world ?s)"
    using sample_normalize [of sample_full_world]
    by (simp_all add: read_init_def commit_init_def two_reads_def)
  from reads_never_wait [where call = two_reads, OF s u, of sample_sj0 "\<lambda>_. 0" adding_job 1 "(=)"]
  show ?thesis
    by (auto simp: two_reads_def)
qed

end
