(* ===== verification/Auth.thy ===== *)
theory Auth
  imports Delta_Errors Config
begin

section \<open>The API-key interceptor (grpc/auth.rs)\<close>

text \<open>
  \<open>constant_time_eq\<close> folds the exclusive or of all byte pairs into one accumulator. The interceptor
  reads two metadata entries of a request; \<open>get\<close> (\<open>MetadataMap::get\<close>) and \<open>to_str\<close>
  (\<open>MetadataValue::to_str\<close>) of tonic are parameters. The property is that exactly the requests that
  present the configured key pass.
\<close>

definition byte :: "char \<Rightarrow> u8" where
  "byte c = word_of_nat (of_char c)"

text \<open>The fold of \<open>constant_time_eq\<close> over the byte pairs.\<close>

definition xor_fold :: "(u8 \<times> u8) list \<Rightarrow> u8 \<Rightarrow> u8" where
  "xor_fold ps acc = fold (\<lambda>(x, y) acc. acc OR (x XOR y)) ps acc"

definition constant_time_eq :: "string \<Rightarrow> string \<Rightarrow> bool" where
  "constant_time_eq a b =
     (let a = map byte a; b = map byte b
      in if length a \<noteq> length b then False else xor_fold (zip a b) 0 = 0)"

definition make_auth_interceptor ::
  "('r \<Rightarrow> string \<Rightarrow> 'v option) \<Rightarrow> ('v \<Rightarrow> string option) \<Rightarrow> string option \<Rightarrow> 'r
     \<Rightarrow> ('r, status) result" where
  "make_auth_interceptor get to_str key req =
     (case key of
        None \<Rightarrow> Ok req
      | Some key \<Rightarrow>
          let authorized =
                unwrap_or (map_option (\<lambda>v. constant_time_eq v key)
                  (Option.bind (get req ''x-api-key'') to_str)) False;
              authorized =
                (if \<not> authorized then
                   unwrap_or (map_option (\<lambda>v. constant_time_eq v key)
                     (Option.bind (Option.bind (get req ''authorization'') to_str)
                        (\<lambda>v. strip_prefix v ''Bearer ''))) False
                 else authorized)
          in if authorized then Ok req
             else Err (mk_status Unauthenticated ''missing or invalid api key''))"

section \<open>Lemmas\<close>

lemma byte_inject: "byte c = byte d \<longleftrightarrow> c = d"
  by (simp add: byte_def word_of_nat_eq_iff take_bit_nat_eq_self)

lemma or_zero_iff: "(a :: 'a::len word) OR b = 0 \<longleftrightarrow> a = 0 \<and> b = 0"
  by (auto simp: bit_eq_iff bit_or_iff)

lemma xor_zero_iff: "(a :: 'a::len word) XOR b = 0 \<longleftrightarrow> a = b"
  by (metis xor.right_neutral xor_self_eq xor.assoc)

lemma xor_fold_zero_iff:
  "xor_fold ps acc = 0 \<longleftrightarrow> acc = 0 \<and> (\<forall>(x, y)\<in>set ps. x = y)"
proof (induction ps arbitrary: acc)
  case (Cons p ps)
  then show ?case
    by (cases p) (auto simp: xor_fold_def or_zero_iff xor_zero_iff)
qed (simp add: xor_fold_def)

lemma strip_prefix_matches:
  "unwrap_or (map_option (\<lambda>t. t = key) (strip_prefix v p)) False \<longleftrightarrow> v = p @ key"
  by (auto simp: strip_prefix_def prefix_def rust_simps)

lemma constant_time_eq_iff: "constant_time_eq a b \<longleftrightarrow> a = b"
proof (cases "length a = length b")
  case True
  then show ?thesis
    by (induction a b rule: list_induct2)
      (auto simp: constant_time_eq_def xor_fold_zero_iff byte_inject)
qed (auto simp: constant_time_eq_def)

lemma interceptor_with_key:
  "make_auth_interceptor get to_str (Some key) req =
     (if Option.bind (get req ''x-api-key'') to_str = Some key
         \<or> Option.bind (get req ''authorization'') to_str = Some (''Bearer '' @ key)
      then Ok req
      else Err (mk_status Unauthenticated ''missing or invalid api key''))"
proof -
  let ?x = "Option.bind (get req ''x-api-key'') to_str"
  let ?b = "Option.bind (get req ''authorization'') to_str"
  have x: "unwrap_or (map_option (\<lambda>v. constant_time_eq v key) ?x) False \<longleftrightarrow> ?x = Some key"
    by (cases ?x) (simp_all add: constant_time_eq_iff rust_simps)
  have b: "unwrap_or (map_option (\<lambda>v. constant_time_eq v key)
      (Option.bind ?b (\<lambda>v. strip_prefix v ''Bearer ''))) False \<longleftrightarrow> ?b = Some (''Bearer '' @ key)"
    by (cases ?b) (simp_all add: constant_time_eq_iff strip_prefix_matches
        unwrap_or_simps)
  show ?thesis
    unfolding make_auth_interceptor_def option.case x b by (simp add: Let_def)
qed

lemma interceptor_without_key: "make_auth_interceptor get to_str None req = Ok req"
  by (simp add: make_auth_interceptor_def)

section \<open>Properties\<close>

text \<open>
  Property C34 (interceptor_accepts_exactly_the_key). Without a configured key every request passes
  unchanged. With one, a request passes unchanged exactly when its \<open>x-api-key\<close> entry is the key or
  its \<open>authorization\<close> entry is \<open>Bearer\<close> and the key; every other request is refused as
  unauthenticated. The byte-folding comparison is equality.
\<close>

theorem interceptor_accepts_exactly_the_key:
  "make_auth_interceptor get to_str None req = Ok req
   \<and> (constant_time_eq a key \<longleftrightarrow> a = key)
   \<and> make_auth_interceptor get to_str (Some key) req =
      (if Option.bind (get req ''x-api-key'') to_str = Some key
          \<or> Option.bind (get req ''authorization'') to_str = Some (''Bearer '' @ key)
       then Ok req
       else Err (mk_status Unauthenticated ''missing or invalid api key''))"
  by (simp add: interceptor_with_key interceptor_without_key constant_time_eq_iff)

end
