(* ===== verification/Process.thy ===== *)
theory Process
  imports Auth Grpc_Server
begin

section \<open>The process (main.rs)\<close>

text \<open>
  \<open>startup\<close> is \<open>main\<close> up to the point where it serves: the configuration errors that end it, a panic,
  or the server it runs with. Afterwards the health status of the service is written by three
  independent parties: \<open>main\<close> itself, the storage probe, and the shutdown signal; \<open>health_step\<close> has
  their actions in any order. Reading files, TLS identities, URL parsing and TCP connections are
  parameters.
\<close>

subsection \<open>Starting up\<close>

text \<open>The probe of the storage endpoint: what \<open>spawn_storage_health_probe\<close> decides to run.\<close>

datatype probe_plan = MarkNotServing | ProbeLoop string int

definition spawn_storage_health_probe ::
  "(string \<Rightarrow> 'u option) \<Rightarrow> ('u \<Rightarrow> string option) \<Rightarrow> ('u \<Rightarrow> int option) \<Rightarrow> string \<Rightarrow> probe_plan"
where
  "spawn_storage_health_probe parse_url host_str port_or_known_default endpoint =
     (case parse_url endpoint of
        None \<Rightarrow> MarkNotServing
      | Some parsed \<Rightarrow>
          (case host_str parsed of
             None \<Rightarrow> MarkNotServing
           | Some host \<Rightarrow>
               (case port_or_known_default parsed of
                  None \<Rightarrow> MarkNotServing
                | Some port \<Rightarrow> ProbeLoop host port)))"

record running =
  run_addr :: socket_addr
  run_identity :: "(string \<times> string) option"
    \<comment> \<open>the contents of the certificate and key files\<close>
  run_api_key :: "string option"
  run_server :: server
  run_locks :: lock_mem
  run_probe :: "probe_plan option"

datatype startup = Exits string | Panics | Serves running

definition load_identity ::
  "(string \<Rightarrow> (string, string) result) \<Rightarrow> (string \<Rightarrow> string \<Rightarrow> (unit, string) result)
     \<Rightarrow> tls_config option \<Rightarrow> ((string \<times> string) option, string) result" where
  "load_identity read_file tls_check config =
     (case config of
        None \<Rightarrow> Ok None
      | Some tls_config \<Rightarrow>
          and_then (read_file (cert_path tls_config)) (\<lambda>cert.
          and_then (read_file (key_path tls_config)) (\<lambda>key.
          and_then (tls_check cert key) (\<lambda>_. Ok (Some (cert, key))))))"

definition startup ::
  "(string \<Rightarrow> (string, string) result) \<Rightarrow> (string \<Rightarrow> string \<Rightarrow> (unit, string) result)
     \<Rightarrow> (string \<Rightarrow> probe_plan) \<Rightarrow> environment \<Rightarrow> startup" where
  "startup read_file tls_check plan env =
     (case load_grpc_config env of
        Err e \<Rightarrow> Exits e
      | Ok cfg \<Rightarrow>
          (case server_new env of
             None \<Rightarrow> Panics
           | Some (warned, srv, mem) \<Rightarrow>
               (let probe = map_option plan (result_ok (env_var env ''AWS_ENDPOINT_URL''))
                in case load_identity read_file tls_check (tls cfg) of
                     Err e \<Rightarrow> Exits e
                   | Ok identity \<Rightarrow>
                       Serves \<lparr>run_addr = addr cfg, run_identity = identity,
                               run_api_key = api_key cfg, run_server = srv, run_locks = mem,
                               run_probe = probe\<rparr>)))"

subsection \<open>Health status\<close>

datatype serving_status = Serving | NotServing

text \<open>
  The status of the service and the overall status, with what the parties still have to do: a
  pending one-time update of a misconfigured probe, a running probe loop, and whether the shutdown
  signal has arrived.
\<close>

record health =
  service_status :: serving_status
  overall_status :: serving_status
  pending_mark :: bool
  probing :: bool
  shut_down :: bool

definition health_init :: "probe_plan option \<Rightarrow> health" where
  "health_init plan =
     \<lparr>service_status = Serving,
      overall_status = Serving,
      pending_mark = (plan = Some MarkNotServing),
      probing = (case plan of Some (ProbeLoop host port) \<Rightarrow> True | _ \<Rightarrow> False),
      shut_down = False\<rparr>"

text \<open>One tick of the loop: \<open>connected\<close> is \<open>None\<close> when the connection attempt timed out.\<close>

definition probe_tick :: "bool option \<Rightarrow> health \<Rightarrow> health" where
  "probe_tick connected h =
     (let reachable = unwrap_or connected False
      in h\<lparr>service_status := (if reachable then Serving else NotServing)\<rparr>)"

definition shutdown_signal :: "health \<Rightarrow> health" where
  "shutdown_signal h = h\<lparr>shut_down := True, service_status := NotServing\<rparr>"

inductive health_step :: "health \<Rightarrow> health \<Rightarrow> bool" where
  mark: "pending_mark h \<Longrightarrow> health_step h (h\<lparr>pending_mark := False, service_status := NotServing\<rparr>)"
| tick: "probing h \<Longrightarrow> health_step h (probe_tick connected h)"
| signal: "\<not> shut_down h \<Longrightarrow> health_step h (shutdown_signal h)"

inductive_cases health_stepE: "health_step h h'"

definition health_reachable :: "probe_plan option \<Rightarrow> health \<Rightarrow> bool" where
  "health_reachable plan = reach (\<lambda>h. h = health_init plan) health_step"

section \<open>Lemmas\<close>

definition health_inv :: "probe_plan option \<Rightarrow> health \<Rightarrow> bool" where
  "health_inv plan h \<longleftrightarrow>
     overall_status h = Serving
     \<and> (probing h \<longleftrightarrow> (\<exists>host port. plan = Some (ProbeLoop host port)))
     \<and> (pending_mark h \<longrightarrow> plan = Some MarkNotServing)
     \<and> (\<not> probing h \<longrightarrow> shut_down h \<longrightarrow> service_status h = NotServing)
     \<and> (plan = Some MarkNotServing \<longrightarrow> \<not> pending_mark h \<longrightarrow> service_status h = NotServing)
     \<and> (plan = None \<longrightarrow> (service_status h = NotServing \<longleftrightarrow> shut_down h))"

interpretation hi: inductive_invariant "\<lambda>h. h = health_init plan" health_step "health_inv plan"
  for plan
proof
  show "health_inv plan h" if "h = health_init plan" for h
    using that by (auto simp: health_inv_def health_init_def split: option.splits probe_plan.splits)
  show "health_inv plan h'" if "health_inv plan h" "health_step h h'" for h h'
    using that(2,1)
    by (cases rule: health_step.cases)
      (auto simp: health_inv_def probe_tick_def shutdown_signal_def Let_def)
qed

lemma server_new_Some:
  assumes "server_new env = Some (warned, srv, mem)"
  shows "load_storage_options env = Some (srv_storage_opts srv)"
    and "srv_allowed_table_prefixes srv = load_allowed_table_prefixes env"
    and "warned \<longleftrightarrow> load_allowed_table_prefixes env = None"
    and "mem = lock_manager_default"
  using assms by (auto simp: server_new_def with_config_def Let_def)

lemma startup_Serves:
  assumes "startup read_file tls_check plan env = Serves run"
  obtains cfg where "load_grpc_config env = Ok cfg"
    "load_storage_options env = Some (srv_storage_opts (run_server run))"
    "srv_allowed_table_prefixes (run_server run) = load_allowed_table_prefixes env"
    "run_api_key run = api_key cfg"
    "load_identity read_file tls_check (tls cfg) = Ok (run_identity run)"
    "run_probe run = map_option plan (map_of env ''AWS_ENDPOINT_URL'')"
proof -
  obtain cfg where cfg: "load_grpc_config env = Ok cfg"
    using assms by (auto simp: startup_def split: result.splits)
  obtain warned srv lk where n: "server_new env = Some (warned, srv, lk)"
    using assms cfg by (auto simp: startup_def split: option.splits)
  note srv = server_new_Some [OF n]
  have "run_server run = srv" "run_api_key run = api_key cfg"
    "load_identity read_file tls_check (tls cfg) = Ok (run_identity run)"
    "run_probe run = map_option plan (map_of env ''AWS_ENDPOINT_URL'')"
    using assms cfg n env_var_started [OF srv(1)]
    by (auto simp: startup_def Let_def split: result.splits)
  with that cfg srv show thesis by simp
qed

section \<open>Properties\<close>

text \<open>
  Property C37 (health_follows_storage_and_shutdown). The overall status, which decides about
  restarts, never changes. Without a storage endpoint the service is serving exactly until the
  shutdown signal; with a malformed endpoint it is not serving once that has been reported, for
  good; and unless a probe loop runs the shutdown signal is final.
\<close>

theorem health_follows_storage_and_shutdown:
  assumes "health_reachable plan h"
  shows "overall_status h = Serving
    \<and> (plan = None \<longrightarrow> (service_status h = NotServing \<longleftrightarrow> shut_down h))
    \<and> (plan = Some MarkNotServing \<and> \<not> pending_mark h \<longrightarrow> service_status h = NotServing)
    \<and> ((\<forall>host port. plan \<noteq> Some (ProbeLoop host port)) \<and> shut_down h \<longrightarrow>
         service_status h = NotServing)"
  using hi.reach_invariant [OF assms [unfolded health_reachable_def]]
  by (auto simp: health_inv_def)


text \<open>
  Property C13 (serving_process_enforces_its_configuration). A process that serves enforces what its
  environment asks for: with a non-blank API key variable every request that does not present the
  trimmed key is refused; with a non-blank entry in the allowlist variable a table that is at or
  below no entry is denied; with either TLS variable set it serves with the certificate and key read
  from both files.
\<close>

theorem serving_process_enforces_its_configuration:
  assumes "startup read_file tls_check plan env = Serves run"
  shows "(\<forall>v req get to_str. map_of env ''DELTA_TXN_GRPC_API_KEY'' = Some v \<and> trim v \<noteq> []
        \<and> Option.bind (get req ''x-api-key'') to_str \<noteq> Some (trim v)
        \<and> Option.bind (get req ''authorization'') to_str \<noteq> Some (''Bearer '' @ trim v) \<longrightarrow>
      make_auth_interceptor get to_str (run_api_key run) req
        = Err (mk_status Unauthenticated ''missing or invalid api key''))
    \<and> (\<forall>v uri. map_of env ''DELTA_TXN_ALLOWED_TABLE_PREFIXES'' = Some v
        \<and> (\<exists>p\<in>set (split_char (CHR '','') v). trim p \<noteq> [])
        \<and> (\<forall>p\<in>set (split_char (CHR '','') v). trim p \<noteq> [] \<longrightarrow>
             \<not> prefix (segments (chop_slash (trim p))) (segments uri)) \<longrightarrow>
      check_table_uri_allowed (run_server run) uri = Err (not_allowed uri))
    \<and> (run_identity run = None \<longleftrightarrow>
        map_of env ''DELTA_TXN_GRPC_TLS_CERT'' = None \<and> map_of env ''DELTA_TXN_GRPC_TLS_KEY'' = None)"
proof -
  obtain cfg where cfg: "load_grpc_config env = Ok cfg"
    and opts: "load_storage_options env = Some (srv_storage_opts (run_server run))"
    and allow: "srv_allowed_table_prefixes (run_server run) = load_allowed_table_prefixes env"
    and key: "run_api_key run = api_key cfg"
    and identity: "load_identity read_file tls_check (tls cfg) = Ok (run_identity run)"
    using assms by (rule startup_Serves)
  note var = env_var_started [OF opts]
  have tls: "tls cfg = None \<longleftrightarrow>
      map_of env ''DELTA_TXN_GRPC_TLS_CERT'' = None \<and> map_of env ''DELTA_TXN_GRPC_TLS_KEY'' = None"
    and api: "api_key cfg = load_api_key env"
    using cfg by (auto simp: load_grpc_config_def Let_def rust_simps var split: option.splits)
  show ?thesis
  proof (intro conjI allI impI, goal_cases)
    case (1 v req get to_str)
    then have "run_api_key run = Some (trim v)"
      by (simp add: key api load_api_key_def var Let_def)
    with 1 show ?case by (simp add: interceptor_with_key)
  next
    case (2 v uri)
    then have "load_allowed_table_prefixes env =
        Some (filter (\<lambda>s. s \<noteq> []) (map trim (split_char (CHR '','') v)))"
      by (auto simp: load_allowed_table_prefixes_def var Let_def filter_empty_conv)
    with 2 show ?case
      by (auto simp: check_table_uri_allowed_iff allow is_table_uri_allowed_segments at_or_below_def)
  next
    case 3
    show ?case
      unfolding tls [symmetric] using identity
      by (cases "tls cfg"; cases "run_identity run") (auto simp: load_identity_def rust_simps)
  qed
qed

section \<open>Witnesses\<close>

theorem health_follows_storage_and_shutdown_witness:
  "\<exists>h. health_reachable None h \<and> shut_down h \<and> overall_status h = Serving
     \<and> service_status h = NotServing"
proof -
  let ?h = "shutdown_signal (health_init None)"
  have r: "health_reachable None ?h"
    unfolding health_reachable_def
    by (rule reach_step [OF reach_init]) (auto intro: health_step.signal simp: health_init_def)
  have "shut_down ?h" by (simp add: shutdown_signal_def)
  with health_follows_storage_and_shutdown [OF r] r show ?thesis by blast
qed

lemma sample_startup:
  "\<exists>run. startup (\<lambda>_. Err ''no file'') (\<lambda>_ _. Ok ()) (\<lambda>_. MarkNotServing) sample_env = Serves run"
  using sample_env_config sample_env_options
  by (simp add: startup_def server_new_def with_config_def load_identity_def Let_def)

theorem serving_process_enforces_its_configuration_witness:
  "\<exists>run. startup (\<lambda>_. Err ''no file'') (\<lambda>_ _. Ok ()) (\<lambda>_. MarkNotServing) sample_env = Serves run
     \<and> make_auth_interceptor (\<lambda>_ _. None) Some (run_api_key run) ()
         = Err (mk_status Unauthenticated ''missing or invalid api key'')
     \<and> check_table_uri_allowed (run_server run) ''s3://other/t'' = Err (not_allowed ''s3://other/t'')"
proof -
  obtain run where
    run: "startup (\<lambda>_. Err ''no file'') (\<lambda>_ _. Ok ()) (\<lambda>_. MarkNotServing) sample_env = Serves run"
    using sample_startup by blast
  note enforced = serving_process_enforces_its_configuration [OF run]
  have "trim '' key '' \<noteq> []" by code_simp
  moreover have "map_of sample_env ''DELTA_TXN_GRPC_API_KEY'' = Some '' key ''"
    by (simp add: sample_env_def)
  ultimately have "make_auth_interceptor (\<lambda>_ _. None) Some (run_api_key run) ()
      = Err (mk_status Unauthenticated ''missing or invalid api key'')"
    using enforced [THEN conjunct1, rule_format, of "'' key ''" "\<lambda>_ _. None" "()" Some] by simp
  moreover have "\<exists>p\<in>set (split_char (CHR '','') ''s3://b/t, ,''). trim p \<noteq> []"
    "\<forall>p\<in>set (split_char (CHR '','') ''s3://b/t, ,''). trim p \<noteq> [] \<longrightarrow>
       \<not> prefix (segments (chop_slash (trim p))) (segments ''s3://other/t'')"
    by code_simp+
  moreover have "map_of sample_env ''DELTA_TXN_ALLOWED_TABLE_PREFIXES'' = Some ''s3://b/t, ,''"
    by (simp add: sample_env_def)
  ultimately show ?thesis
    using run enforced [THEN conjunct2, THEN conjunct1, rule_format, of "''s3://b/t, ,''" "''s3://other/t''"]
    by blast
qed

end
