(* ===== verification/Graceful_Shutdown.thy ===== *)
theory Graceful_Shutdown
  imports Commit_Progress Process
begin

section \<open>Graceful shutdown (main.rs)\<close>

text \<open>
  The life of a serving process: its commits, its health status and whether it has exited. When the
  shutdown signal has arrived, \<open>serve_with_shutdown\<close> accepts no new requests; it returns, and \<open>main\<close>
  with it, once no request is in flight any more. The storage probe goes on in the background until
  the process exits.
\<close>

record ('w, 't) process_sys =
  ps_commits :: "('w, 't) commit_sys"
  ps_health :: health
  ps_exited :: bool

datatype 'w process_event = Work "'w commit_event" | Tick "bool option" | Signal | Exit

definition process_init :: "probe_plan option \<Rightarrow> 'w \<Rightarrow> ('w, 't) process_sys" where
  "process_init plan w =
     \<lparr>ps_commits = commit_init w, ps_health = health_init plan, ps_exited = False\<rparr>"

fun begins :: "'w commit_event \<Rightarrow> bool" where
  "begins (Handler t (LockAction (Enter k))) = True"
| "begins ev = False"

text \<open>A commit is in flight from its first action until it has given its handle back.\<close>

definition in_flight :: "nat \<Rightarrow> ('w, 't) commit_sys \<Rightarrow> bool" where
  "in_flight n s = list_ex (\<lambda>t. pcs (cy_locks s) t \<noteq> Idle) [0..<n]"

fun process_exec ::
  "(('w, 't) commit_sys \<Rightarrow> 'w commit_event \<Rightarrow> ('w, 't) commit_sys option) \<Rightarrow> nat
     \<Rightarrow> ('w, 't) process_sys \<Rightarrow> 'w process_event \<Rightarrow> ('w, 't) process_sys option" where
  "process_exec work n s (Work ev) =
     (if ps_exited s \<or> shut_down (ps_health s) \<and> begins ev then None
      else map_option (\<lambda>c. s\<lparr>ps_commits := c\<rparr>) (work (ps_commits s) ev))"
| "process_exec work n s (Tick connected) =
     (if ps_exited s \<or> \<not> probing (ps_health s) then None
      else Some (s\<lparr>ps_health := probe_tick connected (ps_health s)\<rparr>))"
| "process_exec work n s Signal =
     (if ps_exited s \<or> shut_down (ps_health s) then None
      else Some (s\<lparr>ps_health := shutdown_signal (ps_health s)\<rparr>))"
| "process_exec work n s Exit =
     (if ps_exited s \<or> \<not> shut_down (ps_health s) \<or> in_flight n (ps_commits s) then None
      else Some (s\<lparr>ps_exited := True\<rparr>))"

section \<open>Lemmas\<close>

text \<open>Actions of handlers cost, and so does the exit; ticks and other processes do not.\<close>

fun process_cost :: "'w process_event \<Rightarrow> nat" where
  "process_cost (Work ev) = of_bool (is_handler ev)"
| "process_cost (Tick connected) = 0"
| "process_cost Signal = 0"
| "process_cost Exit = 1"

definition process_rank :: "nat \<Rightarrow> ('w, 't) process_sys \<Rightarrow> nat" where
  "process_rank n s = commit_rank n (ps_commits s) + of_bool (\<not> ps_exited s)"

definition process_inv :: "(string \<Rightarrow> nat) \<Rightarrow> nat \<Rightarrow> ('w, 't) process_sys \<Rightarrow> bool" where
  "process_inv sh n s \<longleftrightarrow>
     progress_inv sh n (ps_commits s) \<and>
     (ps_exited s \<longrightarrow> shut_down (ps_health s) \<and> \<not> in_flight n (ps_commits s))"

lemma probe_tick_shut_down [simp]: "shut_down (probe_tick connected h) = shut_down h"
  by (simp add: probe_tick_def Let_def)

lemma process_inv_exec:
  assumes "\<And>s ev s'. work s ev = Some s' \<Longrightarrow> commit_event_exec d sj srv sh job n env s ev = Some s'"
    and "process_inv sh n s" and "process_exec work n s ev = Some s'"
  shows "process_inv sh n s'"
proof (cases ev)
  case (Work cev)
  then obtain c where c: "work (ps_commits s) cev = Some c" "s' = s\<lparr>ps_commits := c\<rparr>"
    "\<not> ps_exited s"
    using assms(3) by (auto split: if_splits)
  have "progress_inv sh n c"
    by (rule progress_inv_event [OF _ assms(1) [OF c(1)]]) (use assms(2) in \<open>simp add: process_inv_def\<close>)
  with c show ?thesis by (simp add: process_inv_def)
qed (use assms(2,3) in \<open>auto simp: process_inv_def shutdown_signal_def split: if_splits\<close>)

lemma process_rank_exec:
  assumes "\<And>s ev s'. work s ev = Some s' \<Longrightarrow> commit_event_exec d sj srv sh job n env s ev = Some s'"
    and "process_inv sh n s" and "process_exec work n s ev = Some s'"
  shows "process_cost ev + process_rank n s' \<le> process_rank n s"
proof (cases ev)
  case (Work cev)
  then obtain c where c: "work (ps_commits s) cev = Some c" "s' = s\<lparr>ps_commits := c\<rparr>"
    using assms(3) by (auto split: if_splits)
  have "of_bool (is_handler cev) + commit_rank n c \<le> commit_rank n (ps_commits s)"
    by (rule commit_rank_event [OF _ assms(1) [OF c(1)]]) (use assms(2) in \<open>simp add: process_inv_def\<close>)
  with c Work show ?thesis by (simp add: process_rank_def)
qed (use assms(3) in \<open>auto simp: process_rank_def split: if_splits\<close>)

interpretation pe: ranked_system
  "process_exec (commit_event_exec d sj srv sh job n env) n" "process_inv sh n" process_cost
  "process_rank n"
  for d sj srv sh job n env
  by unfold_locales
    (rule process_inv_exec [of "commit_event_exec d sj srv sh job n env"], assumption+,
      rule process_rank_exec [of "commit_event_exec d sj srv sh job n env"])

interpretation pu: ranked_system
  "process_exec (uncancelled_exec d sj srv sh job n env) n" "process_inv sh n" process_cost
  "process_rank n"
  for d sj srv sh job n env
  by unfold_locales
    (rule process_inv_exec [of "uncancelled_exec d sj srv sh job n env"], erule uncancelled_event, assumption+,
      rule process_rank_exec [of "uncancelled_exec d sj srv sh job n env"], erule uncancelled_event)

lemma process_inv_init: "n < 2 ^ 64 \<Longrightarrow> process_inv sh n (process_init plan w)"
  by (simp add: process_inv_def process_init_def progress_inv_init)

lemma process_rank_init: "process_rank n (process_init plan w) = 11 * n + 1"
  by (simp add: process_rank_def process_init_def commit_rank_init)

subsection \<open>Commits that have begun\<close>

definition begun :: "('w, 't) commit_sys \<Rightarrow> task \<Rightarrow> bool" where
  "begun s t \<longleftrightarrow> pcs (cy_locks s) t \<noteq> Idle \<or> cy_phase s t \<noteq> CWaiting"

lemma begun_rank: "phase_fits pc ph \<Longrightarrow> handler_rank pc ph \<le> 11"
  by (cases pc; cases ph) (auto simp: handler_rank_def)

lemma begun_keeps:
  assumes inv: "progress_inv sh n s" and ev: "commit_event_exec d sj srv sh job n env s ev = Some s'"
  shows "begun s t \<Longrightarrow> begun s' t"
proof (cases ev)
  case (Handler u act)
  then have ex: "commit_exec d sj srv sh job s u act = Some s'" and u: "u < n"
    using ev by (auto split: if_splits)
  note moves = commit_exec_moves [OF ex inv u]
  have "phase_fits (pcs (cy_locks s) u) (cy_phase s u)" using inv by (simp add: progress_inv_def)
  then have "handler_rank (pcs (cy_locks s') u) (cy_phase s' u) < 11"
    using moves(3) begun_rank order_less_le_trans by blast
  then have "begun s' u" by (auto simp: begun_def handler_rank_def split: if_splits)
  then show "begun s t \<Longrightarrow> begun s' t"
    using moves(4) [of t] by (cases "t = u") (auto simp: begun_def)
qed (use ev in \<open>auto simp: begun_def split: if_splits\<close>)

lemma not_begun_keeps:
  assumes inv: "progress_inv sh n s" and ev: "commit_event_exec d sj srv sh job n env s ev = Some s'"
    and "\<not> begins ev" and idle: "\<not> begun s t"
  shows "\<not> begun s' t"
proof (cases ev)
  case (Handler u act)
  then have ex: "commit_exec d sj srv sh job s u act = Some s'" and u: "u < n"
    using ev by (auto split: if_splits)
  have "u \<noteq> t"
  proof
    assume "u = t"
    then have pc: "pcs (cy_locks s) u = Idle" "cy_phase s u = CWaiting"
      using idle by (auto simp: begun_def)
    show False
    proof (cases act)
      case (LockAction lact)
      with ex pc(1) assms(3) Handler show False
        by (cases lact) (auto split: option.splits)
    qed (use ex pc(2) in auto)
  qed
  then show ?thesis using commit_exec_moves(4) [OF ex inv u, of t] idle by (auto simp: begun_def)
qed (use ev idle in \<open>auto simp: begun_def split: if_splits\<close>)

text \<open>What the time between the signal and the exit keeps of the commits of \<open>s0\<close>.\<close>

definition drains :: "(string \<Rightarrow> nat) \<Rightarrow> nat \<Rightarrow> ('w, 't) process_sys \<Rightarrow> ('w, 't) process_sys \<Rightarrow> bool"
where
  "drains sh n s0 s \<longleftrightarrow>
     process_inv sh n s \<and> shut_down (ps_health s) \<and>
     (\<forall>t. begun (ps_commits s) t \<longleftrightarrow> begun (ps_commits s0) t) \<and>
     (\<forall>t. cy_phase (ps_commits s) t = CCancelled \<longrightarrow> cy_phase (ps_commits s0) t = CCancelled)"

lemma drains_exec:
  assumes d: "drains sh n s0 s"
    and ex: "process_exec (uncancelled_exec d sj srv sh job n env) n s ev = Some s'"
  shows "drains sh n s0 s'"
proof -
  have inv: "process_inv sh n s'"
    by (rule pu.invariant_exec [OF _ ex]) (use d in \<open>simp add: drains_def\<close>)
  show ?thesis
  proof (cases ev)
    case (Work cev)
    then obtain c where c: "uncancelled_exec d sj srv sh job n env (ps_commits s) cev = Some c"
      "s' = s\<lparr>ps_commits := c\<rparr>" "\<not> begins cev"
      using ex d by (auto simp: drains_def split: if_splits)
    have p: "progress_inv sh n (ps_commits s)" using d by (simp add: drains_def process_inv_def)
    note ev = uncancelled_event [OF c(1)]
    have "begun c t \<longleftrightarrow> begun (ps_commits s) t" for t
      using begun_keeps [OF p ev] not_begun_keeps [OF p ev c(3)] by blast
    moreover have "cy_phase c t = CCancelled \<Longrightarrow> cy_phase (ps_commits s) t = CCancelled" for t
      by (rule uncancelled_keeps [OF p c(1)])
    ultimately show ?thesis using d inv by (simp add: drains_def c(2))
  qed (use d ex inv in \<open>auto simp: drains_def shutdown_signal_def split: if_splits\<close>)
qed

lemma begins_other: "(\<And>k. act \<noteq> LockAction (Enter k)) \<Longrightarrow> \<not> begins (Handler u act)"
  by (cases "Handler u act" rule: begins.cases) auto

lemma drained_exits:
  assumes "drains sh n s0 s"
    and stuck: "\<And>ev. 0 < process_cost ev \<Longrightarrow>
      process_exec (uncancelled_exec d sj srv sh job n env) n s ev = None"
  shows "ps_exited s"
proof (rule ccontr)
  assume running: "\<not> ps_exited s"
  have inv: "progress_inv sh n (ps_commits s)" and sd: "shut_down (ps_health s)"
    using assms(1) by (auto simp: drains_def process_inv_def)
  have "pcs (cy_locks (ps_commits s)) t = Idle" for t
  proof (rule begun_progress [OF inv])
    fix u act
    assume "\<not> cancels (cy_phase (ps_commits s) u) act" "u < n" "\<And>k. act \<noteq> LockAction (Enter k)"
    then show "commit_exec d sj srv sh job (ps_commits s) u act = None"
      using stuck [of "Work (Handler u act)"] running
      by (simp add: begins_other del: commit_exec.simps)
  qed
  then have "\<not> in_flight n (ps_commits s)" by (simp add: in_flight_def list_ex_iff)
  with stuck [of Exit] running sd show False by simp
qed

lemma exited_quiet:
  assumes "process_inv sh n s" "ps_exited s"
  shows "locks (cy_locks (ps_commits s)) = Map.empty"
    and "t < n \<Longrightarrow> settled (cy_phase (ps_commits s) t) \<or> \<not> begun (ps_commits s) t"
proof -
  have li: "lock_inv sh n (cy_locks (ps_commits s))"
    and fits: "phase_fits (pcs (cy_locks (ps_commits s)) u) (cy_phase (ps_commits s) u)" for u
    using assms by (auto simp: process_inv_def progress_inv_def)
  have idle: "pcs (cy_locks (ps_commits s)) u = Idle" if "u < n" for u
    using assms that by (auto simp: process_inv_def in_flight_def list_ex_iff)
  show "t < n \<Longrightarrow> settled (cy_phase (ps_commits s) t) \<or> \<not> begun (ps_commits s) t"
    using fits [of t] idle [of t] by (auto simp: begun_def)
  have "pcs (cy_locks (ps_commits s)) u = Idle" for u
    using idle li by (cases "u < n") (auto simp: lock_inv_def counts_ok_def)
  with li show "locks (cy_locks (ps_commits s)) = Map.empty" by (simp add: quiescent_map_empty)
qed

section \<open>Properties\<close>


section \<open>Witnesses\<close>

text \<open>The signal arrives while task 0 is in its section and task 1 has not begun.\<close>

abbreviation sample_process_events where
  "sample_process_events \<equiv> map Work sample_events @ [Signal]"


end
