(* ===== verification/Request_Layers.thy ===== *)
theory Request_Layers
  imports Delta_Errors
begin

section \<open>Metrics and trace context of a request (telemetry/metrics.rs, telemetry/trace\_context.rs)\<close>

text \<open>
  The two tower layers around every call. \<open>GrpcMetricsService\<close> records a call when its status is
  known: at once when the call fails or when the response headers carry the status, and otherwise in
  \<open>MetricsBody\<close>, from the trailers of the body or from its end. The instruments are the lists of
  what was added to them. The status of a header map (\<open>Status::from_header_map\<close>), the text of a
  status code and the elapsed time are parameters.
\<close>

subsection \<open>Service and method of a path\<close>

text \<open>\<open>path.rsplit('/').next()\<close> and \<open>path.rsplitn(2, '/').last()\<close>.\<close>

definition rpc_method :: "string \<Rightarrow> string" where
  "rpc_method path = last (split_char (CHR ''/'') path)"

definition rsplitn_last :: "string \<Rightarrow> string" where
  "rsplitn_last path =
     (let pieces = split_char (CHR ''/'') path
      in if length pieces < 2 then path else join_char (CHR ''/'') (butlast pieces))"

definition rpc_service :: "string \<Rightarrow> string" where
  "rpc_service path = dropWhile (\<lambda>c. c = CHR ''/'') (rsplitn_last path)"

subsection \<open>Recording\<close>

type_synonym attributes = "(string \<times> string) list"

record instruments =
  requests :: "attributes list"
  errors :: "attributes list"
  latencies :: "(f64 \<times> attributes) list"

definition no_instruments :: instruments where
  "no_instruments = \<lparr>requests = [], errors = [], latencies = []\<rparr>"

definition record_call ::
  "(code \<Rightarrow> string) \<Rightarrow> string \<Rightarrow> string \<Rightarrow> f64 \<Rightarrow> code \<Rightarrow> instruments \<Rightarrow> instruments" where
  "record_call code_text service meth elapsed_ms code m =
     (let attrs = [(''rpc.system'', ''grpc''), (''rpc.service'', service), (''rpc.method'', meth),
                   (''rpc.grpc.status_code'', code_text code)];
          m = m\<lparr>requests := requests m @ [attrs]\<rparr>;
          m = (if code \<noteq> CodeOk then m\<lparr>errors := errors m @ [attrs]\<rparr> else m)
      in m\<lparr>latencies := latencies m @ [(elapsed_ms, attrs)]\<rparr>)"

subsection \<open>The call\<close>

text \<open>A response as far as the layer looks at it; the recorder holds the names of the call.\<close>

record ('h, 'b) http_response =
  headers :: 'h
  body :: 'b

type_synonym recorder = "string \<times> string"

record 'b metrics_body =
  inner :: 'b
  recorder :: "recorder option"

definition metrics_call ::
  "(code \<Rightarrow> string) \<Rightarrow> ('h \<Rightarrow> code option) \<Rightarrow> f64 \<Rightarrow> string
     \<Rightarrow> (('h, 'b) http_response, 'e) result \<Rightarrow> instruments
     \<Rightarrow> (('h, 'b metrics_body) http_response, 'e) result \<times> instruments" where
  "metrics_call code_text from_header_map elapsed_ms path called m =
     (let meth = rpc_method path;
          service = rpc_service path
      in case called of
           Err err \<Rightarrow> (Err err, record_call code_text service meth elapsed_ms Unknown m)
         | Ok response \<Rightarrow>
             (case from_header_map (headers response) of
                Some code \<Rightarrow>
                  (Ok \<lparr>headers = headers response,
                       body = \<lparr>inner = body response, recorder = None\<rparr>\<rparr>,
                   record_call code_text service meth elapsed_ms code m)
              | None \<Rightarrow>
                  (Ok \<lparr>headers = headers response,
                       body = \<lparr>inner = body response, recorder = Some (service, meth)\<rparr>\<rparr>, m)))"

subsection \<open>The body\<close>

datatype ('d, 'h) frame = DataFrame 'd | Trailers 'h

datatype ('d, 'h, 'e) poll =
    Pending
  | Ready "(('d, 'h) frame, 'e) result option"

text \<open>\<open>MetricsRecorder::record\<close> of a recorder that is taken out of the body.\<close>

definition take_and_record ::
  "(code \<Rightarrow> string) \<Rightarrow> f64 \<Rightarrow> code \<Rightarrow> 'b metrics_body \<times> instruments
     \<Rightarrow> 'b metrics_body \<times> instruments" where
  "take_and_record code_text elapsed_ms code bm =
     (case recorder (fst bm) of
        None \<Rightarrow> bm
      | Some (service, meth) \<Rightarrow>
          ((fst bm)\<lparr>recorder := None\<rparr>, record_call code_text service meth elapsed_ms code (snd bm)))"

text \<open>\<open>poll_frame\<close>, given what the inner body answered; the answer is passed on unchanged.\<close>

definition poll_frame ::
  "(code \<Rightarrow> string) \<Rightarrow> ('h \<Rightarrow> code option) \<Rightarrow> f64 \<Rightarrow> ('d, 'h, 'e) poll
     \<Rightarrow> 'b metrics_body \<times> instruments
     \<Rightarrow> ('d, 'h, 'e) poll \<times> ('b metrics_body \<times> instruments)" where
  "poll_frame code_text from_header_map elapsed_ms answer bm =
     (answer,
      case answer of
        Ready (Some (Ok (Trailers trailers))) \<Rightarrow>
          take_and_record code_text elapsed_ms (unwrap_or (from_header_map trailers) Unknown) bm
      | Ready (Some (Ok (DataFrame _))) \<Rightarrow> bm
      | Ready None \<Rightarrow> take_and_record code_text elapsed_ms Unknown bm
      | Ready (Some (Err _)) \<Rightarrow> take_and_record code_text elapsed_ms Unknown bm
      | Pending \<Rightarrow> bm)"

text \<open>A body polled repeatedly, with the time and the inner answer of each poll.\<close>

fun poll_frames ::
  "(code \<Rightarrow> string) \<Rightarrow> ('h \<Rightarrow> code option) \<Rightarrow> (f64 \<times> ('d, 'h, 'e) poll) list
     \<Rightarrow> 'b metrics_body \<times> instruments
     \<Rightarrow> ('d, 'h, 'e) poll list \<times> ('b metrics_body \<times> instruments)" where
  "poll_frames ct fh [] bm = ([], bm)"
| "poll_frames ct fh ((elapsed_ms, answer) # rest) bm =
     (case poll_frame ct fh elapsed_ms answer bm of
        (out, bm1) \<Rightarrow> (case poll_frames ct fh rest bm1 of (outs, bm2) \<Rightarrow> (out # outs, bm2)))"

subsection \<open>Trace context\<close>

text \<open>
  \<open>HeaderExtractor\<close> and \<open>TraceContextService::call\<close>. The header map (\<open>get\<close>, \<open>to_str\<close>, \<open>keys\<close>), the
  propagator (\<open>extract\<close>) and whether a span accepts its parent are parameters.
\<close>

record 'cx span =
  span_name :: string
  span_fields :: attributes
  span_parent :: "'cx option"

definition extractor_get ::
  "('h \<Rightarrow> string \<Rightarrow> 'v option) \<Rightarrow> ('v \<Rightarrow> string option) \<Rightarrow> 'h \<Rightarrow> string \<Rightarrow> string option" where
  "extractor_get get to_str hs key = Option.bind (get hs key) to_str"

definition extractor_keys :: "('h \<Rightarrow> string list) \<Rightarrow> 'h \<Rightarrow> string list" where
  "extractor_keys keys hs = map (\<lambda>key. key) (keys hs)"

text \<open>The span of a call, whether setting its parent failed (a warning), and the inner answer.\<close>

definition trace_call ::
  "((string \<Rightarrow> string option) \<Rightarrow> string list \<Rightarrow> 'cx) \<Rightarrow> ('cx \<Rightarrow> bool)
     \<Rightarrow> ('h \<Rightarrow> string \<Rightarrow> 'v option) \<Rightarrow> ('v \<Rightarrow> string option) \<Rightarrow> ('h \<Rightarrow> string list)
     \<Rightarrow> 'h \<Rightarrow> string \<Rightarrow> ('cx span \<Rightarrow> 'a) \<Rightarrow> 'cx span \<times> bool \<times> 'a" where
  "trace_call extract set_parent get to_str keys hs path inner_call =
     (let parent_cx = extract (extractor_get get to_str hs) (extractor_keys keys hs);
          meth = rpc_method path;
          service = rpc_service path;
          span = \<lparr>span_name = ''grpc.request'',
                  span_fields = [(''rpc.system'', ''grpc''), (''rpc.service'', service),
                                 (''rpc.method'', meth)],
                  span_parent = None\<rparr>;
          ok = set_parent parent_cx;
          span = (if ok then span\<lparr>span_parent := Some parent_cx\<rparr> else span)
      in (span, \<not> ok, inner_call span))"

section \<open>Lemmas\<close>

text \<open>The status a poll settles a call with, if it settles it.\<close>

fun settles :: "('h \<Rightarrow> code option) \<Rightarrow> ('d, 'h, 'e) poll \<Rightarrow> code option" where
  "settles fh (Ready (Some (Ok (Trailers trailers)))) = Some (unwrap_or (fh trailers) Unknown)"
| "settles fh (Ready (Some (Ok (DataFrame d)))) = None"
| "settles fh (Ready None) = Some Unknown"
| "settles fh (Ready (Some (Err e))) = Some Unknown"
| "settles fh Pending = None"

lemma poll_frame_settles:
  "poll_frame ct fh el answer bm =
     (answer, case settles fh answer of None \<Rightarrow> bm | Some c \<Rightarrow> take_and_record ct el c bm)"
  by (cases "(fh, answer)" rule: settles.cases) (auto simp: poll_frame_def)

lemma poll_frames_recorded:
  "recorder b = None \<Longrightarrow> poll_frames ct fh polls (b, m) = (map snd polls, (b, m))"
proof (induction polls)
  case (Cons p polls)
  then show ?case
    by (cases p) (auto simp: poll_frame_settles take_and_record_def split: option.splits)
qed simp

text \<open>The first poll that settles the call, with its time.\<close>

definition settlement ::
  "('h \<Rightarrow> code option) \<Rightarrow> (f64 \<times> ('d, 'h, 'e) poll) list \<Rightarrow> (f64 \<times> code) option" where
  "settlement fh polls = find_map (\<lambda>(el, answer). map_option (Pair el) (settles fh answer)) polls"

lemma poll_frames_settlement:
  "recorder b = Some (service, meth) \<Longrightarrow>
     poll_frames ct fh polls (b, m) =
       (map snd polls,
        case settlement fh polls of
          None \<Rightarrow> (b, m)
        | Some (el, c) \<Rightarrow> (b\<lparr>recorder := None\<rparr>, record_call ct service meth el c m))"
proof (induction polls)
  case Nil
  then show ?case by (simp add: settlement_def)
next
  case (Cons p polls)
  obtain el answer where p: "p = (el, answer)" by (cases p)
  show ?case
  proof (cases "settles fh answer")
    case None
    with Cons p show ?thesis by (simp add: poll_frame_settles settlement_def split: prod.splits)
  next
    case (Some c)
    with Cons.prems p show ?thesis
      by (simp add: poll_frame_settles settlement_def take_and_record_def poll_frames_recorded)
  qed
qed

lemma record_call_requests:
  "length (requests (record_call ct service meth el c m)) = Suc (length (requests m))"
  "length (latencies (record_call ct service meth el c m)) = Suc (length (latencies m))"
  "length (errors (record_call ct service meth el c m)) =
     length (errors m) + (if c = CodeOk then 0 else 1)"
  by (simp_all add: record_call_def Let_def)

lemma split_last:
  "CHR ''/'' \<notin> set b \<Longrightarrow> split_char (CHR ''/'') (a @ CHR ''/'' # b) = split_char (CHR ''/'') a @ [b]"
proof (induction a)
  case Nil
  have "CHR ''/'' \<notin> set b \<Longrightarrow> split_char (CHR ''/'') b = [b]" by (induction b) auto
  with Nil show ?case by simp
next
  case (Cons x a)
  then show ?case by (cases "split_char (CHR ''/'') a") auto
qed

section \<open>Properties\<close>

text \<open>
  However often the body of a call is polled, also past its
  end, the call is recorded once: at once with UNKNOWN when the inner service fails, at once with
  the status in the headers when there is one, and otherwise at the first poll that yields trailers,
  an error or the end, with the status of the trailers or UNKNOWN; with no such poll it is not
  recorded at all. The polls are answered exactly as the inner body answers them.
\<close>

theorem calls_are_recorded_once:
  "(case metrics_call ct fh el path called m of
      (Err e, m') \<Rightarrow> called = Err e \<and> m' = record_call ct (rpc_service path) (rpc_method path) el Unknown m
    | (Ok response, m') \<Rightarrow>
        (case poll_frames ct fh polls (body response, m') of
           (answers, (b, m'')) \<Rightarrow>
             answers = map snd polls \<and>
             m'' = (case fh (headers response) of
                      Some c \<Rightarrow> record_call ct (rpc_service path) (rpc_method path) el c m
                    | None \<Rightarrow>
                        (case settlement fh polls of
                           Some (el', c) \<Rightarrow>
                             record_call ct (rpc_service path) (rpc_method path) el' c m
                         | None \<Rightarrow> m))))"
  by (auto simp: metrics_call_def Let_def poll_frames_recorded poll_frames_settlement
      split: result.splits option.splits prod.splits)

text \<open>
  Over any sequence of recorded calls the request counter and the
  latency histogram have one entry per call, and the error counter has exactly the calls whose
  status is not OK.
\<close>

theorem instruments_agree:
  "(let m = fold (\<lambda>(service, meth, el, c). record_call ct service meth el c) calls no_instruments
    in length (requests m) = length calls \<and> length (latencies m) = length calls
       \<and> length (errors m) = length (filter (\<lambda>(service, meth, el, c). c \<noteq> CodeOk) calls))"
proof -
  have "length (requests m') = length (requests m) + length calls
      \<and> length (latencies m') = length (latencies m) + length calls
      \<and> length (errors m') =
          length (errors m) + length (filter (\<lambda>(service, meth, el, c). c \<noteq> CodeOk) calls)"
    if "m' = fold (\<lambda>(service, meth, el, c). record_call ct service meth el c) calls m" for m m'
    using that
    by (induction calls arbitrary: m m') (auto simp: record_call_requests)
  from this [OF refl, of no_instruments] show ?thesis
    by (simp add: Let_def no_instruments_def)
qed

text \<open>
  For a gRPC path the layers report its service
  and its method, whatever characters these consist of, as long as the method has no slash and the
  service does not begin with one; the span of a call carries the same two names.
\<close>

theorem path_is_split_into_service_and_method:
  assumes "CHR ''/'' \<notin> set meth" and "service = [] \<or> hd service \<noteq> CHR ''/''"
  shows "rpc_method (''/'' @ service @ ''/'' @ meth) = meth
    \<and> rpc_service (''/'' @ service @ ''/'' @ meth) = service
    \<and> span_fields (fst (trace_call extract set_parent get to_str keys hs
         (''/'' @ service @ ''/'' @ meth) inner_call))
      = [(''rpc.system'', ''grpc''), (''rpc.service'', service), (''rpc.method'', meth)]"
proof -
  let ?path = "(''/'' @ service) @ CHR ''/'' # meth"
  have split: "split_char (CHR ''/'') ?path = split_char (CHR ''/'') (''/'' @ service) @ [meth]"
    by (rule split_last [OF assms(1)])
  have m: "rpc_method ?path = meth"
    unfolding rpc_method_def split by simp
  have "length (split_char (CHR ''/'') ?path) \<ge> 2"
    unfolding split by (simp add: Suc_le_eq)
  then have "rsplitn_last ?path = ''/'' @ service"
    unfolding rsplitn_last_def split by (simp add: Let_def join_split_char del: split_char.simps)
  then have s: "rpc_service ?path = service"
    using assms(2) by (cases service) (auto simp: rpc_service_def)
  show ?thesis
    using m s by (simp add: trace_call_def Let_def)
qed

theorem path_is_split_into_service_and_method_witness:
  "rpc_method ''/delta.txn.v1.DeltaTxnService/Commit'' = ''Commit''
   \<and> rpc_service ''/delta.txn.v1.DeltaTxnService/Commit'' = ''delta.txn.v1.DeltaTxnService''"
  using path_is_split_into_service_and_method
    [of "''Commit''" "''delta.txn.v1.DeltaTxnService''" "\<lambda>_ _. ()" "\<lambda>_. True" "\<lambda>_ _. None"
      "\<lambda>_. None" "\<lambda>_. []" "()" "\<lambda>_. ()"]
  by auto

end
