(* ===== verification/Service_Stack.thy ===== *)
theory Service_Stack
  imports Request_Layers
begin

section \<open>The layers as tower services (telemetry/metrics.rs, telemetry/trace\_context.rs)\<close>

text \<open>
  A tower service has a state of its own and three operations: \<open>poll_ready\<close> reserves what a call
  needs, \<open>call\<close> starts a call and returns its future, \<open>clone\<close> copies the service. The contract of
  tower is that \<open>call\<close> is only made on a service whose \<open>poll_ready\<close> answered \<open>Ready(Ok)\<close>, and that a
  clone of a ready service need not be ready.

  A layer turns a service into a service around it. What the layers do to a call is in
  \<open>Request_Layers\<close>; this theory has their plumbing, and shows which inner service a call reaches.
\<close>

record ('q, 'r, 'e, 'w, 's) service =
  svc_poll_ready :: "'s \<Rightarrow> (unit, 'e) result option \<times> 's"
  svc_call :: "'q \<Rightarrow> 's \<Rightarrow> ('w \<Rightarrow> ('r, 'e) result \<times> 'w) \<times> 's"
  svc_clone :: "'s \<Rightarrow> 's"

record ('h, 'b) http_request =
  rq_path :: string
  rq_headers :: 'h
  rq_body :: 'b

subsection \<open>The metrics layer\<close>

text \<open>An instrument of the meter; \<open>in_unit\<close> is only given for the histogram.\<close>

record instrument =
  in_name :: string
  in_description :: string
  in_unit :: "string option"

record 's metrics_service =
  ms_inner :: 's
  ms_request_counter :: instrument
  ms_error_counter :: instrument
  ms_latency_histogram :: instrument

definition metrics_service_new :: "'s \<Rightarrow> 's metrics_service" where
  "metrics_service_new inner_service =
     \<lparr>ms_inner = inner_service,
      ms_request_counter = \<lparr>in_name = ''grpc.server.requests'',
        in_description = ''Total gRPC requests received.'', in_unit = None\<rparr>,
      ms_error_counter = \<lparr>in_name = ''grpc.server.errors'',
        in_description = ''Total gRPC requests that returned non-OK status.'', in_unit = None\<rparr>,
      ms_latency_histogram = \<lparr>in_name = ''grpc.server.latency_ms'',
        in_description = ''gRPC server latency in milliseconds.'', in_unit = Some ''ms''\<rparr>\<rparr>"

text \<open>\<open>GrpcMetricsLayer::layer\<close>; the meter is the one state all services of the layer record in.\<close>

definition metrics_layer :: "'s \<Rightarrow> 's metrics_service" where
  "metrics_layer inner_service = metrics_service_new inner_service"

definition metrics_poll_ready ::
  "('q, 'r, 'e, 'w, 's) service \<Rightarrow> 's metrics_service
     \<Rightarrow> (unit, 'e) result option \<times> 's metrics_service" where
  "metrics_poll_ready S s =
     (case svc_poll_ready S (ms_inner s) of (ready, i) \<Rightarrow> (ready, s\<lparr>ms_inner := i\<rparr>))"

definition metrics_service ::
  "(code \<Rightarrow> string) \<Rightarrow> ('h \<Rightarrow> code option) \<Rightarrow> f64
     \<Rightarrow> (('h, 'q) http_request, ('h, 'b) http_response, 'e, 'w, 's) service
     \<Rightarrow> (('h, 'q) http_request, ('h, 'b metrics_body) http_response, 'e, 'w \<times> instruments,
         's metrics_service) service" where
  "metrics_service code_text from_header_map elapsed_ms S =
     \<lparr>svc_poll_ready = metrics_poll_ready S,
      svc_call = (\<lambda>req s.
        let inner_service = svc_clone S (ms_inner s)
        in ((\<lambda>(w, m).
               case fst (svc_call S req inner_service) w of
                 (called, w') \<Rightarrow>
                   (case metrics_call code_text from_header_map elapsed_ms (rq_path req) called m of
                      (response, m') \<Rightarrow> (response, (w', m')))),
            s)),
      svc_clone = (\<lambda>s. s\<lparr>ms_inner := svc_clone S (ms_inner s)\<rparr>)\<rparr>"

text \<open>\<open>is_end_stream\<close> and \<open>size_hint\<close> of the wrapped body are those of the inner body.\<close>

definition metrics_is_end_stream :: "('b \<Rightarrow> bool) \<Rightarrow> 'b metrics_body \<Rightarrow> bool" where
  "metrics_is_end_stream is_end b = is_end (inner b)"

definition metrics_size_hint :: "('b \<Rightarrow> 'sz) \<Rightarrow> 'b metrics_body \<Rightarrow> 'sz" where
  "metrics_size_hint hint b = hint (inner b)"

subsection \<open>The trace-context layer\<close>

text \<open>The propagator of \<open>TraceContextPropagator::new()\<close> is a parameter, the same in every service.\<close>

record ('cx, 'k) trace_layer =
  tl_propagator :: "(string \<Rightarrow> string option) \<Rightarrow> 'k \<Rightarrow> 'cx"

record ('cx, 'k, 's) trace_service =
  ts_inner :: 's
  ts_propagator :: "(string \<Rightarrow> string option) \<Rightarrow> 'k \<Rightarrow> 'cx"

definition trace_layer_new ::
  "((string \<Rightarrow> string option) \<Rightarrow> 'k \<Rightarrow> 'cx) \<Rightarrow> ('cx, 'k) trace_layer" where
  "trace_layer_new propagator = \<lparr>tl_propagator = propagator\<rparr>"

definition trace_layer_layer ::
  "('cx, 'k) trace_layer \<Rightarrow> 's \<Rightarrow> ('cx, 'k, 's) trace_service" where
  "trace_layer_layer l inner_service = \<lparr>ts_inner = inner_service, ts_propagator = tl_propagator l\<rparr>"

definition trace_poll_ready ::
  "('q, 'r, 'e, 'w, 's) service \<Rightarrow> ('cx, 'k, 's) trace_service
     \<Rightarrow> (unit, 'e) result option \<times> ('cx, 'k, 's) trace_service" where
  "trace_poll_ready S s =
     (case svc_poll_ready S (ts_inner s) of (ready, i) \<Rightarrow> (ready, s\<lparr>ts_inner := i\<rparr>))"

text \<open>The spans of the calls are collected, each with whether setting its parent failed.\<close>

definition trace_service ::
  "('cx \<Rightarrow> bool) \<Rightarrow> ('h \<Rightarrow> string \<Rightarrow> 'v option) \<Rightarrow> ('v \<Rightarrow> string option) \<Rightarrow> ('h \<Rightarrow> string list)
     \<Rightarrow> (('h, 'q) http_request, 'r, 'e, 'w, 's) service
     \<Rightarrow> (('h, 'q) http_request, 'r, 'e, 'w \<times> ('cx span \<times> bool) list,
         ('cx, string list, 's) trace_service) service" where
  "trace_service set_parent get to_str keys S =
     \<lparr>svc_poll_ready = trace_poll_ready S,
      svc_call = (\<lambda>req s.
        let inner_service = svc_clone S (ts_inner s)
        in ((\<lambda>(w, spans).
               case trace_call (ts_propagator s) set_parent get to_str keys (rq_headers req)
                      (rq_path req) (\<lambda>span. fst (svc_call S req inner_service) w) of
                 (span, warned, (response, w')) \<Rightarrow> (response, (w', spans @ [(span, warned)]))),
            s)),
      svc_clone = (\<lambda>s. s\<lparr>ts_inner := svc_clone S (ts_inner s)\<rparr>)\<rparr>"

section \<open>Lemmas\<close>

lemmas service_defs = metrics_service_def trace_service_def metrics_poll_ready_def
  trace_poll_ready_def metrics_layer_def metrics_service_new_def trace_layer_layer_def
  trace_layer_new_def

text \<open>
  What a client of a service may rely on: readiness comes from \<open>poll_ready\<close>, and a call on a ready
  service does what the service is there for, \<open>serve\<close>.
\<close>

locale ready_service =
  fixes S :: "('q, 'r, 'e, 'w, 's) service"
    and ready :: "'s \<Rightarrow> bool"
    and serve :: "'q \<Rightarrow> 'w \<Rightarrow> ('r, 'e) result \<times> 'w"
  assumes polled: "svc_poll_ready S s = (Some (Ok ()), s') \<Longrightarrow> ready s'"
    and served: "ready s \<Longrightarrow> fst (svc_call S req s) w = serve req w"
begin

lemma polled_call: "svc_poll_ready S s = (Some (Ok ()), s') \<Longrightarrow> fst (svc_call S req s') w = serve req w"
  by (rule served [OF polled])

end

text \<open>
  A service whose clones are as ready as it is. For those the layers keep the contract, and the
  service a layer makes is one of those again.
\<close>

locale clonable_service = ready_service S ready serve
  for S :: "(('h, 'q) http_request, ('h, 'b) http_response, 'e, 'w, 's) service"
    and ready :: "'s \<Rightarrow> bool"
    and serve :: "('h, 'q) http_request \<Rightarrow> 'w \<Rightarrow> (('h, 'b) http_response, 'e) result \<times> 'w" +
  assumes cloned: "ready s \<Longrightarrow> ready (svc_clone S s)"
begin

definition metrics_serve where
  "metrics_serve ct fh el req wm =
     (case serve req (fst wm) of
        (called, w') \<Rightarrow>
          (case metrics_call ct fh el (rq_path req) called (snd wm) of
             (response, m') \<Rightarrow> (response, (w', m'))))"

lemma metrics_clonable:
  "clonable_service (metrics_service ct fh el S) (\<lambda>s. ready (ms_inner s)) (metrics_serve ct fh el)"
proof
  fix s s' :: "'s metrics_service"
  assume "svc_poll_ready (metrics_service ct fh el S) s = (Some (Ok ()), s')"
  then show "ready (ms_inner s')"
    by (auto simp: metrics_service_def metrics_poll_ready_def intro: polled split: prod.splits)
next
  fix s :: "'s metrics_service" and req and w
  assume "ready (ms_inner s)"
  then show "fst (svc_call (metrics_service ct fh el S) req s) w = metrics_serve ct fh el req w"
    by (cases w) (simp add: metrics_service_def Let_def served cloned metrics_serve_def)
next
  fix s :: "'s metrics_service"
  assume "ready (ms_inner s)"
  then show "ready (ms_inner (svc_clone (metrics_service ct fh el S) s))"
    by (simp add: metrics_service_def cloned)
qed

lemma trace_served:
  "ready (ts_inner s) \<Longrightarrow>
     fst (svc_call (trace_service set_parent get to_str keys S) req s) (w, spans) =
       (case trace_call (ts_propagator s) set_parent get to_str keys (rq_headers req) (rq_path req)
               (\<lambda>span. serve req w) of
          (span, warned, (response, w')) \<Rightarrow> (response, (w', spans @ [(span, warned)])))"
  by (simp add: trace_service_def Let_def served cloned)

end

text \<open>
  The simplest service of this kind: always ready, with clones that are the service itself. The
  servers tonic generates for a handler are documented to be of this kind.
\<close>

definition handler_service :: "('q \<Rightarrow> 'w \<Rightarrow> ('r, 'e) result \<times> 'w) \<Rightarrow> ('q, 'r, 'e, 'w, unit) service" where
  "handler_service handle =
     \<lparr>svc_poll_ready = (\<lambda>s. (Some (Ok ()), s)), svc_call = (\<lambda>req s. (handle req, s)), svc_clone = id\<rparr>"

interpretation hs: clonable_service "handler_service handle" "\<lambda>_. True" handle
  by unfold_locales (simp_all add: handler_service_def)

text \<open>
  Which service a call through both layers reaches: a clone of a clone of the innermost one, not the
  one \<open>poll_ready\<close> was asked of; the polled service is left as it is.
\<close>

lemma layers_call_a_clone:
  "fst (svc_call (trace_service set_parent get to_str keys (metrics_service ct fh el S)) req s)
      ((w, m), spans) =
     (let (called, w') = fst (svc_call S req
            (svc_clone S (svc_clone S (ms_inner (ts_inner s))))) w;
          (response, m') = metrics_call ct fh el (rq_path req) called m;
          (span, warned, _) = trace_call (ts_propagator s) set_parent get to_str keys
            (rq_headers req) (rq_path req) (\<lambda>_. ())
      in (response, ((w', m'), spans @ [(span, warned)])))"
  "snd (svc_call (trace_service set_parent get to_str keys (metrics_service ct fh el S)) req s) = s"
  by (simp_all add: metrics_service_def trace_service_def trace_call_def Let_def split: prod.split)

text \<open>
  A service with one permit, which \<open>poll_ready\<close> takes and a clone does not have; a call without the
  permit fails. It keeps tower's contract.
\<close>

definition permit_service :: "('q, 'r, unit, 'w, bool) service \<Rightarrow> ('q, 'r, unit, 'w, bool) service" where
  "permit_service S =
     \<lparr>svc_poll_ready = (\<lambda>_. (Some (Ok ()), True)),
      svc_call = (\<lambda>req permit.
        if permit then svc_call S req True else ((\<lambda>w. (Err (), w)), permit)),
      svc_clone = (\<lambda>_. False)\<rparr>"

lemma permit_service_ready:
  "ready_service (permit_service S) id (\<lambda>req. fst (svc_call S req True))"
  by unfold_locales (auto simp: permit_service_def)

text \<open>
  Around such a service the layers fail every call: the stack answers that it is ready, and then
  calls a clone that is not.
\<close>

theorem layers_call_an_unready_clone:
  "\<exists>s'. svc_poll_ready (trace_service set_parent get to_str keys
           (metrics_service ct fh el (permit_service S))) s = (Some (Ok ()), s')
     \<and> ms_inner (ts_inner s') = True
     \<and> fst (fst (svc_call (trace_service set_parent get to_str keys
           (metrics_service ct fh el (permit_service S))) req s') ((w, m), spans)) = Err ()"
  by (simp add: metrics_service_def trace_service_def trace_poll_ready_def metrics_poll_ready_def
      permit_service_def trace_call_def metrics_call_def Let_def)

end
