(* ===== verification/Served_Calls.thy ===== *)
theory Served_Calls
  imports Active_Files Service_Stack Process
begin

section \<open>A call through the layers (main.rs)\<close>

text \<open>
  The stack \<open>main\<close> builds: the trace layer outermost, then the metrics layer, then the two services of
  the server. The transaction service is behind the API-key interceptor, the health service is not.
  How tonic turns a refusal (\<open>status_response\<close>) or a reply (\<open>encode\<close>) into an HTTP response, which
  frames the body of a response yields (\<open>frames\<close>), how it reads a status back from headers
  (\<open>from_header_map\<close>) and what its health service answers are parameters.
\<close>

subsection \<open>The calls of the service\<close>

datatype txn_call = CommitCall commit_request | GetTableCall string | ListFilesCall string

datatype txn_reply =
    CommitReply "(commit_response, status) result"
  | GetTableReply "(get_table_response, status) result"
  | ListFilesReply "(stream_item list, status) result"

text \<open>
  The handler of each call; the reply of a listing has the items its stream gives a client that is
  gone from the message \<open>gone\<close> on.
\<close>

fun handle_call ::
  "('w, 'n, 'p, 'm, 'bu, 't, 'l, 's, 'c, 'sv) store \<Rightarrow> ('n, 'p, 'm, 'z) kernel_serde_scheme
     \<Rightarrow> server \<Rightarrow> task \<Rightarrow> nat option \<Rightarrow> txn_call \<Rightarrow> 'w \<times> lock_mem
     \<Rightarrow> txn_reply \<times> ('w \<times> lock_mem)" where
  "handle_call d sj srv me gone (CommitCall r) st =
     (case commit d sj srv me r st of (res, st') \<Rightarrow> (CommitReply res, st'))"
| "handle_call d sj srv me gone (GetTableCall table_uri) (w, mem) =
     (case get_table d srv table_uri w of (res, w') \<Rightarrow> (GetTableReply res, (w', mem)))"
| "handle_call d sj srv me gone (ListFilesCall table_uri) (w, mem) =
     (case list_active_files d sj srv gone table_uri w of
        (res, w') \<Rightarrow> (ListFilesReply res, (w', mem)))"

subsection \<open>The stack\<close>

record ('h, 'v, 'b, 'd, 'cx) transport =
  tr_get :: "'h \<Rightarrow> string \<Rightarrow> 'v option"
  tr_to_str :: "'v \<Rightarrow> string option"
  tr_keys :: "'h \<Rightarrow> string list"
  tr_extract :: "(string \<Rightarrow> string option) \<Rightarrow> string list \<Rightarrow> 'cx"
  tr_set_parent :: "'cx \<Rightarrow> bool"
  tr_from_header_map :: "'h \<Rightarrow> code option"
  tr_status_response :: "status \<Rightarrow> ('h, 'b) http_response"
  tr_encode :: "txn_reply \<Rightarrow> ('h, 'b) http_response"
  tr_health :: "health \<Rightarrow> string \<Rightarrow> ('h, 'b) http_response"
  tr_frames :: "'b \<Rightarrow> ('d, 'h) frame list"
  tr_code_text :: "code \<Rightarrow> string"

text \<open>The interceptor in front of the handlers: a refused request never reaches them.\<close>

definition intercepted_call ::
  "('h, 'v, 'b, 'd, 'cx) transport \<Rightarrow> ('w, 'n, 'p, 'm, 'bu, 't, 'l, 's, 'c, 'sv) store
     \<Rightarrow> ('n, 'p, 'm, 'z) kernel_serde_scheme \<Rightarrow> string option \<Rightarrow> server \<Rightarrow> task \<Rightarrow> nat option \<Rightarrow> 'h
     \<Rightarrow> txn_call \<Rightarrow> 'w \<times> lock_mem \<Rightarrow> (('h, 'b) http_response, 'e) result \<times> ('w \<times> lock_mem)" where
  "intercepted_call tr d sj key srv me gone hs call st =
     (case make_auth_interceptor (tr_get tr) (tr_to_str tr) key hs of
        Err s \<Rightarrow> (Ok (tr_status_response tr s), st)
      | Ok _ \<Rightarrow>
          (case handle_call d sj srv me gone call st of
             (reply, st') \<Rightarrow> (Ok (tr_encode tr reply), st')))"

text \<open>The two services of the server; \<open>h\<close> is the health status at the moment of the call.\<close>

datatype service_call = TxnService txn_call | HealthService string

fun routed_call ::
  "('h, 'v, 'b, 'd, 'cx) transport \<Rightarrow> ('w, 'n, 'p, 'm, 'bu, 't, 'l, 's, 'c, 'sv) store
     \<Rightarrow> ('n, 'p, 'm, 'z) kernel_serde_scheme \<Rightarrow> running \<Rightarrow> task \<Rightarrow> nat option \<Rightarrow> health \<Rightarrow> 'h
     \<Rightarrow> service_call \<Rightarrow> 'w \<times> lock_mem \<Rightarrow> (('h, 'b) http_response, 'e) result \<times> ('w \<times> lock_mem)" where
  "routed_call tr d sj run me gone h hs (TxnService call) st =
     intercepted_call tr d sj (run_api_key run) (run_server run) me gone hs call st"
| "routed_call tr d sj run me gone h hs (HealthService name) st = (Ok (tr_health tr h name), st)"

definition serve_call ::
  "('h, 'v, 'b, 'd, 'cx) transport \<Rightarrow> ('w, 'n, 'p, 'm, 'bu, 't, 'l, 's, 'c, 'sv) store
     \<Rightarrow> ('n, 'p, 'm, 'z) kernel_serde_scheme \<Rightarrow> running \<Rightarrow> task \<Rightarrow> nat option \<Rightarrow> health \<Rightarrow> f64
     \<Rightarrow> string \<Rightarrow> 'h \<Rightarrow> service_call \<Rightarrow> ('w \<times> lock_mem) \<times> instruments
     \<Rightarrow> 'cx span \<times> (('h, 'b metrics_body) http_response, 'e) result
        \<times> ('w \<times> lock_mem) \<times> instruments" where
  "serve_call tr d sj run me gone h elapsed_ms path hs call sm =
     (case trace_call (tr_extract tr) (tr_set_parent tr) (tr_get tr) (tr_to_str tr) (tr_keys tr) hs
             path (\<lambda>span. routed_call tr d sj run me gone h hs call (fst sm)) of
        (span, warned, (called, st)) \<Rightarrow>
          (case metrics_call (tr_code_text tr) (tr_from_header_map tr) elapsed_ms path called
                  (snd sm) of
             (response, m) \<Rightarrow> (span, response, st, m)))"

text \<open>The stack of services \<open>main\<close> builds around the server \<open>S\<close>.\<close>

definition main_stack where
  "main_stack tr el S =
     trace_service (tr_set_parent tr) (tr_get tr) (tr_to_str tr) (tr_keys tr)
       (metrics_service (tr_code_text tr) (tr_from_header_map tr) el S)"

definition main_stack_state where
  "main_stack_state tr s =
     trace_layer_layer (trace_layer_new (tr_extract tr)) (metrics_layer s)"

subsection \<open>What the service relies on of tonic\<close>

text \<open>
  The status a call ends with: of a stream that of its first error, as tonic ends a stream with the
  first error its handler yields.
\<close>

fun stream_code :: "stream_item list \<Rightarrow> code" where
  "stream_code [] = CodeOk"
| "stream_code (Ok payload # items) = stream_code items"
| "stream_code (Err s # items) = status_code s"

fun reply_refusal :: "txn_reply \<Rightarrow> status option" where
  "reply_refusal (CommitReply (Err s)) = Some s"
| "reply_refusal (GetTableReply (Err s)) = Some s"
| "reply_refusal (ListFilesReply (Err s)) = Some s"
| "reply_refusal reply = None"

fun reply_code :: "txn_reply \<Rightarrow> code" where
  "reply_code (ListFilesReply (Ok items)) = stream_code items"
| "reply_code reply = (case reply_refusal reply of Some s \<Rightarrow> status_code s | None \<Rightarrow> CodeOk)"

text \<open>
  A refusal and a failed call have their status in the headers; every other reply has data frames and
  then trailers with its status.
\<close>

definition tonic_contract :: "('h, 'v, 'b, 'd, 'cx) transport \<Rightarrow> bool" where
  "tonic_contract tr \<longleftrightarrow>
     (\<forall>s. tr_from_header_map tr (headers (tr_status_response tr s)) = Some (status_code s)) \<and>
     (\<forall>reply s. reply_refusal reply = Some s \<longrightarrow>
        tr_from_header_map tr (headers (tr_encode tr reply)) = Some (status_code s)) \<and>
     (\<forall>reply. reply_refusal reply = None \<longrightarrow>
        tr_from_header_map tr (headers (tr_encode tr reply)) = None \<and>
        (\<exists>ds trailers.
           tr_frames tr (body (tr_encode tr reply)) = map DataFrame ds @ [Trailers trailers]
           \<and> tr_from_header_map tr trailers = Some (reply_code reply)))"

section \<open>Lemmas\<close>

lemma reply_refusal_code: "reply_refusal reply = Some s \<Longrightarrow> reply_code reply = status_code s"
  by (cases reply rule: reply_code.cases) auto

lemma tonic_contractD:
  assumes "tonic_contract tr"
  shows "tr_from_header_map tr (headers (tr_status_response tr s)) = Some (status_code s)"
    and "reply_refusal reply = Some s \<Longrightarrow>
      tr_from_header_map tr (headers (tr_encode tr reply)) = Some (reply_code reply)"
    and "reply_refusal reply = None \<Longrightarrow> tr_from_header_map tr (headers (tr_encode tr reply)) = None"
    and "reply_refusal reply = None \<Longrightarrow> \<exists>ds trailers.
      tr_frames tr (body (tr_encode tr reply)) = map DataFrame ds @ [Trailers trailers]
      \<and> tr_from_header_map tr trailers = Some (reply_code reply)"
  using assms reply_refusal_code [of reply s] unfolding tonic_contract_def by metis+

text \<open>The answers of the inner body for the first \<open>k\<close> of its frames.\<close>

definition frame_polls :: "('d, 'h) frame list \<Rightarrow> ('d, 'h, 'e) poll list" where
  "frame_polls fs = map (\<lambda>f. Ready (Some (Ok f))) fs"

text \<open>Polls that are pending settle nothing: only the frames count.\<close>

lemma settlement_Cons:
  "settlement fh ((el, p) # polls) =
     (case settles fh p of Some c \<Rightarrow> Some (el, c) | None \<Rightarrow> settlement fh polls)"
  by (simp add: settlement_def split: option.split)

lemma settlement_data:
  "filter (\<lambda>p. p \<noteq> Pending) (map snd polls) = frame_polls (map DataFrame ds) \<Longrightarrow>
     settlement fh polls = None"
proof (induction polls arbitrary: ds)
  case Nil
  then show ?case by (simp add: settlement_def)
next
  case (Cons q polls)
  obtain el p where q: "q = (el, p)" by (cases q)
  show ?case
  proof (cases "p = Pending")
    case True
    with Cons q show ?thesis by (simp add: settlement_Cons)
  next
    case False
    with Cons.prems q obtain d ds' where "p = Ready (Some (Ok (DataFrame d)))" "ds = d # ds'"
      by (cases ds) (auto simp: frame_polls_def)
    with Cons q show ?thesis by (simp add: settlement_Cons frame_polls_def)
  qed
qed

lemma settlement_frames:
  "filter (\<lambda>p. p \<noteq> Pending) (map snd polls) = frame_polls (map DataFrame ds @ [Trailers trailers]) \<Longrightarrow>
     \<exists>el. settlement fh polls = Some (el, unwrap_or (fh trailers) Unknown)"
proof (induction polls arbitrary: ds)
  case Nil
  then show ?case by (simp add: frame_polls_def)
next
  case (Cons q polls)
  obtain el p where q: "q = (el, p)" by (cases q)
  show ?case
  proof (cases "p = Pending")
    case True
    with Cons q show ?thesis by (simp add: settlement_Cons)
  next
    case False
    show ?thesis
    proof (cases ds)
      case Nil
      with Cons.prems q False have "p = Ready (Some (Ok (Trailers trailers)))"
        by (simp add: frame_polls_def)
      with q show ?thesis by (simp add: settlement_Cons)
    next
      case (Cons d ds')
      with Cons.prems q False have "p = Ready (Some (Ok (DataFrame d)))"
        "filter (\<lambda>p. p \<noteq> Pending) (map snd polls) = frame_polls (map DataFrame ds' @ [Trailers trailers])"
        by (auto simp: frame_polls_def)
      with Cons.IH [of ds'] q show ?thesis by (simp add: settlement_Cons)
    qed
  qed
qed

lemma authorized_intercept:
  assumes "key = None \<or> Option.bind (tr_get tr hs ''x-api-key'') (tr_to_str tr) = key"
  shows "intercepted_call tr d sj key srv me gone hs call st =
    (case handle_call d sj srv me gone call st of (reply, st') \<Rightarrow> (Ok (tr_encode tr reply), st'))"
proof -
  have "make_auth_interceptor (tr_get tr) (tr_to_str tr) key hs = Ok hs"
    using assms by (cases key) (auto simp: interceptor_with_key interceptor_without_key)
  then show ?thesis by (simp add: intercepted_call_def)
qed

lemma unauthorized_intercept:
  assumes "key = Some k" "Option.bind (tr_get tr hs ''x-api-key'') (tr_to_str tr) \<noteq> Some k"
    and "Option.bind (tr_get tr hs ''authorization'') (tr_to_str tr) \<noteq> Some (''Bearer '' @ k)"
  shows "intercepted_call tr d sj key srv me gone hs call st =
    (Ok (tr_status_response tr (mk_status Unauthenticated ''missing or invalid api key'')), st)"
  using assms by (simp add: intercepted_call_def interceptor_with_key)

subsection \<open>The status of a listing\<close>

lemma stream_code_batches [simp]: "stream_code (map (\<lambda>b. Ok (Batch b)) batches) = CodeOk"
  by (induction batches) auto

lemma stream_code_failed:
  "stream_code (map (\<lambda>b. Ok (Batch b)) batches @ [Err s]) = status_code s"
  by (induction batches) auto

lemma status_of_error_code: "status_code (status_of_error e) \<noteq> CodeOk"
  by (cases e) auto

text \<open>Before the first message of a listing everything that can fail ends it with one error.\<close>

lemma listing_opened:
  assumes "list_active_files d sj srv None uri w = (Ok items, w')" "stream_code items = CodeOk"
  obtains url w0 w1 table w2 snapshot metadata protocol where
    "normalize_and_check_table_uri d srv uri w = (Ok url, w0)"
    "table_exists d url (srv_storage_opts srv) w0 = (Ok True, w1)"
    "open_table d url (srv_storage_opts srv) w1 = (Ok table, w2)"
    "table_snapshot d table = Ok snapshot"
    "build_metadata_and_protocol d snapshot = Ok (metadata, protocol)"
proof -
  obtain url w0 where n: "normalize_and_check_table_uri d srv uri w = (Ok url, w0)"
    and a: "stream_active_files d sj None url (srv_storage_opts srv) w0 = (items, w')"
    using assms(1) unfolding list_active_files_def io_then_Ok_iff
    by (auto simp: case_prod_beta prod_eq_iff)
  obtain w1 where e: "table_exists d url (srv_storage_opts srv) w0 = (Ok True, w1)"
    using a assms(2) status_of_error_code
    by (auto simp: stream_active_files_def stream_active_files_inner_def send_stays not_found_def
        split: prod.splits result.splits bool.splits)
  obtain table w2 where o: "open_table d url (srv_storage_opts srv) w1 = (Ok table, w2)"
    using a assms(2) e status_of_error_code
    by (auto simp: stream_active_files_def stream_active_files_inner_def send_stays
        split: prod.splits result.splits)
  obtain snapshot where s: "table_snapshot d table = Ok snapshot"
  proof (cases "table_snapshot d table")
    case (Err x)
    have "status_code (map_open_or_snapshot_error x) \<noteq> CodeOk" by (cases x) auto
    with a assms(2) e o Err show thesis
      by (auto simp: stream_active_files_def stream_active_files_inner_def send_stays)
  qed (use that in auto)
  obtain metadata protocol where "build_metadata_and_protocol d snapshot = Ok (metadata, protocol)"
  proof (cases "build_metadata_and_protocol d snapshot")
    case (Err st)
    then have "status_code st = Internal"
      by (auto simp: build_metadata_and_protocol_def Let_def rust_simps)
    with a assms(2) e o s Err show thesis
      by (auto simp: stream_active_files_def stream_active_files_inner_def send_stays)
  qed (use that in auto)
  with n e o s that show thesis by blast
qed

lemma listing_outcome:
  assumes "list_active_files d sj srv None uri w = (Ok items, w')" "stream_code items = CodeOk"
  shows "\<exists>url w0 w1 table w2 snapshot metadata protocol fvs batches.
       normalize_and_check_table_uri d srv uri w = (Ok url, w0)
       \<and> table_exists d url (srv_storage_opts srv) w0 = (Ok True, w1)
       \<and> open_table d url (srv_storage_opts srv) w1 = (Ok table, w2)
       \<and> table_snapshot d table = Ok snapshot
       \<and> build_metadata_and_protocol d snapshot = Ok (metadata, protocol)
       \<and> file_views d snapshot (log_store d table) w2 = (map Ok fvs, w')
       \<and> items = Ok (Header \<lparr>lh_version = snapshot_version d snapshot, lh_metadata = Some metadata,
             lh_protocol = Some protocol\<rparr>) # map (\<lambda>b. Ok (Batch b)) batches
       \<and> concat batches = map (active_file d sj) fvs"
proof -
  obtain url w0 w1 table w2 snapshot metadata protocol where
    o: "normalize_and_check_table_uri d srv uri w = (Ok url, w0)"
      "table_exists d url (srv_storage_opts srv) w0 = (Ok True, w1)"
      "open_table d url (srv_storage_opts srv) w1 = (Ok table, w2)"
      "table_snapshot d table = Ok snapshot"
      "build_metadata_and_protocol d snapshot = Ok (metadata, protocol)"
    using listing_opened [OF assms] by blast
  obtain xs w3 where v: "file_views d snapshot (log_store d table) w2 = (xs, w3)" by fastforce
  show ?thesis
  proof (cases rule: list_of_results [of xs])
    case (1 fvs)
    have "items = Ok (Header \<lparr>lh_version = snapshot_version d snapshot, lh_metadata = Some metadata,
        lh_protocol = Some protocol\<rparr>) # map (\<lambda>b. Ok (Batch b)) (chunks 1000 (map (active_file d sj) fvs))"
      and "w3 = w'"
      using listing_stays(1) [OF o v [unfolded 1], of sj] assms(1) by (auto simp: batch_items_def)
    moreover have "concat (chunks 1000 (map (active_file d sj) fvs)) = map (active_file d sj) fvs"
      by (simp add: concat_chunks)
    ultimately show ?thesis using o v 1 by blast
  next
    case (2 fvs e rest)
    then show ?thesis
      using listing_stays(2) [OF o v [unfolded 2], of sj] assms
      by (auto simp: batch_items_def stream_code_failed)
  qed
qed

end
