(* ===== verification/Telemetry.thy ===== *)
theory Telemetry
  imports Config
begin

section \<open>Tracing and export (telemetry/tracing.rs)\<close>

text \<open>
  \<open>init_tracing\<close> with the functions it calls, and the guard that shuts the providers down. The
  process-wide state is what the function sets: the two global providers, the layers of the
  subscriber, and the lines on standard error. Building an exporter for a protocol, the filter read
  from the environment and the filter for a text belong to libraries and are parameters.
\<close>

datatype otlp_protocol = OtlpGrpc | OtlpHttpBinary | OtlpHttpJson

text \<open>
  \<open>to_lowercase\<close>, for comparison with the names below: besides the capital letters only the Kelvin
  sign and the dotted capital I have ASCII letters in their lower case, and the first of these
  letters occurs in none of the names while the second is followed by another character.
\<close>

definition ascii_lower :: "char \<Rightarrow> char" where
  "ascii_lower c =
     (if 65 \<le> (of_char c :: nat) \<and> of_char c \<le> (90 :: nat) then char_of (of_char c + (32 :: nat)) else c)"

definition otel_protocol :: "environment \<Rightarrow> otlp_protocol" where
  "otel_protocol env =
     (let protocol = map ascii_lower
            (unwrap_or (result_ok (env_var env ''OTEL_EXPORTER_OTLP_PROTOCOL'')) ''grpc'')
      in if protocol = ''grpc'' then OtlpGrpc
         else if protocol \<in> {''http/protobuf'', ''http-protobuf'', ''http''} then OtlpHttpBinary
         else if protocol \<in> {''http/json'', ''http-json''} then OtlpHttpJson
         else OtlpGrpc)"

definition otel_export_enabled :: "environment \<Rightarrow> bool" where
  "otel_export_enabled env \<longleftrightarrow>
     is_ok (env_var env ''OTEL_EXPORTER_OTLP_ENDPOINT'')
     \<or> is_ok (env_var env ''OTEL_EXPORTER_OTLP_TRACES_ENDPOINT'')
     \<or> is_ok (env_var env ''OTEL_EXPORTER_OTLP_METRICS_ENDPOINT'')"

subsection \<open>Providers and process state\<close>

text \<open>A provider is its exporter and the service name of its resource.\<close>

type_synonym 'x provider = "'x \<times> string"

datatype ('f, 'x) layer = FilterLayer 'f | FmtLayer | OtelLayer "'x provider"

record ('x, 'y) telemetry_guard =
  meter_provider :: "'y provider option"
  tracer_provider :: "'x provider option"

record ('f, 'x, 'y) process =
  global_tracer :: "'x provider option"
  global_meter :: "'y provider option"
  subscriber :: "('f, 'x) layer list option"
  stderr :: "string list"
  tracers_shut_down :: "'x provider list"
  meters_shut_down :: "'y provider list"

definition new_process :: "('f, 'x, 'y) process" where
  "new_process =
     \<lparr>global_tracer = None, global_meter = None, subscriber = None, stderr = [],
      tracers_shut_down = [], meters_shut_down = []\<rparr>"

definition default_service_name :: string where
  "default_service_name = ''delta-txn-service''"

fun protocol_label :: "otlp_protocol \<Rightarrow> string" where
  "protocol_label OtlpGrpc = ''grpc''"
| "protocol_label OtlpHttpBinary = ''http/protobuf''"
| "protocol_label OtlpHttpJson = ''http/json''"

definition log_exporter_build_error ::
  "string \<Rightarrow> string \<Rightarrow> string \<Rightarrow> ('f, 'x, 'y) process \<Rightarrow> ('f, 'x, 'y) process" where
  "log_exporter_build_error signal label err p =
     p\<lparr>stderr := stderr p @
        [''delta-txn-service: failed to build OTLP '' @ signal @ '' exporter (protocol='' @ label @
         ''): '' @ err @ '' -- '' @ signal @ '' export disabled for this process'']\<rparr>"

text \<open>The tracer of a provider is represented by the provider.\<close>

definition build_tracer ::
  "(otlp_protocol \<Rightarrow> ('x, string) result) \<Rightarrow> otlp_protocol \<Rightarrow> string
     \<Rightarrow> ('x, 'y) telemetry_guard \<times> ('f, 'x, 'y) process
     \<Rightarrow> 'x provider option \<times> ('x, 'y) telemetry_guard \<times> ('f, 'x, 'y) process" where
  "build_tracer span_exporter protocol resource gp =
     (case span_exporter protocol of
        Err e \<Rightarrow>
          (None, fst gp, log_exporter_build_error ''trace'' (protocol_label protocol) e (snd gp))
      | Ok exporter \<Rightarrow>
          (let provider = (exporter, resource)
           in (Some provider,
               (fst gp)\<lparr>tracer_provider := Some provider\<rparr>,
               (snd gp)\<lparr>global_tracer := Some provider\<rparr>)))"

definition build_meter_provider ::
  "(otlp_protocol \<Rightarrow> ('y, string) result) \<Rightarrow> otlp_protocol \<Rightarrow> string
     \<Rightarrow> ('f, 'x, 'y) process \<Rightarrow> 'y provider option \<times> ('f, 'x, 'y) process" where
  "build_meter_provider metric_exporter protocol resource p =
     (case metric_exporter protocol of
        Err e \<Rightarrow> (None, log_exporter_build_error ''metric'' (protocol_label protocol) e p)
      | Ok exporter \<Rightarrow> (Some (exporter, resource), p))"

definition init_tracing ::
  "(environment \<Rightarrow> 'f option) \<Rightarrow> (string \<Rightarrow> 'f) \<Rightarrow> (otlp_protocol \<Rightarrow> ('x, string) result)
     \<Rightarrow> (otlp_protocol \<Rightarrow> ('y, string) result) \<Rightarrow> environment \<Rightarrow> ('f, 'x, 'y) process
     \<Rightarrow> ('x, 'y) telemetry_guard \<times> ('f, 'x, 'y) process" where
  "init_tracing filter_from_env filter_new span_exporter metric_exporter env p =
     (let env_filter = unwrap_or (filter_from_env env) (filter_new ''info'');
          guard = \<lparr>meter_provider = None, tracer_provider = None\<rparr>
      in if otel_export_enabled env then
           (let resource =
                  unwrap_or (result_ok (env_var env ''OTEL_SERVICE_NAME'')) default_service_name;
                protocol = otel_protocol env;
                (tracer, guard, p) = build_tracer span_exporter protocol resource (guard, p);
                (meter, p) = build_meter_provider metric_exporter protocol resource p;
                (guard, p) = (case meter of
                    Some provider \<Rightarrow>
                      (guard\<lparr>meter_provider := Some provider\<rparr>, p\<lparr>global_meter := Some provider\<rparr>)
                  | None \<Rightarrow> (guard, p));
                registry = [FilterLayer env_filter, FmtLayer];
                layers = (case tracer of
                    Some t \<Rightarrow> registry @ [OtelLayer t] | None \<Rightarrow> registry)
            in (guard, p\<lparr>subscriber := Some layers\<rparr>))
         else (guard, p\<lparr>subscriber := Some [FilterLayer env_filter, FmtLayer]\<rparr>))"

definition drop_guard ::
  "('x, 'y) telemetry_guard \<Rightarrow> ('f, 'x, 'y) process
     \<Rightarrow> ('x, 'y) telemetry_guard \<times> ('f, 'x, 'y) process" where
  "drop_guard guard p =
     (let p = (case tracer_provider guard of
            Some provider \<Rightarrow> p\<lparr>tracers_shut_down := tracers_shut_down p @ [provider]\<rparr> | None \<Rightarrow> p);
          p = (case meter_provider guard of
            Some provider \<Rightarrow> p\<lparr>meters_shut_down := meters_shut_down p @ [provider]\<rparr> | None \<Rightarrow> p)
      in (\<lparr>meter_provider = None, tracer_provider = None\<rparr>, p))"

section \<open>Properties\<close>

text \<open>
  Logging is installed whatever happens to the exporters. Without
  an endpoint variable nothing else is set up. With one, the trace and the metric exporter are set
  up independently of each other: each that can be built is registered for the process and shut down
  exactly once when the guard is dropped, and each that cannot be built leaves one line on standard
  error instead.
\<close>

theorem telemetry_lifecycle:
  "case init_tracing ffe fnew sx mx env new_process of
     (guard, p) \<Rightarrow>
       (let traced = (if otel_export_enabled env then result_ok (sx (otel_protocol env)) else None);
            metered = (if otel_export_enabled env then result_ok (mx (otel_protocol env)) else None);
            p' = snd (drop_guard guard p)
        in (\<exists>rest. subscriber p = Some (FilterLayer (unwrap_or (ffe env) (fnew ''info'')) # FmtLayer # rest))
           \<and> map_option fst (global_tracer p) = traced \<and> map_option fst (global_meter p) = metered
           \<and> tracers_shut_down p' = (case global_tracer p of Some t \<Rightarrow> [t] | None \<Rightarrow> [])
           \<and> meters_shut_down p' = (case global_meter p of Some t \<Rightarrow> [t] | None \<Rightarrow> [])
           \<and> length (stderr p') =
               (if otel_export_enabled env
                then (if traced = None then 1 else 0) + (if metered = None then 1 else 0) else 0))"
  by (cases "sx (otel_protocol env)"; cases "mx (otel_protocol env)")
    (simp_all add: init_tracing_def build_tracer_def build_meter_provider_def drop_guard_def
      new_process_def log_exporter_build_error_def Let_def)

end
