(* ===== verification/Unit_Tests.thy ===== *)
theory Unit_Tests
  imports Delta_Commit Auth Config Request_Layers
begin

section \<open>The unit tests of the repository\<close>

text \<open>
  The synchronous tests of src/grpc/mapping.rs, src/delta/commit.rs, src/grpc/auth.rs,
  src/config/storage.rs and src/telemetry/trace\_context.rs as predicates on the model, under their
  own names: a test is true when none of its assertions fails and none of its \<open>unwrap\<close> and \<open>expect\<close>
  calls panics. They tie the model to what the authors check of the code.

  The tests that use serde\_json are stated for any JSON library \<open>sj\<close> and hold for every one that
  keeps the contract the service relies on, on the documents the test uses.
\<close>

text \<open>\<open>value[key]\<close> and the comparison of a value with an integer or a string.\<close>

definition json_index :: "'n json \<Rightarrow> string \<Rightarrow> 'n json" where
  "json_index v key = unwrap_or (json_get v key) JNull"

definition json_is_int :: "('n, 'z) serde_scheme \<Rightarrow> 'n json \<Rightarrow> i64 \<Rightarrow> bool" where
  "json_is_int sj v i \<longleftrightarrow> as_i64 sj v = Some i"

definition json_is_str :: "'n json \<Rightarrow> string \<Rightarrow> bool" where
  "json_is_str v s \<longleftrightarrow> as_str v = Some s"

text \<open>Literals of the \<open>json!\<close> macro.\<close>

definition json_int :: "('n, 'z) serde_scheme \<Rightarrow> i64 \<Rightarrow> 'n json" where
  "json_int sj i = JNumber (num_from_i64 sj i)"

definition json_f64 :: "('n, 'z) serde_scheme \<Rightarrow> f64 \<Rightarrow> 'n json" where
  "json_f64 sj v = (case num_from_f64 sj v of None \<Rightarrow> JNull | Some n \<Rightarrow> JNumber n)"

subsection \<open>src/grpc/mapping.rs\<close>

definition map_data_change_maps_valid_values :: bool where
  "map_data_change_maps_valid_values \<longleftrightarrow>
     map_data_change (data_change_as_i32 DataChangeTrue) = Ok True \<and>
     map_data_change (data_change_as_i32 DataChangeFalse) = Ok False"

definition map_data_change_rejects_unspecified_and_invalid :: bool where
  "map_data_change_rejects_unspecified_and_invalid \<longleftrightarrow>
     map_data_change (data_change_as_i32 DataChangeUnspecified) = Err ''data_change is unspecified'' \<and>
     map_data_change 99 = Err ''invalid data_change value: 99''"

definition map_optional_string_map_respects_empty_inputs :: bool where
  "map_optional_string_map_respects_empty_inputs \<longleftrightarrow>
     map_optional_string_map [] = None \<and>
     (case map_optional_string_map (AList.update ''region'' ''us-east-1'' []) of
        None \<Rightarrow> False
      | Some mapped \<Rightarrow> map_of mapped ''region'' = Some (Some ''us-east-1''))"

definition map_engine_info_formats_engine_name_and_version :: bool where
  "map_engine_info_formats_engine_name_and_version \<longleftrightarrow>
     map_engine_info '''' '''' = None \<and>
     map_engine_info ''delta'' '''' = Some ''delta'' \<and>
     map_engine_info '''' ''1.2.3'' = Some ''1.2.3'' \<and>
     map_engine_info ''delta'' ''1.2.3'' = Some ''delta/1.2.3''"

definition map_commit_operation_handles_known_values :: bool where
  "map_commit_operation_handles_known_values \<longleftrightarrow>
     map_commit_operation 1 = Some ''WRITE'' \<and>
     map_commit_operation 0 = None \<and>
     map_commit_operation 99 = None"

definition map_file_stats_returns_none_when_absent :: "('n, 'z) serde_scheme \<Rightarrow> bool" where
  "map_file_stats_returns_none_when_absent sj \<longleftrightarrow> map_file_stats sj None = None"

definition id_name_stats :: file_stats where
  "id_name_stats =
     \<lparr>fs_num_records = 42,
      fs_columns =
        AList.update ''name''
          \<lparr>cs_min_value = Some (MinString ''a''), cs_max_value = Some (MaxString ''z''),
           cs_null_count = 3\<rparr>
        (AList.update ''id''
          \<lparr>cs_min_value = Some (MinInt 1), cs_max_value = Some (MaxInt 100), cs_null_count = 0\<rparr>
         [])\<rparr>"

definition map_file_stats_serializes_min_max_and_null_counts ::
  "('n, 'z) serde_scheme \<Rightarrow> bool" where
  "map_file_stats_serializes_min_max_and_null_counts sj \<longleftrightarrow>
     (case map_file_stats sj (Some id_name_stats) of
        None \<Rightarrow> False
      | Some text \<Rightarrow>
          (case value_from_str sj text of
             None \<Rightarrow> False
           | Some v \<Rightarrow>
               json_is_int sj (json_index v ''numRecords'') 42 \<and>
               json_is_int sj (json_index (json_index v ''minValues'') ''id'') 1 \<and>
               json_is_int sj (json_index (json_index v ''maxValues'') ''id'') 100 \<and>
               json_is_str (json_index (json_index v ''minValues'') ''name'') ''a'' \<and>
               json_is_str (json_index (json_index v ''maxValues'') ''name'') ''z'' \<and>
               json_is_int sj (json_index (json_index v ''nullCount'') ''name'') 3 \<and>
               json_is_int sj (json_index (json_index v ''nullCount'') ''id'') 0))"

definition map_user_metadata_serializes_to_json :: "('n, 'z) serde_scheme \<Rightarrow> bool" where
  "map_user_metadata_serializes_to_json sj \<longleftrightarrow>
     map_user_metadata sj [] = Ok None \<and>
     (case map_user_metadata sj (AList.update ''source'' ''unit-test'' []) of
        Ok (Some text) \<Rightarrow> value_from_str sj text = Some (json_object [(''source'', JString ''unit-test'')])
      | _ \<Rightarrow> False)"

definition map_stats_json_to_pb_returns_none_when_absent :: "('n, 'z) serde_scheme \<Rightarrow> bool" where
  "map_stats_json_to_pb_returns_none_when_absent sj \<longleftrightarrow> map_stats_json_to_pb sj None = None"

definition map_stats_json_to_pb_returns_none_on_malformed_json ::
  "('n, 'z) serde_scheme \<Rightarrow> bool" where
  "map_stats_json_to_pb_returns_none_on_malformed_json sj \<longleftrightarrow>
     map_stats_json_to_pb sj (Some ''not json'') = None"

text \<open>\<open>json!(..).to_string()\<close> of a document, given to \<open>map_stats_json_to_pb\<close>.\<close>

definition stats_from_document :: "('n, 'z) serde_scheme \<Rightarrow> 'n json \<Rightarrow> file_stats option" where
  "stats_from_document sj v =
     (case value_to_string sj v of None \<Rightarrow> None | Some text \<Rightarrow> map_stats_json_to_pb sj (Some text))"

text \<open>The floats \<open>1.5\<close> and \<open>9.5\<close>.\<close>

abbreviation f64_1_5 :: f64 where "f64_1_5 \<equiv> 0x3FF8000000000000"
abbreviation f64_9_5 :: f64 where "f64_9_5 \<equiv> 0x4023000000000000"

definition every_shape_document :: "('n, 'z) serde_scheme \<Rightarrow> 'n json" where
  "every_shape_document sj =
     json_object
       [(''numRecords'', json_int sj 42),
        (''minValues'', json_object
           [(''id'', json_int sj 1), (''price'', json_f64 sj f64_1_5), (''name'', JString ''a''),
            (''active'', JBool True)]),
        (''maxValues'', json_object
           [(''id'', json_int sj 100), (''price'', json_f64 sj f64_9_5), (''name'', JString ''z''),
            (''active'', JBool False)]),
        (''nullCount'', json_object
           [(''id'', json_int sj 0), (''price'', json_int sj 2), (''name'', json_int sj 3),
            (''active'', json_int sj 4)])]"

text \<open>\<open>&stats.columns[name]\<close> panics for a column that is not there.\<close>

definition column_is :: "file_stats \<Rightarrow> string \<Rightarrow> (column_stats \<Rightarrow> bool) \<Rightarrow> bool" where
  "column_is st column P \<longleftrightarrow> (case map_of (fs_columns st) column of None \<Rightarrow> False | Some cs \<Rightarrow> P cs)"

definition map_stats_json_to_pb_parses_every_value_shape :: "('n, 'z) serde_scheme \<Rightarrow> bool" where
  "map_stats_json_to_pb_parses_every_value_shape sj \<longleftrightarrow>
     (case stats_from_document sj (every_shape_document sj) of
        None \<Rightarrow> False
      | Some stats \<Rightarrow>
          fs_num_records stats = 42 \<and> length (fs_columns stats) = 4 \<and>
          column_is stats ''id'' (\<lambda>c. cs_min_value c = Some (MinInt 1)
            \<and> cs_max_value c = Some (MaxInt 100) \<and> cs_null_count c = 0) \<and>
          column_is stats ''price'' (\<lambda>c. cs_min_value c = Some (MinDouble f64_1_5)
            \<and> cs_max_value c = Some (MaxDouble f64_9_5)) \<and>
          column_is stats ''name'' (\<lambda>c. cs_min_value c = Some (MinString ''a'')
            \<and> cs_max_value c = Some (MaxString ''z'')) \<and>
          column_is stats ''active'' (\<lambda>c. cs_min_value c = Some (MinBool True)
            \<and> cs_max_value c = Some (MaxBool False) \<and> cs_null_count c = 4))"

definition all_null_document :: "('n, 'z) serde_scheme \<Rightarrow> 'n json" where
  "all_null_document sj =
     json_object
       [(''numRecords'', json_int sj 10), (''minValues'', json_object []),
        (''maxValues'', json_object []),
        (''nullCount'', json_object [(''always_null'', json_int sj 10)])]"

definition map_stats_json_to_pb_includes_a_column_with_only_a_null_count ::
  "('n, 'z) serde_scheme \<Rightarrow> bool" where
  "map_stats_json_to_pb_includes_a_column_with_only_a_null_count sj \<longleftrightarrow>
     (case stats_from_document sj (all_null_document sj) of
        None \<Rightarrow> False
      | Some stats \<Rightarrow>
          column_is stats ''always_null'' (\<lambda>c. cs_min_value c = None
            \<and> cs_max_value c = None \<and> cs_null_count c = 10))"

definition round_trip_stats :: file_stats where
  "round_trip_stats =
     \<lparr>fs_num_records = 7,
      fs_columns = AList.update ''id''
        \<lparr>cs_min_value = Some (MinInt 1), cs_max_value = Some (MaxInt 100), cs_null_count = 5\<rparr> []\<rparr>"

definition map_file_stats_and_map_stats_json_to_pb_round_trip ::
  "('n, 'z) serde_scheme \<Rightarrow> bool" where
  "map_file_stats_and_map_stats_json_to_pb_round_trip sj \<longleftrightarrow>
     (case map_file_stats sj (Some round_trip_stats) of
        None \<Rightarrow> False
      | Some text \<Rightarrow>
          (case map_stats_json_to_pb sj (Some text) of
             None \<Rightarrow> False
           | Some round_tripped \<Rightarrow>
               fs_num_records round_tripped = fs_num_records round_trip_stats \<and>
               column_is round_tripped ''id''
                 (\<lambda>c. map_of (fs_columns round_trip_stats) ''id'' = Some c)))"

definition five_records_document :: "('n, 'z) serde_scheme \<Rightarrow> 'n json" where
  "five_records_document sj =
     json_object
       [(''numRecords'', json_int sj 5), (''minValues'', json_object []),
        (''maxValues'', json_object []), (''nullCount'', json_object [])]"

definition map_active_file_to_pb_maps_every_field :: "('n, 'z) serde_scheme \<Rightarrow> bool" where
  "map_active_file_to_pb_maps_every_field sj \<longleftrightarrow>
     (case value_to_string sj (five_records_document sj) of
        None \<Rightarrow> False
      | Some text \<Rightarrow>
          let pb_add = map_active_file_to_pb sj ''part-0.parquet'' 1234 1700000000000
                         (AList.update ''region'' (Some ''US'') []) (Some text)
          in af_path pb_add = ''part-0.parquet'' \<and>
             af_size pb_add = 1234 \<and>
             af_modification_time pb_add = 1700000000000 \<and>
             map_of (af_partition_values pb_add) ''region'' = Some ''US'' \<and>
             af_data_change pb_add = data_change_as_i32 DataChangeTrue \<and>
             af_tags pb_add = [] \<and>
             (case af_stats pb_add of None \<Rightarrow> False | Some stats \<Rightarrow> fs_num_records stats = 5))"

definition map_active_file_to_pb_treats_null_partition_value_as_empty_string ::
  "('n, 'z) serde_scheme \<Rightarrow> bool" where
  "map_active_file_to_pb_treats_null_partition_value_as_empty_string sj \<longleftrightarrow>
     (let pb_add = map_active_file_to_pb sj ''part-0.parquet'' 1 0
                     (AList.update ''region'' None []) None
      in map_of (af_partition_values pb_add) ''region'' = Some '''' \<and> af_stats pb_add = None)"

subsection \<open>src/delta/commit.rs\<close>

text \<open>\<open>CommitInfo\<close> has more fields than the model; the test leaves them all at their defaults.\<close>

definition commit_info_action ::
  "string option \<Rightarrow> (string \<times> 'n json) list \<Rightarrow> ('n, 'p, 'm) kernel_action" where
  "commit_info_action operation params =
     KCommitInfo
       \<lparr>kc_timestamp = None, kc_operation = operation,
        kc_operation_parameters = (if params = [] then None else Some (hm_collect params)),
        kc_engine_info = None, kc_user_metadata = None\<rparr>"

fun is_write :: "('p, 'm) delta_operation \<Rightarrow> bool" where
  "is_write (OpWrite mode partition_by predicate) = True"
| "is_write op = False"

definition build_operation_defaults_to_write_with_no_actions ::
  "('n, 'z) serde_scheme \<Rightarrow> bool" where
  "build_operation_defaults_to_write_with_no_actions sj \<longleftrightarrow>
     is_write (build_operation sj [] :: (unit, unit) delta_operation)"

definition build_operation_defaults_to_write_with_no_commit_info ::
  "('n, 'z) serde_scheme \<Rightarrow> 'p \<Rightarrow> bool" where
  "build_operation_defaults_to_write_with_no_commit_info sj protocol_default \<longleftrightarrow>
     is_write (build_operation sj [KProtocol protocol_default] :: ('p, unit) delta_operation)"

abbreviation region_us :: string where
  "region_us \<equiv> ''region = '' @ [CHR 0x27] @ ''US'' @ [CHR 0x27]"

definition build_operation_maps_optimize_with_predicate_and_target_size ::
  "('n, 'z) serde_scheme \<Rightarrow> bool" where
  "build_operation_maps_optimize_with_predicate_and_target_size sj \<longleftrightarrow>
     (case build_operation sj [commit_info_action (Some ''OPTIMIZE'')
              [(''predicate'', JString region_us), (''target_size'', json_int sj 134217728)]]
             :: (unit, unit) delta_operation of
        OpOptimize predicate target \<Rightarrow>
          predicate = Some region_us \<and> target = 134217728
      | _ \<Rightarrow> False)"

definition build_operation_maps_delete_with_predicate :: "('n, 'z) serde_scheme \<Rightarrow> bool" where
  "build_operation_maps_delete_with_predicate sj \<longleftrightarrow>
     (case build_operation sj [commit_info_action (Some ''DELETE'') [(''predicate'', JString ''id = 1'')]]
             :: (unit, unit) delta_operation of
        OpDelete predicate \<Rightarrow> predicate = Some ''id = 1''
      | _ \<Rightarrow> False)"

definition build_operation_maps_vacuum_with_defaults_when_no_params ::
  "('n, 'z) serde_scheme \<Rightarrow> bool" where
  "build_operation_maps_vacuum_with_defaults_when_no_params sj \<longleftrightarrow>
     (case build_operation sj [commit_info_action (Some ''VACUUM'') []]
             :: (unit, unit) delta_operation of
        OpVacuumStart retention_check_enabled specified_retention_millis default_retention_millis \<Rightarrow>
          retention_check_enabled \<and> specified_retention_millis = None \<and> default_retention_millis = 0
      | _ \<Rightarrow> False)"

definition build_operation_falls_back_to_write_for_convert_and_unknown ::
  "('n, 'z) serde_scheme \<Rightarrow> bool" where
  "build_operation_falls_back_to_write_for_convert_and_unknown sj \<longleftrightarrow>
     list_all (\<lambda>operation. is_write
         (build_operation sj [commit_info_action operation []] :: (unit, unit) delta_operation))
       [Some ''CONVERT'', Some ''SOMETHING_NEW'', None]"

definition build_operation_maps_merge_leaving_predicate_vectors_empty ::
  "('n, 'z) serde_scheme \<Rightarrow> bool" where
  "build_operation_maps_merge_leaving_predicate_vectors_empty sj \<longleftrightarrow>
     (case build_operation sj
             [commit_info_action (Some ''MERGE'') [(''predicate'', JString ''t.id = s.id'')]]
             :: (unit, unit) delta_operation of
        OpMerge predicate merge_predicate matched not_matched not_matched_by_source \<Rightarrow>
          predicate = Some ''t.id = s.id'' \<and> matched = [] \<and> not_matched = []
          \<and> not_matched_by_source = []
      | _ \<Rightarrow> False)"

subsection \<open>src/grpc/auth.rs\<close>

definition constant_time_eq_matches_equal_strings :: bool where
  "constant_time_eq_matches_equal_strings \<longleftrightarrow> constant_time_eq ''super-secret'' ''super-secret''"

definition constant_time_eq_rejects_different_strings :: bool where
  "constant_time_eq_rejects_different_strings \<longleftrightarrow>
     \<not> constant_time_eq ''super-secret'' ''super-secre0'' \<and>
     \<not> constant_time_eq ''short'' ''longer-value'' \<and>
     \<not> constant_time_eq '''' ''nonempty''"

text \<open>Metadata of a request: a map from names to values that are all readable as text.\<close>

definition test_interceptor ::
  "string option \<Rightarrow> (string \<times> string) list \<Rightarrow> ((string \<times> string) list, status) result" where
  "test_interceptor key metadata = make_auth_interceptor map_of Some key metadata"

definition interceptor_allows_when_no_api_key_configured :: bool where
  "interceptor_allows_when_no_api_key_configured \<longleftrightarrow> is_ok (test_interceptor None [])"

definition interceptor_accepts_valid_x_api_key_header :: bool where
  "interceptor_accepts_valid_x_api_key_header \<longleftrightarrow>
     is_ok (test_interceptor (Some ''secret'') [(''x-api-key'', ''secret'')])"

definition interceptor_accepts_valid_bearer_token :: bool where
  "interceptor_accepts_valid_bearer_token \<longleftrightarrow>
     is_ok (test_interceptor (Some ''secret'') [(''authorization'', ''Bearer secret'')])"

definition interceptor_rejects_missing_or_invalid_credentials :: bool where
  "interceptor_rejects_missing_or_invalid_credentials \<longleftrightarrow>
     \<not> is_ok (test_interceptor (Some ''secret'') []) \<and>
     \<not> is_ok (test_interceptor (Some ''secret'') [(''x-api-key'', ''wrong'')])"

subsection \<open>src/config/storage.rs\<close>

definition is_table_uri_allowed_with_no_allowlist_allows_everything :: bool where
  "is_table_uri_allowed_with_no_allowlist_allows_everything \<longleftrightarrow>
     is_table_uri_allowed ''s3://anything/here'' None"

definition is_table_uri_allowed_checks_prefixes :: bool where
  "is_table_uri_allowed_checks_prefixes \<longleftrightarrow>
     (let allowlist = Some [''s3://bucket/tables/'']
      in is_table_uri_allowed ''s3://bucket/tables/foo'' allowlist \<and>
         \<not> is_table_uri_allowed ''s3://other-bucket/tables/foo'' allowlist)"

definition is_table_uri_allowed_prefix_without_trailing_slash_does_not_match_sibling_paths :: bool where
  "is_table_uri_allowed_prefix_without_trailing_slash_does_not_match_sibling_paths \<longleftrightarrow>
     \<not> is_table_uri_allowed ''s3://bucket/tables-other-tenant/secret'' (Some [''s3://bucket/tables''])"

definition is_table_uri_allowed_prefix_without_trailing_slash_still_matches_real_children :: bool where
  "is_table_uri_allowed_prefix_without_trailing_slash_still_matches_real_children \<longleftrightarrow>
     is_table_uri_allowed ''s3://bucket/tables/foo'' (Some [''s3://bucket/tables''])"

definition is_table_uri_allowed_matches_exact_prefix_with_or_without_trailing_slash :: bool where
  "is_table_uri_allowed_matches_exact_prefix_with_or_without_trailing_slash \<longleftrightarrow>
     (let with_slash = Some [''s3://bucket/tables/'']; without_slash = Some [''s3://bucket/tables'']
      in is_table_uri_allowed ''s3://bucket/tables'' with_slash \<and>
         is_table_uri_allowed ''s3://bucket/tables/'' without_slash)"

subsection \<open>src/telemetry/trace\_context.rs\<close>

definition header_extractor_reads_present_header :: bool where
  "header_extractor_reads_present_header \<longleftrightarrow>
     (let headers = AList.update ''traceparent''
                      ''00-4bf92f3577b34da6a3ce929d0e0e4736-00f067aa0ba902b7-01'' []
      in extractor_get map_of Some headers ''traceparent''
           = Some ''00-4bf92f3577b34da6a3ce929d0e0e4736-00f067aa0ba902b7-01'' \<and>
         extractor_get map_of Some headers ''missing'' = None)"

definition header_extractor_lists_keys :: bool where
  "header_extractor_lists_keys \<longleftrightarrow>
     (let headers = AList.update ''x-api-key'' ''value'' (AList.update ''traceparent'' ''value'' [])
      in sort (extractor_keys (map fst) headers) = [''traceparent'', ''x-api-key''])"

section \<open>The tests pass\<close>

lemma mapping_scalar_tests_pass:
  "map_data_change_maps_valid_values" "map_data_change_rejects_unspecified_and_invalid"
  "map_optional_string_map_respects_empty_inputs"
  "map_engine_info_formats_engine_name_and_version" "map_commit_operation_handles_known_values"
  by code_simp+

lemma auth_tests_pass:
  "constant_time_eq_matches_equal_strings" "constant_time_eq_rejects_different_strings"
  "interceptor_allows_when_no_api_key_configured" "interceptor_accepts_valid_x_api_key_header"
  "interceptor_accepts_valid_bearer_token" "interceptor_rejects_missing_or_invalid_credentials"
  by code_simp+

lemma storage_tests_pass:
  "is_table_uri_allowed_with_no_allowlist_allows_everything" "is_table_uri_allowed_checks_prefixes"
  "is_table_uri_allowed_prefix_without_trailing_slash_does_not_match_sibling_paths"
  "is_table_uri_allowed_prefix_without_trailing_slash_still_matches_real_children"
  "is_table_uri_allowed_matches_exact_prefix_with_or_without_trailing_slash"
  by code_simp+

lemma trace_context_tests_pass:
  "header_extractor_reads_present_header" "header_extractor_lists_keys"
  by code_simp+

subsection \<open>Tests that use the JSON library\<close>

text \<open>
  What the tests need of the library on their own documents: each is written as text that reads back
  as the document, the text of the one string map reads back as its object, and the text \<open>not json\<close>
  is not a document.
\<close>

definition test_documents :: "('n, 'z) serde_scheme \<Rightarrow> 'n json list" where
  "test_documents sj =
     [file_stats_json sj id_name_stats, every_shape_document sj, all_null_document sj,
      file_stats_json sj round_trip_stats, five_records_document sj]"

definition test_texts_ok :: "('n, 'z) serde_scheme \<Rightarrow> bool" where
  "test_texts_ok sj \<longleftrightarrow>
     (\<forall>v\<in>set (test_documents sj). json_text_ok sj v) \<and>
     (\<exists>text. strings_to_string sj [(''source'', ''unit-test'')] = Ok text
        \<and> value_from_str sj text = Some (json_object [(''source'', JString ''unit-test'')])) \<and>
     value_from_str sj ''not json'' = None"

lemma test_floats: "f64_is_finite f64_1_5" "f64_is_finite f64_9_5"
  by (simp_all add: f64_is_finite_def)

lemma stats_tests_pass:
  assumes "serde_numbers_ok sj" "test_texts_ok sj"
  shows "map_file_stats_serializes_min_max_and_null_counts sj"
    and "map_stats_json_to_pb_parses_every_value_shape sj"
    and "map_stats_json_to_pb_includes_a_column_with_only_a_null_count sj"
    and "map_file_stats_and_map_stats_json_to_pb_round_trip sj"
    and "map_active_file_to_pb_maps_every_field sj"
proof -
  have num: "num_as_i64 sj (num_from_i64 sj v) = Some v" for v
    by (rule serde_numbersD(1) [OF assms(1)])
  obtain n1 n2 where f: "num_from_f64 sj f64_1_5 = Some n1" "num_as_i64 sj n1 = None"
      "num_as_f64 sj n1 = Some f64_1_5" "num_from_f64 sj f64_9_5 = Some n2" "num_as_i64 sj n2 = None"
      "num_as_f64 sj n2 = Some f64_9_5"
    using serde_f64_finite [OF assms(1)] test_floats by blast
  obtain t1 t2 t3 t4 t5 where t:
    "value_to_string sj (file_stats_json sj id_name_stats) = Some t1"
    "value_from_str sj t1 = Some (file_stats_json sj id_name_stats)"
    "value_to_string sj (every_shape_document sj) = Some t2"
    "value_from_str sj t2 = Some (every_shape_document sj)"
    "value_to_string sj (all_null_document sj) = Some t3"
    "value_from_str sj t3 = Some (all_null_document sj)"
    "value_to_string sj (file_stats_json sj round_trip_stats) = Some t4"
    "value_from_str sj t4 = Some (file_stats_json sj round_trip_stats)"
    "value_to_string sj (five_records_document sj) = Some t5"
    "value_from_str sj t5 = Some (five_records_document sj)"
    using assms(2) by (auto simp: test_texts_ok_def test_documents_def json_text_ok_def)
  note doc_defs = file_stats_json_def file_stats_column_def id_name_stats_def every_shape_document_def
    all_null_document_def round_trip_stats_def five_records_document_def json_object_def json_int_def
    json_f64_def
  note test_defs = json_index_def json_is_int_def json_is_str_def rust_simps column_is_def
    stats_from_document_def map_file_stats_def map_stats_json_to_pb_def column_stats_of_def
    bset_extend_def hm_collect_def Let_def insort_insert_key_def
  show "map_file_stats_serializes_min_max_and_null_counts sj"
    by (simp add: map_file_stats_serializes_min_max_and_null_counts_def map_file_stats_def t)
      (simp add: doc_defs test_defs num)
  show "map_stats_json_to_pb_parses_every_value_shape sj"
    by (simp add: map_stats_json_to_pb_parses_every_value_shape_def stats_from_document_def
        map_stats_json_to_pb_def t)
      (simp add: doc_defs test_defs num f)
  show "map_stats_json_to_pb_includes_a_column_with_only_a_null_count sj"
    by (simp add: map_stats_json_to_pb_includes_a_column_with_only_a_null_count_def
        stats_from_document_def map_stats_json_to_pb_def t)
      (simp add: doc_defs test_defs num)
  show "map_file_stats_and_map_stats_json_to_pb_round_trip sj"
    by (simp add: map_file_stats_and_map_stats_json_to_pb_round_trip_def map_file_stats_def
        map_stats_json_to_pb_def t)
      (simp add: doc_defs test_defs num)
  show "map_active_file_to_pb_maps_every_field sj"
    by (simp add: map_active_file_to_pb_maps_every_field_def map_active_file_to_pb_def
        map_stats_json_to_pb_def t)
      (simp add: doc_defs test_defs num)
qed

lemma metadata_tests_pass:
  assumes "test_texts_ok sj"
  shows "map_file_stats_returns_none_when_absent sj"
    and "map_user_metadata_serializes_to_json sj"
    and "map_stats_json_to_pb_returns_none_when_absent sj"
    and "map_stats_json_to_pb_returns_none_on_malformed_json sj"
    and "map_active_file_to_pb_treats_null_partition_value_as_empty_string sj"
  using assms
  by (auto simp: map_file_stats_returns_none_when_absent_def map_file_stats_def
      map_user_metadata_serializes_to_json_def map_user_metadata_def test_texts_ok_def
      map_stats_json_to_pb_returns_none_when_absent_def map_stats_json_to_pb_def
      map_stats_json_to_pb_returns_none_on_malformed_json_def map_active_file_to_pb_def
      map_active_file_to_pb_treats_null_partition_value_as_empty_string_def hm_collect_def rust_simps)

lemma commit_tests_pass:
  assumes "serde_numbers_ok sj"
  shows "build_operation_defaults_to_write_with_no_actions sj"
    and "build_operation_defaults_to_write_with_no_commit_info sj protocol_default"
    and "build_operation_maps_optimize_with_predicate_and_target_size sj"
    and "build_operation_maps_delete_with_predicate sj"
    and "build_operation_maps_vacuum_with_defaults_when_no_params sj"
    and "build_operation_falls_back_to_write_for_convert_and_unknown sj"
    and "build_operation_maps_merge_leaving_predicate_vectors_empty sj"
  by (simp_all add: build_operation_defaults_to_write_with_no_actions_def
      build_operation_defaults_to_write_with_no_commit_info_def
      build_operation_maps_optimize_with_predicate_and_target_size_def
      build_operation_maps_delete_with_predicate_def
      build_operation_maps_vacuum_with_defaults_when_no_params_def
      build_operation_falls_back_to_write_for_convert_and_unknown_def
      build_operation_maps_merge_leaving_predicate_vectors_empty_def
      build_operation_def commit_info_action_def default_write_operation_def string_param_def
      int_param_def hm_collect_def json_int_def serde_numbersD(1) [OF assms] rust_simps Let_def)

section \<open>Property\<close>

text \<open>
  Every synchronous unit test of the repository that does not test a
  library passes on the model, with any JSON library that keeps the contract the service relies on.
\<close>

theorem unit_tests_pass:
  assumes "serde_numbers_ok sj" and "test_texts_ok sj"
  shows "map_data_change_maps_valid_values \<and> map_data_change_rejects_unspecified_and_invalid
    \<and> map_optional_string_map_respects_empty_inputs
    \<and> map_engine_info_formats_engine_name_and_version \<and> map_commit_operation_handles_known_values
    \<and> map_file_stats_returns_none_when_absent sj
    \<and> map_file_stats_serializes_min_max_and_null_counts sj
    \<and> map_user_metadata_serializes_to_json sj
    \<and> map_stats_json_to_pb_returns_none_when_absent sj
    \<and> map_stats_json_to_pb_returns_none_on_malformed_json sj
    \<and> map_stats_json_to_pb_parses_every_value_shape sj
    \<and> map_stats_json_to_pb_includes_a_column_with_only_a_null_count sj
    \<and> map_file_stats_and_map_stats_json_to_pb_round_trip sj
    \<and> map_active_file_to_pb_maps_every_field sj
    \<and> map_active_file_to_pb_treats_null_partition_value_as_empty_string sj
    \<and> build_operation_defaults_to_write_with_no_actions sj
    \<and> build_operation_defaults_to_write_with_no_commit_info sj protocol_default
    \<and> build_operation_maps_optimize_with_predicate_and_target_size sj
    \<and> build_operation_maps_delete_with_predicate sj
    \<and> build_operation_maps_vacuum_with_defaults_when_no_params sj
    \<and> build_operation_falls_back_to_write_for_convert_and_unknown sj
    \<and> build_operation_maps_merge_leaving_predicate_vectors_empty sj
    \<and> constant_time_eq_matches_equal_strings \<and> constant_time_eq_rejects_different_strings
    \<and> interceptor_allows_when_no_api_key_configured \<and> interceptor_accepts_valid_x_api_key_header
    \<and> interceptor_accepts_valid_bearer_token \<and> interceptor_rejects_missing_or_invalid_credentials
    \<and> is_table_uri_allowed_with_no_allowlist_allows_everything
    \<and> is_table_uri_allowed_checks_prefixes
    \<and> is_table_uri_allowed_prefix_without_trailing_slash_does_not_match_sibling_paths
    \<and> is_table_uri_allowed_prefix_without_trailing_slash_still_matches_real_children
    \<and> is_table_uri_allowed_matches_exact_prefix_with_or_without_trailing_slash
    \<and> header_extractor_reads_present_header \<and> header_extractor_lists_keys"
  by (intro conjI mapping_scalar_tests_pass auth_tests_pass storage_tests_pass
      trace_context_tests_pass stats_tests_pass [OF assms] metadata_tests_pass [OF assms(2)]
      commit_tests_pass [OF assms(1)])

text \<open>A JSON library with texts for exactly the documents of the tests.\<close>

definition test_serde ::
  "(sample_number, sample_number json, sample_number json) kernel_serde" where
  "test_serde =
     (let sj = sample_serde JNull;
          docs = zip [''1'', ''2'', ''3'', ''4'', ''5''] (test_documents sj)
      in sj\<lparr>value_to_string := (\<lambda>v. map_option fst (find (\<lambda>(s, w). w = v) docs)),
            value_from_str := map_of (docs @ [(''m'', json_object [(''source'', JString ''unit-test'')])]),
            strings_to_string := (\<lambda>_. Ok ''m'')\<rparr>)"

lemma test_serde_texts: "test_texts_ok test_serde"
proof -
  have "list_all (\<lambda>v. case value_to_string test_serde v of
      None \<Rightarrow> False | Some s \<Rightarrow> value_from_str test_serde s = Some v) (test_documents test_serde)"
    by code_simp
  then have "\<forall>v\<in>set (test_documents test_serde). json_text_ok test_serde v"
    by (auto simp: list_all_iff json_text_ok_def split: option.splits)
  moreover have "strings_to_string test_serde [(''source'', ''unit-test'')] = Ok ''m''"
    "value_from_str test_serde ''m'' = Some (json_object [(''source'', JString ''unit-test'')])"
    "value_from_str test_serde ''not json'' = None"
    by code_simp+
  ultimately show ?thesis unfolding test_texts_ok_def by blast
qed

theorem unit_tests_pass_witness:
  "map_stats_json_to_pb_parses_every_value_shape test_serde
   \<and> map_file_stats_and_map_stats_json_to_pb_round_trip test_serde
   \<and> is_table_uri_allowed_prefix_without_trailing_slash_does_not_match_sibling_paths"
proof -
  have "serde_numbers_ok test_serde"
    using sample_serde_numbers_ok [of JNull] by (simp add: serde_numbers_ok_def test_serde_def Let_def)
  from unit_tests_pass [OF this test_serde_texts, of "()"] show ?thesis by simp
qed

end
