(* ===== verification/Lock_Tests.thy ===== *)
theory Lock_Tests
  imports Table_Lock
begin

section \<open>The concurrency tests of the lock manager (locking/table\_lock.rs)\<close>

text \<open>
  The two stress tests of table\_lock.rs. Each starts a number of tasks that take and release the
  lock of their key again and again; the test runner sees one schedule per run. Here the tests are
  transition systems, with the tasks' program order and the flags the first test looks at, and the
  assertions are shown for every schedule.

  A task does its rounds in the order of the source: \<open>lock_for\<close>, \<open>lock().await\<close>, the swap of the
  flag, the store of the flag, the drop of the guard and the drop of the handle. The second test has
  no flags; leaving them in does not change what it does to the lock.
\<close>

record churn_sys =
  ch_locks :: lock_sys
  ch_left :: "task \<Rightarrow> nat"
  ch_stage :: "task \<Rightarrow> nat" \<comment> \<open>1 after the swap, 2 after the store of the round\<close>
  in_critical_section :: bool
  overlap_detected :: bool

definition churn_init :: "nat \<Rightarrow> churn_sys" where
  "churn_init rounds =
     \<lparr>ch_locks = lock_sys_init, ch_left = (\<lambda>_. rounds), ch_stage = (\<lambda>_. 0),
      in_critical_section = False, overlap_detected = False\<rparr>"

datatype churn_action = LockCall lock_action | SwapFlag | StoreFlag

text \<open>The place of a lock action in a round: a task that is not cancelled.\<close>

fun in_turn :: "(task \<Rightarrow> string) \<Rightarrow> churn_sys \<Rightarrow> task \<Rightarrow> lock_action \<Rightarrow> bool" where
  "in_turn key s t (Enter k) = (k = key t \<and> 0 < ch_left s t)"
| "in_turn key s t Release = (ch_stage s t = 2)"
| "in_turn key s t DropLock = (case pcs (ch_locks s) t of Unlocked k a \<Rightarrow> True | _ \<Rightarrow> False)"
| "in_turn key s t act = True"

fun round_update :: "task \<Rightarrow> lock_action \<Rightarrow> churn_sys \<Rightarrow> churn_sys" where
  "round_update t (Enter k) s = s\<lparr>ch_left := (ch_left s)(t := ch_left s t - 1)\<rparr>"
| "round_update t Release s = s\<lparr>ch_stage := (ch_stage s)(t := 0)\<rparr>"
| "round_update t act s = s"

fun churn_exec ::
  "(task \<Rightarrow> string) \<Rightarrow> (string \<Rightarrow> nat) \<Rightarrow> nat \<Rightarrow> churn_sys \<Rightarrow> task \<times> churn_action
     \<Rightarrow> churn_sys option" where
  "churn_exec key sh n s (t, LockCall act) =
     (if t < n \<and> in_turn key s t act then
        (case lock_exec sh (ch_locks s) t act of
           None \<Rightarrow> None
         | Some l \<Rightarrow> Some (round_update t act (s\<lparr>ch_locks := l\<rparr>)))
      else None)"
| "churn_exec key sh n s (t, SwapFlag) =
     (if t < n \<and> lock_holds (ch_locks s) t (key t) \<and> ch_stage s t = 0 then
        Some (s\<lparr>ch_stage := (ch_stage s)(t := 1), in_critical_section := True,
                overlap_detected := overlap_detected s \<or> in_critical_section s\<rparr>)
      else None)"
| "churn_exec key sh n s (t, StoreFlag) =
     (if t < n \<and> ch_stage s t = 1 then
        Some (s\<lparr>ch_stage := (ch_stage s)(t := 2), in_critical_section := False\<rparr>)
      else None)"

text \<open>All tasks have been joined.\<close>

definition all_joined :: "nat \<Rightarrow> churn_sys \<Rightarrow> bool" where
  "all_joined n s \<longleftrightarrow> (\<forall>t<n. ch_left s t = 0 \<and> pcs (ch_locks s) t = Idle)"

definition concurrent_lock_for_calls_for_the_same_key_never_grant_overlapping_access ::
  "(string \<Rightarrow> nat) \<Rightarrow> bool" where
  "concurrent_lock_for_calls_for_the_same_key_never_grant_overlapping_access sh \<longleftrightarrow>
     (\<forall>schedule s. runs (churn_exec (\<lambda>_. ''same-table'') sh 64) schedule (churn_init 50) = Some s \<longrightarrow>
        all_joined 64 s \<longrightarrow> \<not> overlap_detected s)"

definition churn_key :: "task \<Rightarrow> string" where
  "churn_key i = ''table-'' @ [char_of (i mod 4 + 48)]"

definition heavy_concurrent_churn_leaves_no_entries_behind :: "(string \<Rightarrow> nat) \<Rightarrow> bool" where
  "heavy_concurrent_churn_leaves_no_entries_behind sh \<longleftrightarrow>
     (\<forall>schedule s. runs (churn_exec churn_key sh 32) schedule (churn_init 100) = Some s \<longrightarrow>
        all_joined 32 s \<longrightarrow> locks (ch_locks s) = Map.empty)"

section \<open>Lemmas\<close>

lemma round_update_simps [simp]:
  "ch_locks (round_update t act s) = ch_locks s"
  "in_critical_section (round_update t act s) = in_critical_section s"
  "overlap_detected (round_update t act s) = overlap_detected s"
  by (cases act; simp)+

definition churn_inv :: "(task \<Rightarrow> string) \<Rightarrow> (string \<Rightarrow> nat) \<Rightarrow> nat \<Rightarrow> churn_sys \<Rightarrow> bool" where
  "churn_inv key sh n s \<longleftrightarrow>
     n < 2 ^ 64 \<and> lock_inv sh n (ch_locks s) \<and>
     (\<forall>t k a. user_of (pcs (ch_locks s) t) = Some (k, a) \<longrightarrow> k = key t) \<and>
     (\<forall>t. ch_stage s t \<noteq> 0 \<longrightarrow> lock_holds (ch_locks s) t (key t) \<and> ch_stage s t \<le> 2)"

text \<open>The flag is set exactly while a task is between its swap and its store.\<close>

definition flag_inv :: "churn_sys \<Rightarrow> bool" where
  "flag_inv s \<longleftrightarrow>
     (in_critical_section s \<longleftrightarrow> (\<exists>t. ch_stage s t = 1)) \<and> \<not> overlap_detected s"

text \<open>A lock action in turn keeps the key of its task, and the guard while the round needs it.\<close>

lemma in_turn_keeps:
  assumes "in_turn key s t act" "lock_exec sh (ch_locks s) t act = Some l"
    and "\<And>k a. user_of (pcs (ch_locks s) t) = Some (k, a) \<Longrightarrow> k = key t"
    and "ch_stage s t \<noteq> 0 \<Longrightarrow> lock_holds (ch_locks s) t (key t)"
  shows "user_of (pcs l t) = Some (k, a) \<Longrightarrow> k = key t"
    and "ch_stage (round_update t act (s\<lparr>ch_locks := l\<rparr>)) t = 0"
    and "ch_stage s t \<noteq> 1"
proof -
  show "user_of (pcs l t) = Some (k, a) \<Longrightarrow> k = key t"
    using assms(1-3)
    by (cases act) (auto simp: lock_mem_defs Let_def split: lock_pc.splits if_splits option.splits)
  show "ch_stage (round_update t act (s\<lparr>ch_locks := l\<rparr>)) t = 0"
    using assms(1,2,4)
    by (cases act; cases "ch_stage s t = 0")
      (auto simp: lock_holds_def Let_def split: lock_pc.splits if_splits)
  show "ch_stage s t \<noteq> 1"
    using assms(1,2,4)
    by (cases act; cases "ch_stage s t = 0")
      (auto simp: lock_holds_def Let_def split: lock_pc.splits if_splits)
qed

lemma round_update_others:
  "u \<noteq> t \<Longrightarrow> ch_stage (round_update t act s) u = ch_stage s u"
  "u \<noteq> t \<Longrightarrow> ch_left (round_update t act s) u = ch_left s u"
  by (cases act; simp)+

lemma churn_inv_exec:
  assumes inv: "churn_inv key sh n s" and ex: "churn_exec key sh n s ta = Some s'"
  shows "churn_inv key sh n s'"
proof (cases "(key, sh, n, s, ta)" rule: churn_exec.cases)
  case (1 _ _ _ _ t act)
  then obtain l where t: "t < n" and turn: "in_turn key s t act"
    and l: "lock_exec sh (ch_locks s) t act = Some l"
    and s': "s' = round_update t act (s\<lparr>ch_locks := l\<rparr>)"
    using ex by (auto split: if_splits option.splits)
  have li: "n < 2 ^ 64 \<and> lock_inv sh n (ch_locks s)" using inv by (simp add: churn_inv_def)
  note keeps = in_turn_keeps [OF turn l]
  note other = lock_exec_others [OF l]
  have "lock_inv sh n l" using tm.keeps [OF li t l] by simp
  moreover have "k = key u" if "user_of (pcs l u) = Some (k, a)" for u k a
    using that keeps(1) [of k a] inv other [of u] by (cases "u = t") (auto simp: churn_inv_def)
  moreover have "lock_holds l u (key u) \<and> ch_stage s' u \<le> 2" if "ch_stage s' u \<noteq> 0" for u
    using that keeps(2) inv other [of u]
    by (cases "u = t") (auto simp: churn_inv_def lock_holds_def round_update_others s')
  ultimately show ?thesis using li by (simp add: churn_inv_def s')
qed (use inv ex in \<open>auto simp: churn_inv_def split: if_splits\<close>)

lemma flag_inv_exec:
  assumes inv: "churn_inv (\<lambda>_. k) sh n s" and flag: "flag_inv s"
    and ex: "churn_exec (\<lambda>_. k) sh n s ta = Some s'"
  shows "flag_inv s'"
proof -
  have alone: "u = t" if "lock_holds (ch_locks s) t k" "ch_stage s u = 1" for t u
    using lock_holds_exclusive [of sh n "ch_locks s" u k t] inv that by (simp add: churn_inv_def)
  show ?thesis
  proof (cases "(\<lambda>_ :: nat. k, sh, n, s, ta)" rule: churn_exec.cases)
    case (1 _ _ _ _ t act)
    then obtain l where turn: "in_turn (\<lambda>_. k) s t act"
      and l: "lock_exec sh (ch_locks s) t act = Some l"
      and s': "s' = round_update t act (s\<lparr>ch_locks := l\<rparr>)"
      using ex by (auto split: if_splits option.splits)
    have "ch_stage s' t = 0" "ch_stage s t \<noteq> 1"
      using in_turn_keeps(2,3) [OF turn l] inv by (auto simp: churn_inv_def s')
    then have "ch_stage s' u = 1 \<longleftrightarrow> ch_stage s u = 1" for u
      by (cases "u = t") (auto simp: s' round_update_others)
    with flag show ?thesis by (simp add: flag_inv_def s')
  next
    case (2 _ _ _ _ t)
    then have t: "lock_holds (ch_locks s) t k" "ch_stage s t = 0"
      and s': "s' = s\<lparr>ch_stage := (ch_stage s)(t := 1), in_critical_section := True,
         overlap_detected := overlap_detected s \<or> in_critical_section s\<rparr>"
      using ex by (auto split: if_splits)
    have "\<not> in_critical_section s"
      using alone [OF t(1)] t(2) flag by (auto simp: flag_inv_def)
    with flag show ?thesis by (auto simp: flag_inv_def s')
  next
    case (3 _ _ _ _ t)
    then have "lock_holds (ch_locks s) t k" and t: "ch_stage s t = 1"
      using ex inv by (auto simp: churn_inv_def split: if_splits)
    moreover have "s' = s\<lparr>ch_stage := (ch_stage s)(t := 2), in_critical_section := False\<rparr>"
      using 3 ex by (auto split: if_splits)
    moreover have "((ch_stage s)(t := 2)) u \<noteq> 1" for u
      using alone [OF \<open>lock_holds (ch_locks s) t k\<close>, of u] by (cases "u = t") auto
    ultimately show ?thesis using flag by (simp add: flag_inv_def del: fun_upd_apply)
  qed
qed

subsection \<open>The rank\<close>

definition churn_task_rank :: "churn_sys \<Rightarrow> task \<Rightarrow> nat" where
  "churn_task_rank s t = 19 * ch_left s t + 3 * lock_rank (pcs (ch_locks s) t) + (2 - ch_stage s t)"

definition churn_rank :: "nat \<Rightarrow> churn_sys \<Rightarrow> nat" where
  "churn_rank n s = (\<Sum>t<n. churn_task_rank s t)"

lemma in_turn_rank:
  assumes "in_turn key s t act" "lock_exec sh (ch_locks s) t act = Some l"
  shows "churn_task_rank (round_update t act (s\<lparr>ch_locks := l\<rparr>)) t < churn_task_rank s t"
proof (cases "\<exists>k. act = Enter k")
  case True
  then obtain k where act: "act = Enter k" by blast
  with assms(2) have "pcs (ch_locks s) t = Idle" "lock_rank (pcs l t) = 6"
    by (auto simp: Let_def split: if_splits prod.splits)
  with act assms(1) show ?thesis by (cases "ch_left s t") (auto simp: churn_task_rank_def)
next
  case False
  then have less: "lock_rank (pcs l t) < lock_rank (pcs (ch_locks s) t)"
    using lock_exec_rank(1) [OF assms(2)] by blast
  have "ch_left (round_update t act (s\<lparr>ch_locks := l\<rparr>)) t = ch_left s t"
    "ch_stage s t \<le> ch_stage (round_update t act (s\<lparr>ch_locks := l\<rparr>)) t
       \<or> act = Release \<and> ch_stage s t = 2"
    using False assms(1) by (cases act; simp)+
  with less show ?thesis by (auto simp: churn_task_rank_def)
qed

lemma churn_rank_exec:
  assumes "churn_exec key sh n s ta = Some s'"
  shows "churn_rank n s' < churn_rank n s"
proof -
  have "\<exists>t<n. churn_task_rank s' t < churn_task_rank s t
      \<and> (\<forall>u. u \<noteq> t \<longrightarrow> churn_task_rank s' u = churn_task_rank s u)"
  proof (cases "(key, sh, n, s, ta)" rule: churn_exec.cases)
    case (1 _ _ _ _ t act)
    then obtain l where t: "t < n" and turn: "in_turn key s t act"
      and l: "lock_exec sh (ch_locks s) t act = Some l"
      and s': "s' = round_update t act (s\<lparr>ch_locks := l\<rparr>)"
      using assms by (auto split: if_splits option.splits)
    with in_turn_rank [OF turn l] lock_exec_others [OF l] show ?thesis
      by (auto simp: churn_task_rank_def round_update_others)
  qed (use assms in \<open>auto simp: churn_task_rank_def split: if_splits\<close>)
  then obtain t where "t < n" "churn_task_rank s' t < churn_task_rank s t"
      "\<forall>u. u \<noteq> t \<longrightarrow> churn_task_rank s' u = churn_task_rank s u"
    by blast
  then show ?thesis
    unfolding churn_rank_def by (intro sum_strict_mono_ex1) (auto, metis order.refl less_imp_le)
qed

interpretation ch: ranked_system "churn_exec key sh n" "churn_inv key sh n" "\<lambda>_. 1" "churn_rank n"
  by unfold_locales (auto intro: churn_inv_exec simp: Suc_le_eq churn_rank_exec)

interpretation same: ranked_system "churn_exec (\<lambda>_. k) sh n"
  "\<lambda>s. churn_inv (\<lambda>_. k) sh n s \<and> flag_inv s" "\<lambda>_. 1" "churn_rank n"
  by unfold_locales (auto intro: churn_inv_exec flag_inv_exec simp: Suc_le_eq churn_rank_exec)

lemma churn_init_inv: "n < 2 ^ 64 \<Longrightarrow> churn_inv key sh n (churn_init rounds)"
  using lock_inv_init [of sh n]
  by (simp add: churn_inv_def churn_init_def) (simp add: lock_sys_init_def lock_mem.defs)

lemma churn_init_flag: "flag_inv (churn_init rounds)"
  by (simp add: flag_inv_def churn_init_def)

lemma churn_rank_init: "churn_rank n (churn_init rounds) = n * (19 * rounds + 2)"
  by (simp add: churn_rank_def churn_task_rank_def churn_init_def lock_sys_init_def lock_mem.defs)

subsection \<open>The tasks get to their end\<close>

lemma churn_stuck:
  assumes inv: "churn_inv key sh n s" and stuck: "\<And>ta. churn_exec key sh n s ta = None"
  shows "all_joined n s"
proof -
  have li: "lock_inv sh n (ch_locks s)"
    and keys: "user_of (pcs (ch_locks s) t) = Some (k, a) \<Longrightarrow> k = key t" for t k a
    using inv by (auto simp: churn_inv_def)
  have idle: "pcs (ch_locks s) t = Idle" for t
  proof (rule ccontr)
    assume "pcs (ch_locks s) t \<noteq> Idle"
    then obtain v act l where v: "v < n" "lock_exec sh (ch_locks s) v act = Some l"
        "\<And>k. act \<noteq> Enter k" "act = DropLock \<Longrightarrow> \<exists>k a. pcs (ch_locks s) v = Unlocked k a"
      using lock_inv_progress [OF li] by blast
    have "\<not> in_turn key s v act"
      using stuck [of "(v, LockCall act)"] v(1,2) by (auto split: if_splits)
    then have "act = Release" "ch_stage s v \<noteq> 2"
      using v(3,4) by (cases act; auto)+
    moreover have "lock_holds (ch_locks s) v (key v)"
      using v(2) keys [of v] \<open>act = Release\<close> by (auto simp: lock_holds_def split: lock_pc.splits)
    moreover have "ch_stage s v \<noteq> 0 \<Longrightarrow> ch_stage s v \<le> 2" using inv by (simp add: churn_inv_def)
    ultimately show False
      using stuck [of "(v, SwapFlag)"] stuck [of "(v, StoreFlag)"] v(1) by (auto split: if_splits)
  qed
  have free: "shard (ch_locks s) i = None" for i
    using shards_okD(2) [of sh "ch_locks s" i] li idle
    by (cases "shard (ch_locks s) i") (auto simp: lock_inv_def)
  have "ch_left s t = 0" if "t < n" for t
    using stuck [of "(t, LockCall (Enter (key t)))"] that idle [of t] free
    by (auto simp: Let_def split: if_splits prod.splits option.splits)
  with idle show ?thesis by (simp add: all_joined_def)
qed

lemma joined_map_empty:
  assumes "churn_inv key sh n s" "all_joined n s"
  shows "locks (ch_locks s) = Map.empty"
proof -
  have "pcs (ch_locks s) t = Idle" for t
    using assms by (cases "t < n") (auto simp: churn_inv_def all_joined_def lock_inv_def counts_ok_def)
  with assms(1) show ?thesis using quiescent_map_empty by (auto simp: churn_inv_def)
qed

lemma churn_runs:
  assumes "runs (churn_exec key sh n) schedule (churn_init rounds) = Some s" "n < 2 ^ 64"
  shows "churn_inv key sh n s"
    and "length schedule \<le> n * (19 * rounds + 2)
      \<and> ((\<forall>ta. churn_exec key sh n s ta = None) \<longrightarrow> all_joined n s)"
proof -
  show inv: "churn_inv key sh n s"
    by (rule ch.runs_invariant [OF churn_init_inv [OF assms(2)] assms(1)])
  show "length schedule \<le> n * (19 * rounds + 2)
      \<and> ((\<forall>ta. churn_exec key sh n s ta = None) \<longrightarrow> all_joined n s)"
    using ch.runs_bounded [OF churn_init_inv [OF assms(2)] assms(1)] churn_stuck [OF inv]
    by (simp add: churn_rank_init sum_list_triv del: split_paired_All)
qed

section \<open>Property\<close>

text \<open>
  The assertions of the two concurrency tests of the
  lock manager hold in every schedule of their tasks and for every assignment of keys to shards of
  the map: no two tasks are ever inside the critical section, and no entry is left in the map. No
  schedule hangs: every run of the first test has at most 60928 actions, every run of the second at
  most 60864, and a run that cannot go on has joined all its tasks.
\<close>

theorem lock_tests_pass_in_every_schedule:
  "concurrent_lock_for_calls_for_the_same_key_never_grant_overlapping_access sh
   \<and> heavy_concurrent_churn_leaves_no_entries_behind sh
   \<and> (\<forall>schedule s. runs (churn_exec (\<lambda>_. ''same-table'') sh 64) schedule (churn_init 50) = Some s \<longrightarrow>
        length schedule \<le> 60928
        \<and> ((\<forall>ta. churn_exec (\<lambda>_. ''same-table'') sh 64 s ta = None) \<longrightarrow> all_joined 64 s))
   \<and> (\<forall>schedule s. runs (churn_exec churn_key sh 32) schedule (churn_init 100) = Some s \<longrightarrow>
        length schedule \<le> 60864
        \<and> ((\<forall>ta. churn_exec churn_key sh 32 s ta = None) \<longrightarrow> all_joined 32 s))"
proof -
  have "concurrent_lock_for_calls_for_the_same_key_never_grant_overlapping_access sh"
    unfolding concurrent_lock_for_calls_for_the_same_key_never_grant_overlapping_access_def
    using same.runs_invariant [OF conjI [OF churn_init_inv churn_init_flag], of 64]
    by (simp add: flag_inv_def)
  moreover have "heavy_concurrent_churn_leaves_no_entries_behind sh"
    unfolding heavy_concurrent_churn_leaves_no_entries_behind_def
    using churn_runs(1) [of churn_key sh 32] joined_map_empty [of churn_key sh 32] by simp
  ultimately show ?thesis
    using churn_runs(2) [of "\<lambda>_. ''same-table''" sh 64 _ 50] churn_runs(2) [of churn_key sh 32 _ 100]
    by simp
qed

text \<open>One round of the first task while a second one comes to wait.\<close>

definition sample_churn :: "(task \<times> churn_action) list" where
  "sample_churn =
     [(0, LockCall (Enter ''same-table'')), (0, LockCall FetchAdd), (0, LockCall Acquire), (0, SwapFlag),
      (1, LockCall (Enter ''same-table'')), (1, LockCall FetchAdd), (0, StoreFlag),
      (0, LockCall Release), (0, LockCall DropLock), (1, LockCall Acquire), (1, SwapFlag)]"

theorem lock_tests_pass_in_every_schedule_witness:
  "concurrent_lock_for_calls_for_the_same_key_never_grant_overlapping_access (\<lambda>_. 0)
   \<and> (\<exists>s. runs (churn_exec (\<lambda>_. ''same-table'') (\<lambda>_. 0) 64) sample_churn (churn_init 50) = Some s
        \<and> in_critical_section s \<and> \<not> overlap_detected s \<and> ch_left s 0 = 49
        \<and> length sample_churn \<le> 60928)"
proof -
  obtain s where s: "runs (churn_exec (\<lambda>_. ''same-table'') (\<lambda>_. 0) 64) sample_churn (churn_init 50) = Some s"
    "in_critical_section s \<and> \<not> overlap_detected s \<and> ch_left s 0 = 49"
    by (simp add: sample_churn_def churn_init_def lock_sys_init_def lock_manager_default_def
        lock_mem.defs lock_mem_defs lock_holds_def Let_def)
  then show ?thesis
    using lock_tests_pass_in_every_schedule [of "\<lambda>_. 0"] by blast
qed

end
