(* ===== verification/Retry_Clients.thy ===== *)
theory Retry_Clients
  imports Grpc_Server
begin

section \<open>Clients that retry (tests/e2e\_concurrency.rs)\<close>

text \<open>
  The client loop the documentation of the service recommends for concurrent writers, and its
  concurrency test runs: read the version of the table, commit against it, and start over when the
  commit is aborted. Any number of such clients interleave at their calls; a call is one step, since
  concurrent commits are linearizable (\<open>Commit_Spec\<close>). The lemmas show that the loops end whatever the
  schedule, and that every client lands exactly once.
\<close>

datatype writer = WRead | WCommit i64 | WDone | WPanic

record 'w writers =
  wr_world :: 'w
  wr_mem :: lock_mem
  wr_at :: "task \<Rightarrow> writer"

definition writers_init :: "'w \<Rightarrow> lock_mem \<Rightarrow> 'w writers" where
  "writers_init w mem = \<lparr>wr_world = w, wr_mem = mem, wr_at = (\<lambda>_. WRead)\<rparr>"

definition writer_request :: "string \<Rightarrow> i64 \<Rightarrow> action_msg list \<Rightarrow> commit_request" where
  "writer_request table_uri v actions =
     \<lparr>cr_table_uri = table_uri, cr_expected_version = Some v, cr_actions = actions,
      cr_app_metadata = []\<rparr>"

text \<open>The next call of writer \<open>i\<close> of \<open>n\<close>; any error but ABORTED makes it panic.\<close>

definition writer_exec ::
  "('w, 'n, 'p, 'm, 'b, 't, 'l, 's, 'c, 'v) store \<Rightarrow> ('n, 'p, 'm, 'z) kernel_serde_scheme
     \<Rightarrow> server \<Rightarrow> string \<Rightarrow> (task \<Rightarrow> action_msg list) \<Rightarrow> nat \<Rightarrow> 'w writers \<Rightarrow> task
     \<Rightarrow> 'w writers option" where
  "writer_exec d sj srv table_uri actions n s i =
     (if n \<le> i then None
      else case wr_at s i of
        WRead \<Rightarrow>
          (case get_table d srv table_uri (wr_world s) of
             (Ok response, w) \<Rightarrow>
               Some (s\<lparr>wr_world := w, wr_at := (wr_at s)(i := WCommit (gt_version response))\<rparr>)
           | (Err status, w) \<Rightarrow> Some (s\<lparr>wr_world := w, wr_at := (wr_at s)(i := WPanic)\<rparr>))
      | WCommit current_version \<Rightarrow>
          (case commit d sj srv i (writer_request table_uri current_version (actions i))
                  (wr_world s, wr_mem s) of
             (Ok response, (w, mem)) \<Rightarrow>
               Some (s\<lparr>wr_world := w, wr_mem := mem, wr_at := (wr_at s)(i := WDone)\<rparr>)
           | (Err status, (w, mem)) \<Rightarrow>
               Some (s\<lparr>wr_world := w, wr_mem := mem,
                 wr_at := (wr_at s)(i := if status_code status = Aborted then WRead else WPanic)\<rparr>))
      | _ \<Rightarrow> None)"

subsection \<open>What the clients rely on of the storage\<close>

text \<open>
  A log at \<open>u\<close> that works: its table can be opened and described, and the commit of writer \<open>i\<close>, with
  the kernel actions \<open>ks i\<close>, lands as the next version when the log has not moved since the table was
  opened and has fewer than \<open>bound\<close> versions. \<open>ver\<close> is the latest version in a world and \<open>content\<close> what
  commits have added; the one of writer \<open>i\<close> adds \<open>eff i\<close>. \<open>good\<close> are the worlds in which this holds.
\<close>

definition same_log :: "('w \<Rightarrow> bool) \<Rightarrow> ('w \<Rightarrow> nat) \<Rightarrow> ('w \<Rightarrow> 'x list) \<Rightarrow> 'w \<Rightarrow> 'w \<Rightarrow> bool" where
  "same_log good ver content w w' \<longleftrightarrow> good w' \<and> ver w' = ver w \<and> content w' = content w"

definition reliable_log ::
  "('w, 'n, 'p, 'm, 'b, 't, 'l, 's, 'c, 'v) store \<Rightarrow> string hash_map \<Rightarrow> string \<Rightarrow> url
     \<Rightarrow> (task \<Rightarrow> ('n, 'p, 'm) kernel_action list) \<Rightarrow> (task \<Rightarrow> 'x) \<Rightarrow> ('w \<Rightarrow> nat)
     \<Rightarrow> ('w \<Rightarrow> 'x list) \<Rightarrow> ('w \<Rightarrow> bool) \<Rightarrow> nat \<Rightarrow> bool" where
  "reliable_log d opts uri u ks eff ver content good bound \<longleftrightarrow>
     (\<forall>w. good w \<longrightarrow>
        (\<exists>w'. ensure_table_uri d uri w = (Ok u, w') \<and> same_log good ver content w w')) \<and>
     (\<exists>t. build_handle d u opts = Ok t \<and>
        (\<forall>w. good w \<longrightarrow> (\<exists>w'. is_delta_table_location d (log_store d t) w = (Ok True, w')
           \<and> same_log good ver content w w'))) \<and>
     (\<forall>w. good w \<longrightarrow> (\<exists>t snap schema st w'.
        open_table_with_storage_options d u opts w = (Ok t, w') \<and> same_log good ver content w w' \<and>
        table_version d t = Some (of_nat (ver w)) \<and> table_snapshot d t = Ok snap \<and>
        snapshot_version d snap = of_nat (ver w) \<and>
        metadata_parse_schema d (snapshot_metadata d snap) = Ok schema \<and>
        schema_to_string d schema = Ok st \<and>
        (\<forall>i op. ver w < bound \<longrightarrow>
           (\<exists>w''. commit_builder_build d (ks i) (Some snap) (log_store d t) op w'
                = (Ok (of_nat (Suc (ver w))), w'')
              \<and> good w'' \<and> ver w'' = Suc (ver w) \<and> content w'' = content w @ [eff i]))))"

section \<open>Lemmas\<close>

subsection \<open>The two calls\<close>

lemma same_log_trans:
  "same_log good ver content w w1 \<Longrightarrow> same_log good ver content w1 w2 \<Longrightarrow>
     same_log good ver content w w2"
  by (simp add: same_log_def)

lemma same_logD:
  assumes "same_log good ver content w w'"
  shows "good w'" "ver w' = ver w" "content w' = content w"
  using assms by (simp_all add: same_log_def)

lemma reliable_reads:
  assumes r: "reliable_log d (srv_storage_opts srv) uri u ks eff ver content good bound"
    and allowed: "is_table_uri_allowed uri (srv_allowed_table_prefixes srv)"
      "is_table_uri_allowed u (srv_allowed_table_prefixes srv)"
    and w: "good w"
  obtains w1 w2 where
    "normalize_and_check_table_uri d srv uri w = (Ok u, w1)"
    "table_exists d u (srv_storage_opts srv) w1 = (Ok True, w2)" "same_log good ver content w w2"
proof -
  obtain w1 where w1: "ensure_table_uri d uri w = (Ok u, w1)" "same_log good ver content w w1"
    using r w unfolding reliable_log_def by blast
  obtain t where t: "build_handle d u (srv_storage_opts srv) = Ok t"
    and loc: "\<And>w. good w \<Longrightarrow> \<exists>w'. is_delta_table_location d (log_store d t) w = (Ok True, w')
      \<and> same_log good ver content w w'"
    using r unfolding reliable_log_def by blast
  obtain w2 where w2: "is_delta_table_location d (log_store d t) w1 = (Ok True, w2)"
    "same_log good ver content w1 w2"
    using loc [OF same_logD(1) [OF w1(2)]] by blast
  show thesis
  proof
    show "normalize_and_check_table_uri d srv uri w = (Ok u, w1)"
      using allowed w1(1) by (simp add: normalize_Ok)
    show "table_exists d u (srv_storage_opts srv) w1 = (Ok True, w2)"
      using t w2(1) by (simp add: table_exists_def rust_simps)
    show "same_log good ver content w w2" using same_log_trans [OF w1(2) w2(2)] .
  qed
qed

lemma reliable_open:
  assumes "reliable_log d opts uri u ks eff ver content good bound" "good w"
  obtains t snap schema st w' where "open_table d u opts w = (Ok t, w')"
    "same_log good ver content w w'"
    "table_version d t = Some (of_nat (ver w))" "table_snapshot d t = Ok snap"
    "snapshot_version d snap = of_nat (ver w)"
    "metadata_parse_schema d (snapshot_metadata d snap) = Ok schema"
    "schema_to_string d schema = Ok st"
    "\<forall>i op. ver w < bound \<longrightarrow>
       (\<exists>w''. commit_builder_build d (ks i) (Some snap) (log_store d t) op w'
            = (Ok (of_nat (Suc (ver w))), w'')
          \<and> good w'' \<and> ver w'' = Suc (ver w) \<and> content w'' = content w @ [eff i])"
proof -
  have "\<exists>t snap schema st w'.
      open_table_with_storage_options d u opts w = (Ok t, w') \<and> same_log good ver content w w' \<and>
      table_version d t = Some (of_nat (ver w)) \<and> table_snapshot d t = Ok snap \<and>
      snapshot_version d snap = of_nat (ver w) \<and>
      metadata_parse_schema d (snapshot_metadata d snap) = Ok schema \<and>
      schema_to_string d schema = Ok st \<and>
      (\<forall>i op. ver w < bound \<longrightarrow>
         (\<exists>w''. commit_builder_build d (ks i) (Some snap) (log_store d t) op w'
              = (Ok (of_nat (Suc (ver w))), w'')
            \<and> good w'' \<and> ver w'' = Suc (ver w) \<and> content w'' = content w @ [eff i]))"
    using assms unfolding reliable_log_def by blast
  then show thesis using that by (auto simp: open_table_def rust_simps)
qed

lemma reliable_get_table:
  assumes r: "reliable_log d (srv_storage_opts srv) uri u ks eff ver content good bound"
    and allowed: "is_table_uri_allowed uri (srv_allowed_table_prefixes srv)"
      "is_table_uri_allowed u (srv_allowed_table_prefixes srv)"
    and w: "good w"
  obtains response w' where "get_table d srv uri w = (Ok response, w')"
    "gt_version response = of_nat (ver w)" "same_log good ver content w w'"
proof -
  obtain w1 w2 where w1: "normalize_and_check_table_uri d srv uri w = (Ok u, w1)"
    "table_exists d u (srv_storage_opts srv) w1 = (Ok True, w2)" "same_log good ver content w w2"
    by (rule reliable_reads [OF r allowed w])
  obtain t snap schema st w3 where o: "open_table d u (srv_storage_opts srv) w2 = (Ok t, w3)"
    "same_log good ver content w2 w3" "table_snapshot d t = Ok snap"
    "snapshot_version d snap = of_nat (ver w2)"
    "metadata_parse_schema d (snapshot_metadata d snap) = Ok schema"
    "schema_to_string d schema = Ok st"
    by (rule reliable_open [OF r same_logD(1) [OF w1(3)]])
  obtain mp where "build_metadata_and_protocol d snap = Ok mp"
    using o(5,6) by (simp add: build_metadata_and_protocol_def Let_def)
  with w1 o have "\<exists>response. get_table d srv uri w = (Ok response, w3)
      \<and> gt_version response = of_nat (ver w)"
    by (cases mp) (simp add: get_table_def io_then_def io_map_err_def io_return_def same_log_def)
  with that same_log_trans [OF w1(3) o(2)] show thesis by blast
qed

lemma reliable_commit:
  assumes r: "reliable_log d (srv_storage_opts srv) uri u ks eff ver content good bound"
    and allowed: "is_table_uri_allowed uri (srv_allowed_table_prefixes srv)"
      "is_table_uri_allowed u (srv_allowed_table_prefixes srv)"
    and w: "good w" and acts: "map_actions sj (actions i) = Ok (ks i)"
  shows "v \<noteq> of_nat (ver w) \<Longrightarrow>
      \<exists>status w' mem'. commit d sj srv i (writer_request uri v (actions i)) (w, mem)
          = (Err status, (w', mem')) \<and> status_code status = Aborted \<and> same_log good ver content w w'"
    and "v = of_nat (ver w) \<Longrightarrow> ver w < bound \<Longrightarrow>
      \<exists>response w' mem'. commit d sj srv i (writer_request uri v (actions i)) (w, mem)
          = (Ok response, (w', mem')) \<and> good w' \<and> ver w' = Suc (ver w)
            \<and> content w' = content w @ [eff i]"
proof -
  obtain w1 w2 where w1: "normalize_and_check_table_uri d srv uri w = (Ok u, w1)"
    "table_exists d u (srv_storage_opts srv) w1 = (Ok True, w2)" "same_log good ver content w w2"
    by (rule reliable_reads [OF r allowed w])
  obtain t snap schema st w3 where o: "open_table d u (srv_storage_opts srv) w2 = (Ok t, w3)"
    "same_log good ver content w2 w3" "table_version d t = Some (of_nat (ver w2))"
    "table_snapshot d t = Ok snap" "snapshot_version d snap = of_nat (ver w2)"
    "metadata_parse_schema d (snapshot_metadata d snap) = Ok schema"
    "schema_to_string d schema = Ok st"
    and build: "\<forall>i op. ver w2 < bound \<longrightarrow>
       (\<exists>w''. commit_builder_build d (ks i) (Some snap) (log_store d t) op w3
            = (Ok (of_nat (Suc (ver w2))), w'')
          \<and> good w'' \<and> ver w'' = Suc (ver w2) \<and> content w'' = content w2 @ [eff i])"
    by (rule reliable_open [OF r same_logD(1) [OF w1(3)]])
  note eqs = commit_cases writer_request_def commit_section_def io_then_def io_map_err_def
    io_return_def check_expected_version_def ok_or_def
  show "\<exists>status w' mem'. commit d sj srv i (writer_request uri v (actions i)) (w, mem)
      = (Err status, (w', mem')) \<and> status_code status = Aborted \<and> same_log good ver content w w'"
    if "v \<noteq> of_nat (ver w)"
    using w1 o acts that same_log_trans [OF w1(3) o(2)] by (simp add: eqs same_logD(2) [OF w1(3)])
  show "\<exists>response w' mem'. commit d sj srv i (writer_request uri v (actions i)) (w, mem)
      = (Ok response, (w', mem')) \<and> good w' \<and> ver w' = Suc (ver w)
        \<and> content w' = content w @ [eff i]"
    if now: "v = of_nat (ver w)" "ver w < bound"
  proof -
    obtain w4 where w4: "commit_builder_build d (ks i) (Some snap) (log_store d t)
        (build_operation sj (ks i)) w3 = (Ok (of_nat (Suc (ver w2))), w4)"
      "good w4" "ver w4 = Suc (ver w2)" "content w4 = content w2 @ [eff i]"
      using build now(2) same_logD(2) [OF w1(3)] by metis
    then have "commit_actions d sj t (ks i) w3 = (Ok (of_nat (Suc (ver w2))), w4)"
      using o(4) by (simp add: commit_actions_Ok)
    with w1 o acts now w4 same_logD [OF w1(3)] show ?thesis by (simp add: eqs)
  qed
qed

subsection \<open>The steps of the clients\<close>

definition clients_ready ::
  "('w, 'n, 'p, 'm, 'b, 't, 'l, 's, 'c, 'v) store \<Rightarrow> ('n, 'p, 'm, 'z) kernel_serde_scheme
     \<Rightarrow> server \<Rightarrow> string \<Rightarrow> url \<Rightarrow> (task \<Rightarrow> action_msg list)
     \<Rightarrow> (task \<Rightarrow> ('n, 'p, 'm) kernel_action list) \<Rightarrow> (task \<Rightarrow> 'x) \<Rightarrow> ('w \<Rightarrow> nat)
     \<Rightarrow> ('w \<Rightarrow> 'x list) \<Rightarrow> ('w \<Rightarrow> bool) \<Rightarrow> nat \<Rightarrow> bool" where
  "clients_ready d sj srv uri u actions ks eff ver content good bound \<longleftrightarrow>
     reliable_log d (srv_storage_opts srv) uri u ks eff ver content good bound \<and>
     is_table_uri_allowed uri (srv_allowed_table_prefixes srv) \<and>
     is_table_uri_allowed u (srv_allowed_table_prefixes srv) \<and>
     (\<forall>i. map_actions sj (actions i) = Ok (ks i))"

text \<open>The clients that have landed, in the order in which they did.\<close>

definition writers_inv ::
  "('w \<Rightarrow> nat) \<Rightarrow> ('w \<Rightarrow> 'x list) \<Rightarrow> ('w \<Rightarrow> bool) \<Rightarrow> (task \<Rightarrow> 'x) \<Rightarrow> nat \<Rightarrow> 'w \<Rightarrow> task list
     \<Rightarrow> 'w writers \<Rightarrow> bool" where
  "writers_inv ver content good eff n w0 order s \<longleftrightarrow>
     distinct order \<and> set order = {i. i < n \<and> wr_at s i = WDone} \<and>
     good (wr_world s) \<and> ver (wr_world s) = ver w0 + length order \<and>
     content (wr_world s) = content w0 @ map eff order \<and> (\<forall>i. wr_at s i \<noteq> WPanic)"

lemma writer_exec_cases [consumes 4, case_names reads aborts lands]:
  assumes "writer_exec d sj srv uri actions n s i = Some s'"
    and c: "clients_ready d sj srv uri u actions ks eff ver content good bound"
    and g: "good (wr_world s)" and b: "ver (wr_world s) < bound"
  obtains
    (reads) w where "wr_at s i = WRead" "same_log good ver content (wr_world s) w"
      "s' = s\<lparr>wr_world := w, wr_at := (wr_at s)(i := WCommit (of_nat (ver (wr_world s))))\<rparr>"
  | (aborts) v w mem where "wr_at s i = WCommit v" "v \<noteq> of_nat (ver (wr_world s))"
      "same_log good ver content (wr_world s) w"
      "s' = s\<lparr>wr_world := w, wr_mem := mem, wr_at := (wr_at s)(i := WRead)\<rparr>"
  | (lands) w mem where "wr_at s i = WCommit (of_nat (ver (wr_world s)))" "good w"
      "ver w = Suc (ver (wr_world s))" "content w = content (wr_world s) @ [eff i]"
      "s' = s\<lparr>wr_world := w, wr_mem := mem, wr_at := (wr_at s)(i := WDone)\<rparr>"
proof -
  have r: "reliable_log d (srv_storage_opts srv) uri u ks eff ver content good bound"
    and a: "is_table_uri_allowed uri (srv_allowed_table_prefixes srv)"
      "is_table_uri_allowed u (srv_allowed_table_prefixes srv)"
    and acts: "map_actions sj (actions i) = Ok (ks i)"
    using c by (auto simp: clients_ready_def)
  have i: "\<not> n \<le> i" using assms(1) by (auto simp: writer_exec_def split: if_splits)
  show thesis
  proof (cases "wr_at s i")
    case WRead
    obtain response w where "get_table d srv uri (wr_world s) = (Ok response, w)"
      "gt_version response = of_nat (ver (wr_world s))" "same_log good ver content (wr_world s) w"
      by (rule reliable_get_table [OF r a g])
    with assms(1) i WRead reads show thesis by (simp add: writer_exec_def)
  next
    case (WCommit v)
    show thesis
    proof (cases "v = of_nat (ver (wr_world s))")
      case True
      obtain response w mem where "commit d sj srv i (writer_request uri v (actions i))
          (wr_world s, wr_mem s) = (Ok response, (w, mem))" "good w"
        "ver w = Suc (ver (wr_world s))" "content w = content (wr_world s) @ [eff i]"
        using reliable_commit(2) [where actions = actions and i = i, OF r a g acts True b, of "wr_mem s"]
        by blast
      with assms(1) i WCommit True show thesis by (intro lands [of w mem]) (auto simp: writer_exec_def)
    next
      case False
      obtain status w mem where "commit d sj srv i (writer_request uri v (actions i))
          (wr_world s, wr_mem s) = (Err status, (w, mem))" "status_code status = Aborted"
        "same_log good ver content (wr_world s) w"
        using reliable_commit(1) [where actions = actions and i = i, OF r a g acts False, of "wr_mem s"]
        by blast
      with assms(1) i WCommit False show thesis
        by (intro aborts [of v w mem]) (auto simp: writer_exec_def)
    qed
  qed (use assms(1) i in \<open>auto simp: writer_exec_def\<close>)
qed

lemma writer_exec_runs:
  assumes "writer_exec d sj srv uri actions n s i = Some s'"
  shows "i < n" "wr_at s i \<noteq> WDone"
  using assms by (auto simp: writer_exec_def split: if_splits)

text \<open>A client that can still do something has not landed, so the log has room for it.\<close>

lemma writers_room:
  assumes "writers_inv ver content good eff n w0 order s" "i < n" "wr_at s i \<noteq> WDone"
    and "ver w0 + n \<le> bound"
  shows "ver (wr_world s) < bound"
proof -
  have "set order \<subset> {..<n}" using assms(1-3) by (auto simp: writers_inv_def)
  then have "card (set order) < n"
    using psubset_card_mono [of "{..<n}" "set order"] by simp
  then have "length order < n"
    using assms(1) distinct_card [of order] by (simp add: writers_inv_def)
  with assms(1,4) show ?thesis by (simp add: writers_inv_def)
qed

lemma writers_inv_exec:
  assumes inv: "writers_inv ver content good eff n w0 order s"
    and ex: "writer_exec d sj srv uri actions n s i = Some s'"
    and c: "clients_ready d sj srv uri u actions ks eff ver content good bound"
    and b: "ver w0 + n \<le> bound"
  shows "\<exists>order'. writers_inv ver content good eff n w0 order' s'"
proof -
  note i = writer_exec_runs [OF ex]
  have g: "good (wr_world s)" using inv by (simp add: writers_inv_def)
  from ex c g writers_room [OF inv i b] show ?thesis
  proof (cases rule: writer_exec_cases)
    case (reads w)
    have "writers_inv ver content good eff n w0 order s'"
      using inv reads by (auto simp: writers_inv_def same_log_def)
    then show ?thesis by blast
  next
    case (aborts v w mem)
    have "writers_inv ver content good eff n w0 order s'"
      using inv aborts by (auto simp: writers_inv_def same_log_def)
    then show ?thesis by blast
  next
    case (lands w mem)
    have "writers_inv ver content good eff n w0 (order @ [i]) s'"
      using inv lands i by (auto simp: writers_inv_def)
    then show ?thesis by blast
  qed
qed

subsection \<open>The rank\<close>

text \<open>
  A landing may make the version of every other client stale, which costs each of them an aborted
  commit and another read; it can happen only once per client.
\<close>

fun writer_stage :: "nat \<Rightarrow> writer \<Rightarrow> nat" where
  "writer_stage now WRead = 2"
| "writer_stage now (WCommit v) = (if v = of_nat now then 1 else 3)"
| "writer_stage now at = 0"

definition writers_rank :: "('w \<Rightarrow> nat) \<Rightarrow> nat \<Rightarrow> 'w writers \<Rightarrow> nat" where
  "writers_rank ver n s =
     (2 * n + 1) * card {i. i < n \<and> wr_at s i \<noteq> WDone}
       + (\<Sum>i<n. writer_stage (ver (wr_world s)) (wr_at s i))"

lemma stage_sum:
  fixes f g :: "nat \<Rightarrow> nat"
  assumes "i < n" "\<And>j. j \<noteq> i \<Longrightarrow> g j \<le> f j + 2"
  shows "sum g {..<n} + f i \<le> sum f {..<n} + g i + 2 * (n - 1)"
proof -
  have "sum g ({..<n} - {i}) \<le> (\<Sum>j\<in>{..<n} - {i}. f j + 2)"
    by (rule sum_mono) (use assms(2) in auto)
  also have "\<dots> = sum f ({..<n} - {i}) + 2 * (n - 1)"
    unfolding sum.distrib using assms(1) by (simp add: card_Diff_singleton)
  finally show ?thesis
    using sum.remove [OF finite_lessThan, of i n f] sum.remove [OF finite_lessThan, of i n g]
      assms(1) by simp
qed

lemma stage_sum_eq:
  fixes f g :: "nat \<Rightarrow> nat"
  assumes "i < n" "\<And>j. j \<noteq> i \<Longrightarrow> g j = f j"
  shows "sum g {..<n} + f i = sum f {..<n} + g i"
proof -
  have "sum g ({..<n} - {i}) = sum f ({..<n} - {i})" by (rule sum.cong) (use assms(2) in auto)
  then show ?thesis
    using sum.remove [OF finite_lessThan, of i n f] sum.remove [OF finite_lessThan, of i n g]
      assms(1) by simp
qed

lemma writers_rank_exec:
  assumes inv: "writers_inv ver content good eff n w0 order s"
    and ex: "writer_exec d sj srv uri actions n s i = Some s'"
    and c: "clients_ready d sj srv uri u actions ks eff ver content good bound"
    and b: "ver w0 + n \<le> bound"
  shows "writers_rank ver n s' < writers_rank ver n s"
proof -
  note i = writer_exec_runs [OF ex]
  have g: "good (wr_world s)" using inv by (simp add: writers_inv_def)
  let ?f = "\<lambda>j. writer_stage (ver (wr_world s)) (wr_at s j)"
  let ?g = "\<lambda>j. writer_stage (ver (wr_world s')) (wr_at s' j)"
  from ex c g writers_room [OF inv i b] show ?thesis
  proof (cases rule: writer_exec_cases)
    case (reads w)
    have "{j. j < n \<and> wr_at s' j \<noteq> WDone} = {j. j < n \<and> wr_at s j \<noteq> WDone}"
      using reads by auto
    moreover have "sum ?g {..<n} + ?f i = sum ?f {..<n} + ?g i"
      using reads i(1) by (intro stage_sum_eq) (auto simp: same_log_def)
    moreover have "?g i < ?f i" using reads by (simp add: same_log_def)
    ultimately show ?thesis by (simp add: writers_rank_def)
  next
    case (aborts v w mem)
    have "{j. j < n \<and> wr_at s' j \<noteq> WDone} = {j. j < n \<and> wr_at s j \<noteq> WDone}"
      using aborts by auto
    moreover have "sum ?g {..<n} + ?f i = sum ?f {..<n} + ?g i"
      using aborts i(1) by (intro stage_sum_eq) (auto simp: same_log_def)
    moreover have "?g i < ?f i" using aborts by (simp add: same_log_def)
    ultimately show ?thesis by (simp add: writers_rank_def)
  next
    case (lands w mem)
    have "{j. j < n \<and> wr_at s' j \<noteq> WDone} = {j. j < n \<and> wr_at s j \<noteq> WDone} - {i}"
      using lands by auto
    then have "card {j. j < n \<and> wr_at s j \<noteq> WDone} = Suc (card {j. j < n \<and> wr_at s' j \<noteq> WDone})"
      using i card_Suc_Diff1 [of "{j. j < n \<and> wr_at s j \<noteq> WDone}" i] by simp
    moreover have "?g j \<le> ?f j + 2" if "j \<noteq> i" for j
      using lands that by (cases "wr_at s j") auto
    then have "sum ?g {..<n} + ?f i \<le> sum ?f {..<n} + ?g i + 2 * (n - 1)"
      by (intro stage_sum i(1)) blast
    moreover have "?g i = 0" using lands by simp
    ultimately show ?thesis using i(1) by (simp add: writers_rank_def)
  qed
qed

interpretation wr: ranked_system "writer_exec d sj srv uri actions n"
  "\<lambda>s. clients_ready d sj srv uri u actions ks eff ver content good bound \<and> ver w0 + n \<le> bound
     \<and> (\<exists>order. writers_inv ver content good eff n w0 order s)"
  "\<lambda>_. 1" "writers_rank ver n"
  for d sj srv uri actions n u ks eff ver content good bound w0
proof
  fix s i s'
  assume a: "clients_ready d sj srv uri u actions ks eff ver content good bound
      \<and> ver w0 + n \<le> bound \<and> (\<exists>order. writers_inv ver content good eff n w0 order s)"
    and ex: "writer_exec d sj srv uri actions n s i = Some s'"
  then obtain order where inv: "writers_inv ver content good eff n w0 order s" by blast
  show "clients_ready d sj srv uri u actions ks eff ver content good bound \<and> ver w0 + n \<le> bound
      \<and> (\<exists>order. writers_inv ver content good eff n w0 order s')"
    using a writers_inv_exec [OF inv ex] by blast
  show "1 + writers_rank ver n s' \<le> writers_rank ver n s"
    using a writers_rank_exec [OF inv ex] by (auto simp: Suc_le_eq)
qed

lemma writers_inv_init:
  "good w \<Longrightarrow> writers_inv ver content good eff n w [] (writers_init w mem)"
  by (simp add: writers_inv_def writers_init_def)

lemma writers_rank_init: "writers_rank ver n (writers_init w mem) = n * (2 * n + 3)"
  by (simp add: writers_rank_def writers_init_def algebra_simps)

lemma writers_runs:
  assumes "clients_ready d sj srv uri u actions ks eff ver content good bound"
    and "good w" and "ver w + n \<le> bound"
    and "runs (writer_exec d sj srv uri actions n) schedule (writers_init w mem) = Some s"
  obtains order where "writers_inv ver content good eff n w order s"
    "length schedule \<le> n * (2 * n + 3)"
proof -
  have start: "clients_ready d sj srv uri u actions ks eff ver content good bound
      \<and> ver w + n \<le> bound
      \<and> (\<exists>order. writers_inv ver content good eff n w order (writers_init w mem))"
    using assms(1,3) writers_inv_init [of good w] assms(2) by blast
  have "length schedule \<le> n * (2 * n + 3)"
    using wr.runs_bounded [OF start assms(4)] by (simp add: writers_rank_init sum_list_triv)
  with wr.runs_invariant [OF start assms(4)] that show thesis by blast
qed

lemma writers_all_done:
  assumes "writers_inv ver content good eff n w order s" "\<And>i. i < n \<Longrightarrow> wr_at s i = WDone"
  shows "set order = {..<n}" "length order = n"
proof -
  show all: "set order = {..<n}" using assms by (auto simp: writers_inv_def)
  show "length order = n"
    using assms(1) distinct_card [of order] unfolding all by (simp add: writers_inv_def)
qed

section \<open>Properties\<close>

text \<open>
  Property C18 (optimistic_writers_all_land). Any number of clients that read the version of a table and
  commit against it, starting over when the commit is aborted, all land exactly once, whatever the
  schedule, on a storage that works and that only they write: no schedule of \<open>n\<close> clients is longer
  than \<open>n * (2 n + 3)\<close> calls, none of them fails with anything but ABORTED, and when none has anything
  left to do the table has exactly \<open>n\<close> versions more, with the additions of all clients, each once.
\<close>

theorem optimistic_writers_all_land:
  assumes "clients_ready d sj srv uri u actions ks eff ver content good bound"
    and "good w" and "ver w + n \<le> bound"
    and "runs (writer_exec d sj srv uri actions n) schedule (writers_init w mem) = Some s"
  shows "length schedule \<le> n * (2 * n + 3)
    \<and> (\<forall>i. wr_at s i \<noteq> WPanic)
    \<and> ((\<forall>i. writer_exec d sj srv uri actions n s i = None) \<longrightarrow>
         (\<exists>order. distinct order \<and> set order = {..<n} \<and> (\<forall>i<n. wr_at s i = WDone)
            \<and> ver (wr_world s) = ver w + n
            \<and> content (wr_world s) = content w @ map eff order))"
proof -
  obtain order where inv: "writers_inv ver content good eff n w order s"
    and bound: "length schedule \<le> n * (2 * n + 3)"
    by (rule writers_runs [OF assms])
  have "distinct order \<and> set order = {..<n} \<and> (\<forall>i<n. wr_at s i = WDone)
      \<and> ver (wr_world s) = ver w + n \<and> content (wr_world s) = content w @ map eff order"
    if stuck: "\<forall>i. writer_exec d sj srv uri actions n s i = None"
  proof -
    have all: "wr_at s i = WDone" if "i < n" for i
      using stuck [rule_format, of i] that inv
      by (cases "wr_at s i")
        (auto simp: writer_exec_def writers_inv_def split: prod.splits result.splits)
    then show ?thesis using writers_all_done [OF inv] inv by (auto simp: writers_inv_def)
  qed
  with bound inv show ?thesis unfolding writers_inv_def by blast
qed

end
