(* ===== verification/E2e_Tests.thy ===== *)
theory E2e_Tests
  imports Served_Calls Retry_Clients
begin

section \<open>The end-to-end tests (tests/*.rs)\<close>

text \<open>
  The end-to-end tests of the repository as predicates on the model, under their own names: a test is
  true when none of its assertions fails and none of its \<open>expect\<close> calls panics. The test server is the
  interceptor and the handlers, without the layers; a client sees the status with which a call is
  refused. The tests run on the sample store in place of the file system, with the JSON library that
  can write the statistics of a file of three records; the text of the schema is an argument.
\<close>

subsection \<open>The test server and its clients (tests/common/mod.rs)\<close>

record test_server_config =
  tc_api_key :: "string option"
  tc_allowed_table_prefixes :: "string list option"
  tc_storage_opts :: "string hash_map"

definition default_config :: test_server_config where
  "default_config = \<lparr>tc_api_key = None, tc_allowed_table_prefixes = None, tc_storage_opts = []\<rparr>"

record test_server =
  ts_api_key :: "string option"
  ts_service :: server
  ts_health :: health

definition start :: "test_server_config \<Rightarrow> test_server \<times> lock_mem" where
  "start config =
     (case with_config (tc_storage_opts config) (tc_allowed_table_prefixes config) of
        (svc, mem) \<Rightarrow>
          (\<lparr>ts_api_key = tc_api_key config, ts_service = svc, ts_health = health_init None\<rparr>, mem))"

definition new_table_uri :: "string \<Rightarrow> string" where
  "new_table_uri label = ''file:///tmp/e2e/'' @ label"

type_synonym metadata = "(string \<times> string) list"

definition with_api_key :: "metadata \<Rightarrow> string \<Rightarrow> metadata" where
  "with_api_key md key = AList.update ''x-api-key'' key md"

definition sample_protocol :: protocol_msg where
  "sample_protocol = \<lparr>pm_min_reader_version = 1, pm_min_writer_version = 2\<rparr>"

definition sample_metadata :: "string \<Rightarrow> string \<Rightarrow> table_metadata" where
  "sample_metadata sample_schema_string table_name =
     \<lparr>tm_id = ''test-table-'' @ table_name, tm_name = table_name, tm_description = [],
      tm_schema_string = sample_schema_string, tm_partition_columns = [], tm_configuration = [],
      tm_created_time = 0\<rparr>"

definition create_table_actions :: "string \<Rightarrow> string \<Rightarrow> action_msg list" where
  "create_table_actions sample_schema_string table_name =
     [Some (ActionProtocol sample_protocol),
      Some (ActionMetaData (sample_metadata sample_schema_string table_name))]"

definition add_file_stats :: "i64 \<Rightarrow> file_stats" where
  "add_file_stats num_records =
     \<lparr>fs_num_records = num_records,
      fs_columns = AList.update ''id''
        \<lparr>cs_min_value = Some (MinInt 1), cs_max_value = Some (MaxInt num_records),
         cs_null_count = 0\<rparr> []\<rparr>"

definition add_file_action :: "string \<Rightarrow> i64 \<Rightarrow> action_msg" where
  "add_file_action path num_records =
     Some (ActionAdd
       \<lparr>af_path = path, af_size = 1024, af_modification_time = 1700000000000,
        af_partition_values = [], af_data_change = data_change_as_i32 DataChangeTrue,
        af_stats = Some (add_file_stats num_records), af_tags = []\<rparr>)"

definition remove_file_action :: "string \<Rightarrow> action_msg" where
  "remove_file_action path =
     Some (ActionRemove
       \<lparr>rf_path = path, rf_deletion_timestamp = Some 1700000002000,
        rf_data_change = data_change_as_i32 DataChangeTrue\<rparr>)"

definition commit_request_of :: "string \<Rightarrow> i64 option \<Rightarrow> action_msg list \<Rightarrow> commit_request" where
  "commit_request_of table_uri expected_version actions =
     \<lparr>cr_table_uri = table_uri, cr_expected_version = expected_version, cr_actions = actions,
      cr_app_metadata = []\<rparr>"

text \<open>The JSON library of the tests, and what the server does with a call of a client.\<close>

definition e2e_serde :: "(sample_number, sample_doc, sample_doc) kernel_serde" where
  "e2e_serde = sample_serde (file_stats_json (sample_serde JNull) (add_file_stats 3))"

type_synonym e2e_state = "sample_world \<times> lock_mem"

definition authorized ::
  "test_server \<Rightarrow> metadata \<Rightarrow> (e2e_state \<Rightarrow> ('a, status) result \<times> e2e_state) \<Rightarrow> e2e_state
     \<Rightarrow> ('a, status) result \<times> e2e_state" where
  "authorized server md handler st =
     (case make_auth_interceptor map_of Some (ts_api_key server) md of
        Err s \<Rightarrow> (Err s, st)
      | Ok _ \<Rightarrow> handler st)"

definition client_commit where
  "client_commit d server md r =
     authorized server md (commit d e2e_serde (ts_service server) 0 r)"

definition client_get_table where
  "client_get_table d server md table_uri =
     authorized server md (\<lambda>(w, mem).
       case get_table d (ts_service server) table_uri w of (res, w') \<Rightarrow> (res, (w', mem)))"

definition client_list_active_files where
  "client_list_active_files d server md table_uri =
     authorized server md (\<lambda>(w, mem).
       case list_active_files d e2e_serde (ts_service server) None table_uri w of
         (res, w') \<Rightarrow> (res, (w', mem)))"

text \<open>\<open>expect\<close> and \<open>expect_err\<close>, followed by the rest of the test.\<close>

definition expect ::
  "(e2e_state \<Rightarrow> ('a, status) result \<times> e2e_state) \<Rightarrow> ('a \<Rightarrow> e2e_state \<Rightarrow> bool) \<Rightarrow> e2e_state \<Rightarrow> bool"
where
  "expect m k st = (case m st of (Ok x, st') \<Rightarrow> k x st' | (Err s, st') \<Rightarrow> False)"

definition expect_err ::
  "(e2e_state \<Rightarrow> ('a, status) result \<times> e2e_state) \<Rightarrow> (status \<Rightarrow> e2e_state \<Rightarrow> bool) \<Rightarrow> e2e_state \<Rightarrow> bool"
where
  "expect_err m k st = (case m st of (Ok x, st') \<Rightarrow> False | (Err s, st') \<Rightarrow> k s st')"

definition with_server ::
  "test_server_config \<Rightarrow> (test_server \<Rightarrow> e2e_state \<Rightarrow> bool) \<Rightarrow> bool" where
  "with_server config check = (case start config of (server, mem) \<Rightarrow> check server ([], mem))"

text \<open>The paths of a stream, header first; \<open>None\<close> when an item is an error.\<close>

fun listed_files :: "stream_item list \<Rightarrow> add_file list option" where
  "listed_files [] = Some []"
| "listed_files (Ok (Header h) # items) = listed_files items"
| "listed_files (Ok (Batch batch) # items) = map_option (\<lambda>rest. batch @ rest) (listed_files items)"
| "listed_files (Err s # items) = None"

subsection \<open>tests/e2e\_table\_lifecycle.rs\<close>

definition commit_creates_a_new_table_and_get_table_reads_it_back :: "string \<Rightarrow> bool" where
  "commit_creates_a_new_table_and_get_table_reads_it_back schema =
     with_server default_config (\<lambda>server.
       let table_uri = new_table_uri ''orders''
       in expect (client_commit sample_store server []
            (commit_request_of table_uri None (create_table_actions schema ''orders'')))
       (\<lambda>commit_response.
          if committed_version commit_response \<noteq> 0 then (\<lambda>_. False)
          else expect (client_get_table sample_store server [] table_uri)
       (\<lambda>response st.
          gt_version response = 0 \<and>
          (case gt_metadata response of
             None \<Rightarrow> False
           | Some metadata \<Rightarrow> tm_name metadata = ''orders'' \<and> tm_id metadata = ''test-table-orders'') \<and>
          (case gt_protocol response of
             None \<Rightarrow> False
           | Some protocol \<Rightarrow>
               pm_min_reader_version protocol = 1 \<and> pm_min_writer_version protocol = 2))))"

definition commit_append_advances_version_and_checks_expected_version :: "string \<Rightarrow> bool" where
  "commit_append_advances_version_and_checks_expected_version schema =
     with_server default_config (\<lambda>server.
       let table_uri = new_table_uri ''orders''
       in expect (client_commit sample_store server []
            (commit_request_of table_uri None (create_table_actions schema ''orders'')))
       (\<lambda>_. expect (client_commit sample_store server []
            (commit_request_of table_uri (Some 0) [add_file_action ''part-00000.parquet'' 3]))
       (\<lambda>append_response.
          if committed_version append_response \<noteq> 1 then (\<lambda>_. False)
          else expect_err (client_commit sample_store server []
            (commit_request_of table_uri (Some 0) [add_file_action ''part-00001.parquet'' 1]))
       (\<lambda>err st. status_code err = Aborted
          \<and> contains_str (status_message err) ''expected 0''
          \<and> contains_str (status_message err) ''found 1''))))"

definition list_active_files_streams_header_then_batch_with_stats :: "string \<Rightarrow> bool" where
  "list_active_files_streams_header_then_batch_with_stats schema =
     with_server default_config (\<lambda>server.
       let table_uri = new_table_uri ''orders''
       in expect (client_commit sample_store server []
            (commit_request_of table_uri None (create_table_actions schema ''orders'')))
       (\<lambda>_. expect (client_commit sample_store server []
            (commit_request_of table_uri (Some 0) [add_file_action ''part-00000.parquet'' 3]))
       (\<lambda>_. expect (client_list_active_files sample_store server [] table_uri)
       (\<lambda>stream st.
          (case stream of
             [Ok (Header header), Ok (Batch [file])] \<Rightarrow>
               lh_version header = 1 \<and>
               map_option tm_name (lh_metadata header) = Some ''orders'' \<and>
               af_path file = ''part-00000.parquet'' \<and>
               af_data_change file = data_change_as_i32 DataChangeTrue \<and>
               (case af_stats file of
                  None \<Rightarrow> False
                | Some stats \<Rightarrow>
                    fs_num_records stats = 3 \<and>
                    (case map_of (fs_columns stats) ''id'' of
                       None \<Rightarrow> False
                     | Some id_stats \<Rightarrow>
                         cs_min_value id_stats = Some (MinInt 1) \<and>
                         cs_max_value id_stats = Some (MaxInt 3)))
           | _ \<Rightarrow> False)))))"

definition list_active_files_excludes_removed_files :: "string \<Rightarrow> bool" where
  "list_active_files_excludes_removed_files schema =
     with_server default_config (\<lambda>server.
       let table_uri = new_table_uri ''orders''
       in expect (client_commit sample_store server []
            (commit_request_of table_uri None (create_table_actions schema ''orders'')))
       (\<lambda>_. expect (client_commit sample_store server []
            (commit_request_of table_uri (Some 0)
              [add_file_action ''keep.parquet'' 1, add_file_action ''remove-me.parquet'' 1]))
       (\<lambda>_. expect (client_commit sample_store server []
            (commit_request_of table_uri (Some 1) [remove_file_action ''remove-me.parquet'']))
       (\<lambda>_. expect (client_list_active_files sample_store server [] table_uri)
       (\<lambda>stream st. map_option (map af_path) (listed_files stream) = Some [''keep.parquet''])))))"

text \<open>\<open>format!("part-{i:05}.parquet")\<close>.\<close>

definition pad5 :: "nat \<Rightarrow> string" where
  "pad5 i = replicate (5 - length (show_nat i)) CHR ''0'' @ show_nat i"

definition list_active_files_streams_multiple_batches_for_a_large_file_set :: "string \<Rightarrow> bool" where
  "list_active_files_streams_multiple_batches_for_a_large_file_set schema =
     with_server default_config (\<lambda>server.
       let table_uri = new_table_uri ''wide'';
           actions = map (\<lambda>i. add_file_action (''part-'' @ pad5 i @ ''.parquet'') 1) [0..<1500]
       in expect (client_commit sample_store server []
            (commit_request_of table_uri None (create_table_actions schema ''wide'')))
       (\<lambda>_. expect (client_commit sample_store server [] (commit_request_of table_uri (Some 0) actions))
       (\<lambda>_. expect (client_list_active_files sample_store server [] table_uri)
       (\<lambda>stream st.
          map_option length (listed_files stream) = Some 1500 \<and>
          2 \<le> length (filter (\<lambda>item. case item of Ok (Batch b) \<Rightarrow> True | _ \<Rightarrow> False) stream)))))"

subsection \<open>tests/e2e\_concurrency.rs\<close>

text \<open>
  The test for a number of writers and a schedule of their calls. A schedule in which a writer has not
  ended yet does not reach the assertions; a writer that panicked fails the test.
\<close>

definition writer_path :: "nat \<Rightarrow> string" where
  "writer_path i = ''writer-'' @ show_nat i @ ''.parquet''"

definition concurrent_writers_each_land_their_own_file_with_no_lost_updates ::
  "string \<Rightarrow> nat \<Rightarrow> task list \<Rightarrow> bool" where
  "concurrent_writers_each_land_their_own_file_with_no_lost_updates schema writer_count schedule =
     with_server default_config (\<lambda>server.
       let table_uri = new_table_uri ''orders''
       in expect (client_commit sample_store server []
            (commit_request_of table_uri None (create_table_actions schema ''orders'')))
       (\<lambda>_ (w, mem).
          case runs (writer_exec sample_store e2e_serde (ts_service server) table_uri
                 (\<lambda>i. [add_file_action (writer_path i) 1]) writer_count) schedule
                 (writers_init w mem) of
            None \<Rightarrow> True
          | Some s \<Rightarrow>
              if \<not> list_all (\<lambda>i. wr_at s i = WDone \<or> wr_at s i = WPanic) [0..<writer_count] then True
              else
                list_all (\<lambda>i. wr_at s i = WDone) [0..<writer_count] \<and>
                expect (client_get_table sample_store server [] table_uri)
                (\<lambda>response.
                   if gt_version response \<noteq> of_nat writer_count then (\<lambda>_. False)
                   else expect (client_list_active_files sample_store server [] table_uri)
                (\<lambda>stream st.
                   case listed_files stream of
                     None \<Rightarrow> False
                   | Some files \<Rightarrow>
                       length (remdups (map af_path files)) = writer_count \<and>
                       list_all (\<lambda>i. writer_path i \<in> set (map af_path files)) [0..<writer_count]))
                (wr_world s, wr_mem s)))"

subsection \<open>tests/e2e\_validation.rs\<close>

definition get_table_on_a_table_uri_that_does_not_exist_returns_not_found :: bool where
  "get_table_on_a_table_uri_that_does_not_exist_returns_not_found =
     with_server default_config (\<lambda>server.
       expect_err (client_get_table sample_store server [] (new_table_uri ''never-created''))
         (\<lambda>err st. status_code err = NotFound))"

definition list_active_files_on_a_table_uri_that_does_not_exist_returns_not_found :: bool where
  "list_active_files_on_a_table_uri_that_does_not_exist_returns_not_found =
     with_server default_config (\<lambda>server.
       expect (client_list_active_files sample_store server [] (new_table_uri ''never-created''))
         (\<lambda>stream st. case stream of Err err # _ \<Rightarrow> status_code err = NotFound | _ \<Rightarrow> False))"

definition commit_that_creates_a_table_requires_protocol_and_metadata_actions :: bool where
  "commit_that_creates_a_table_requires_protocol_and_metadata_actions =
     with_server default_config (\<lambda>server.
       expect_err (client_commit sample_store server []
         (commit_request_of (new_table_uri ''missing-metadata'') None
           [Some (ActionProtocol sample_protocol)]))
       (\<lambda>err. if status_code err \<noteq> FailedPrecondition then (\<lambda>_. False)
        else expect_err (client_commit sample_store server []
         (commit_request_of (new_table_uri ''missing-both'') None
           [add_file_action ''part-00000.parquet'' 1]))
       (\<lambda>err st. status_code err = FailedPrecondition)))"

definition commit_that_creates_a_table_rejects_expected_version_being_set :: "string \<Rightarrow> bool" where
  "commit_that_creates_a_table_rejects_expected_version_being_set schema =
     with_server default_config (\<lambda>server.
       let table_uri = new_table_uri ''brand-new''
       in expect_err (client_commit sample_store server []
            (commit_request_of table_uri (Some 0) (create_table_actions schema ''brand-new'')))
       (\<lambda>err. if status_code err \<noteq> FailedPrecondition then (\<lambda>_. False)
        else expect (client_commit sample_store server []
            (commit_request_of table_uri None (create_table_actions schema ''brand-new'')))
       (\<lambda>commit_response st. committed_version commit_response = 0)))"

definition commit_rejects_an_action_with_unspecified_data_change :: "string \<Rightarrow> bool" where
  "commit_rejects_an_action_with_unspecified_data_change schema =
     with_server default_config (\<lambda>server.
       let table_uri = new_table_uri ''orders'';
           bad_action = Some (ActionAdd
             \<lparr>af_path = ''part-00000.parquet'', af_size = 1, af_modification_time = 0,
              af_partition_values = [], af_data_change = data_change_as_i32 DataChangeUnspecified,
              af_stats = None, af_tags = []\<rparr>)
       in expect (client_commit sample_store server []
            (commit_request_of table_uri None (create_table_actions schema ''orders'')))
       (\<lambda>_. expect_err (client_commit sample_store server []
            (commit_request_of table_uri (Some 0) [bad_action]))
       (\<lambda>err st. status_code err = InvalidArgument)))"

subsection \<open>tests/e2e\_security.rs\<close>

definition secured :: test_server_config where
  "secured = default_config\<lparr>tc_api_key := Some ''super-secret''\<rparr>"

definition requests_without_an_api_key_are_rejected_when_one_is_configured :: bool where
  "requests_without_an_api_key_are_rejected_when_one_is_configured =
     with_server secured (\<lambda>server.
       expect_err (client_get_table sample_store server [] (new_table_uri ''orders''))
         (\<lambda>err st. status_code err = Unauthenticated))"

definition requests_with_the_wrong_api_key_are_rejected :: bool where
  "requests_with_the_wrong_api_key_are_rejected =
     with_server secured (\<lambda>server.
       expect_err (client_get_table sample_store server (with_api_key [] ''wrong-key'')
           (new_table_uri ''orders''))
         (\<lambda>err st. status_code err = Unauthenticated))"

definition requests_with_the_correct_api_key_are_accepted :: bool where
  "requests_with_the_correct_api_key_are_accepted =
     with_server secured (\<lambda>server.
       expect_err (client_get_table sample_store server (with_api_key [] ''super-secret'')
           (new_table_uri ''orders''))
         (\<lambda>err st. status_code err = NotFound))"

definition table_uri_outside_the_allowlist_is_rejected :: bool where
  "table_uri_outside_the_allowlist_is_rejected =
     with_server (default_config\<lparr>tc_allowed_table_prefixes :=
         Some [''file:///this-prefix-matches-nothing-the-test-server-creates'']\<rparr>) (\<lambda>server.
       expect_err (client_get_table sample_store server [] (new_table_uri ''orders''))
         (\<lambda>err st. status_code err = PermissionDenied))"

text \<open>A store that makes a directory for every URI it normalizes, and records it.\<close>

definition dir_store where
  "dir_store = sample_store\<lparr>ensure_table_uri := (\<lambda>s w.
     (Ok s, AList.update (''directory of '' @ s) (sample_log_at 0) w))\<rparr>"

definition table_uri_outside_the_allowlist_never_creates_a_local_directory :: bool where
  "table_uri_outside_the_allowlist_never_creates_a_local_directory =
     with_server (default_config\<lparr>tc_allowed_table_prefixes :=
         Some [''file:///this-prefix-matches-nothing'']\<rparr>) (\<lambda>server.
       let disallowed_uri = new_table_uri ''should-never-be-created''
       in expect_err (client_get_table dir_store server [] disallowed_uri)
         (\<lambda>err (w, mem). status_code err = PermissionDenied
            \<and> map_of w (''directory of '' @ disallowed_uri) = None))"

definition table_uri_inside_the_allowlist_passes_the_check :: bool where
  "table_uri_inside_the_allowlist_passes_the_check =
     (let allowed_root = new_table_uri ''root''
      in with_server (default_config\<lparr>tc_allowed_table_prefixes := Some [allowed_root]\<rparr>) (\<lambda>server.
       expect_err (client_get_table sample_store server [] (allowed_root @ ''/orders''))
         (\<lambda>err st. status_code err = NotFound)))"

subsection \<open>tests/e2e\_health.rs\<close>

text \<open>
  The health service of tonic as the tests see it: \<open>check\<close> of the empty name is the overall status, of
  the name of the service its own, and of any other name an error. It takes no credentials.
\<close>

definition health_check :: "test_server \<Rightarrow> string \<Rightarrow> (serving_status, status) result" where
  "health_check server name =
     (if name = [] then Ok (overall_status (ts_health server))
      else if name = ''delta.txn.v1.DeltaTxnService'' then Ok (service_status (ts_health server))
      else Err (mk_status NotFound ''service not registered''))"

definition overall_server_health_reports_serving :: bool where
  "overall_server_health_reports_serving =
     with_server default_config (\<lambda>server st. health_check server [] = Ok Serving)"

definition delta_txn_service_health_reports_serving :: bool where
  "delta_txn_service_health_reports_serving =
     with_server default_config (\<lambda>server st.
       health_check server ''delta.txn.v1.DeltaTxnService'' = Ok Serving)"

definition health_check_is_not_gated_behind_the_api_key :: bool where
  "health_check_is_not_gated_behind_the_api_key =
     with_server secured (\<lambda>server st. health_check server [] = Ok Serving)"

definition health_check_for_an_unknown_service_name_is_not_serving :: bool where
  "health_check_for_an_unknown_service_name_is_not_serving =
     with_server default_config (\<lambda>server st.
       case health_check server ''not.a.real.Service'' of
         Ok _ \<Rightarrow> False
       | Err err \<Rightarrow> status_code err = NotFound)"

subsection \<open>tests/e2e\_minio.rs\<close>

text \<open>The options and the table of the tests, from the environment; without them a test is skipped.\<close>

definition minio_storage_opts :: "environment \<Rightarrow> string hash_map option" where
  "minio_storage_opts env =
     map_option
       (\<lambda>endpoint.
          fold (\<lambda>key opts. case env_var env key of Ok v \<Rightarrow> AList.update key v opts | Err e \<Rightarrow> opts)
            [''AWS_ACCESS_KEY_ID'', ''AWS_SECRET_ACCESS_KEY'', ''AWS_REGION'', ''AWS_ALLOW_HTTP'']
            (AList.update ''AWS_ENDPOINT_URL'' endpoint []))
       (result_ok (env_var env ''AWS_ENDPOINT_URL''))"

definition minio_table_uri :: "environment \<Rightarrow> string \<Rightarrow> string option" where
  "minio_table_uri env label =
     map_option (\<lambda>bucket. ''s3://'' @ bucket @ ''/e2e-minio-tests/'' @ label)
       (result_ok (env_var env ''DELTA_TXN_TEST_S3_BUCKET''))"

definition unless_skipped ::
  "environment \<Rightarrow> string \<Rightarrow> (string \<Rightarrow> test_server \<Rightarrow> e2e_state \<Rightarrow> bool) \<Rightarrow> bool" where
  "unless_skipped env label check =
     (case (minio_storage_opts env, minio_table_uri env label) of
        (Some opts, Some uri) \<Rightarrow> with_server (default_config\<lparr>tc_storage_opts := opts\<rparr>) (check uri)
      | _ \<Rightarrow> True)"

definition commit_creates_a_new_table_on_minio_and_get_table_reads_it_back ::
  "environment \<Rightarrow> string \<Rightarrow> bool" where
  "commit_creates_a_new_table_on_minio_and_get_table_reads_it_back env schema =
     unless_skipped env ''create-and-read'' (\<lambda>table_uri server.
       expect (client_commit sample_store server []
            (commit_request_of table_uri None (create_table_actions schema ''orders'')))
       (\<lambda>commit_response.
          if committed_version commit_response \<noteq> 0 then (\<lambda>_. False)
          else expect (client_get_table sample_store server [] table_uri)
       (\<lambda>response st. gt_version response = 0
          \<and> map_option tm_name (gt_metadata response) = Some ''orders'')))"

definition commit_append_and_version_conflict_detection_work_against_minio ::
  "environment \<Rightarrow> string \<Rightarrow> bool" where
  "commit_append_and_version_conflict_detection_work_against_minio env schema =
     unless_skipped env ''version-conflict'' (\<lambda>table_uri server.
       expect (client_commit sample_store server []
            (commit_request_of table_uri None (create_table_actions schema ''orders'')))
       (\<lambda>_. expect (client_commit sample_store server []
            (commit_request_of table_uri (Some 0) [add_file_action ''part-00000.parquet'' 3]))
       (\<lambda>append_response.
          if committed_version append_response \<noteq> 1 then (\<lambda>_. False)
          else expect_err (client_commit sample_store server []
            (commit_request_of table_uri (Some 0) [add_file_action ''part-00001.parquet'' 1]))
       (\<lambda>err st. status_code err = Aborted))))"

definition list_active_files_round_trips_against_minio :: "environment \<Rightarrow> string \<Rightarrow> bool" where
  "list_active_files_round_trips_against_minio env schema =
     unless_skipped env ''list-active-files'' (\<lambda>table_uri server.
       expect (client_commit sample_store server []
            (commit_request_of table_uri None (create_table_actions schema ''orders'')))
       (\<lambda>_. expect (client_commit sample_store server []
            (commit_request_of table_uri (Some 0) [add_file_action ''part-00000.parquet'' 3]))
       (\<lambda>_. expect (client_list_active_files sample_store server [] table_uri)
       (\<lambda>stream st.
          (case stream of
             Ok _ # Ok (Batch batch) # _ \<Rightarrow> map af_path batch = [''part-00000.parquet'']
           | _ \<Rightarrow> False)))))"

section \<open>Lemmas\<close>

text \<open>The tests never look at the lock memory, so evaluation leaves it as it is.\<close>

lemma commit_code [code]:
  "commit d sj srv me r st =
     (case normalize_and_check_table_uri d srv (cr_table_uri r) (fst st) of
        (Err e, w) \<Rightarrow> (Err e, (w, snd st))
      | (Ok url, w) \<Rightarrow>
          (case map_actions sj (cr_actions r) of
             Err e \<Rightarrow> (Err (mk_status InvalidArgument e), (w, snd st))
           | Ok actions \<Rightarrow>
               (case commit_section d sj srv url (cr_expected_version r) actions w of
                  (result, w') \<Rightarrow> (result, (w', with_lock me url (snd st))))))"
  using commit_cases [of d sj srv me r "fst st" "snd st"] by simp

declare with_lock_def [code del]

subsection \<open>The sample store as a table of files\<close>

definition open_server :: server where
  "open_server = \<lparr>srv_storage_opts = [], srv_allowed_table_prefixes = None\<rparr>"

lemma start_default:
  "start default_config =
     (\<lparr>ts_api_key = None, ts_service = open_server, ts_health = health_init None\<rparr>, lock_manager_default)"
  by (simp add: start_def default_config_def with_config_def open_server_def)

lemma default_authorized:
  "authorized \<lparr>ts_api_key = None, ts_service = srv, ts_health = h\<rparr> md handler st = handler st"
  by (simp add: authorized_def interceptor_without_key)

lemma open_server_allows: "is_table_uri_allowed uri (srv_allowed_table_prefixes open_server)"
  by (simp add: open_server_def is_table_uri_allowed_def)

lemma contains_infix: "contains_str (a @ b @ c) b"
proof (induction a)
  case Nil
  show ?case by (cases "b @ c") (auto simp: prefix_def, metis)
qed simp

lemma new_uri_scheme: "contains_str (new_table_uri label) ''://''"
  using contains_infix [of "''file''" "''://''" "''/tmp/e2e/'' @ label"] by (simp add: new_table_uri_def)

lemma open_server_normalizes:
  "normalize_and_check_table_uri sample_store open_server (new_table_uri label) w
     = (Ok (new_table_uri label), w)"
  by (simp add: normalize_Ok open_server_allows new_uri_scheme)
    (simp add: sample_store_def new_uri_scheme)

definition created_log :: "string \<Rightarrow> string \<Rightarrow> sample_log" where
  "created_log schema label =
     \<lparr>sl_version = 0, sl_protocol = protocol_json e2e_serde sample_protocol,
      sl_metadata = metadata_json e2e_serde (sample_metadata schema label), sl_files = []\<rparr>"

lemma map_create_actions:
  "map_actions e2e_serde (create_table_actions schema label) =
     Ok [KProtocol (protocol_json e2e_serde sample_protocol),
         KMetadata (metadata_json e2e_serde (sample_metadata schema label))]"
  by (simp add: map_actions_def create_table_actions_def map_protocol_def map_metadata_def)
    (simp add: e2e_serde_def sample_serde_def)

lemma sample_section_create:
  "commit_section sample_store sj open_server url None [KProtocol p, KMetadata m] []
     = (Ok \<lparr>committed_version = 0\<rparr>,
        [(url, \<lparr>sl_version = 0, sl_protocol = p, sl_metadata = m, sl_files = []\<rparr>)])"
  by (simp add: commit_section_def commit_create_def find_protocol_def find_metadata_def
      create_table_def sample_store_eval Let_def)

lemma e2e_create:
  "commit sample_store e2e_serde open_server me
     (commit_request_of (new_table_uri label) None (create_table_actions schema label)) ([], mem)
   = (Ok \<lparr>committed_version = 0\<rparr>,
      ([(new_table_uri label, created_log schema label)], with_lock me (new_table_uri label) mem))"
  by (simp add: commit_cases commit_request_of_def open_server_normalizes map_create_actions
      sample_section_create created_log_def)

text \<open>The file an \<open>add_file_action\<close> becomes in the log.\<close>

definition logged_file :: "string \<Rightarrow> kernel_add" where
  "logged_file path =
     \<lparr>ka_path = path, ka_size = 1024, ka_modification_time = 1700000000000,
      ka_partition_values = [], ka_data_change = True,
      ka_stats = map_file_stats e2e_serde (Some (add_file_stats 1)), ka_tags = None,
      ka_deletion_vector = None, ka_base_row_id = None, ka_default_row_commit_version = None,
      ka_clustering_provider = None\<rparr>"

lemma map_add_file_action:
  "map_action e2e_serde (add_file_action path 1) = Ok (KAdd (logged_file path))"
  by (simp add: add_file_action_def logged_file_def map_data_change_def data_change_as_i32_def
      data_change_try_from_def map_string_map_def hm_collect_def map_optional_string_map_def)

lemma map_add_file_actions:
  "map_actions e2e_serde (map (\<lambda>x. add_file_action (path x) 1) xs)
     = Ok (map (\<lambda>x. KAdd (logged_file (path x))) xs)"
  by (simp add: map_actions_def collect_map_Ok_iff map_add_file_action)

lemma fold_sample_adds:
  "fold sample_apply (map (\<lambda>x. KAdd (f x)) xs) s = s\<lparr>sl_files := sl_files s @ map f xs\<rparr>"
  by (induction xs arbitrary: s) auto

text \<open>A table of files at version \<open>v\<close>, described by the metadata it was created with.\<close>

definition table_at :: "string \<Rightarrow> string \<Rightarrow> u64 \<Rightarrow> kernel_add list \<Rightarrow> sample_world" where
  "table_at schema label v files =
     [(new_table_uri label, (created_log schema label)\<lparr>sl_version := v, sl_files := files\<rparr>)]"

lemma table_at_created: "[(new_table_uri label, created_log schema label)] = table_at schema label 0 []"
  by (simp add: table_at_def created_log_def)

lemma created_schema:
  "metadata_parse_schema sample_store (sl_metadata (created_log schema label)) = Ok schema"
  "metadata_name sample_store (sl_metadata (created_log schema label)) = some_unless [] label"
  by (simp_all add: sample_store_def created_log_def metadata_json_def Let_def json_object_get
      doc_string_def sample_metadata_def ok_or_def some_unless_def json_opt_def)

lemma e2e_append:
  assumes "v \<noteq> - 1"
  shows "commit sample_store e2e_serde open_server me
     (commit_request_of (new_table_uri label) (Some v)
       (map (\<lambda>x. add_file_action (path x) 1) xs)) (table_at schema label v files, mem)
   = (Ok \<lparr>committed_version = v + 1\<rparr>,
      (table_at schema label (v + 1) (files @ map (\<lambda>x. logged_file (path x)) xs),
       with_lock me (new_table_uri label) mem))"
proof -
  have "commit_section sample_store e2e_serde open_server (new_table_uri label) (Some v)
      (map (\<lambda>x. KAdd (logged_file (path x))) xs) (table_at schema label v files)
    = (Ok \<lparr>committed_version = v + 1\<rparr>,
       table_at schema label (v + 1) (files @ map (\<lambda>x. logged_file (path x)) xs))"
    using assms
    by (simp add: commit_section_def check_expected_version_def commit_actions_def sample_store_eval
        table_at_def ok_or_def Let_def fold_sample_adds open_server_def)
  then show ?thesis
    by (simp add: commit_cases commit_request_of_def open_server_normalizes map_add_file_actions)
qed

abbreviation file_view_of :: "kernel_add \<Rightarrow> string option file_view" where
  "file_view_of a \<equiv>
     \<lparr>fv_path = ka_path a, fv_size = ka_size a, fv_modification_time = ka_modification_time a,
      fv_partition_values = Some (map fst (ka_partition_values a), map snd (ka_partition_values a)),
      fv_stats = ka_stats a\<rparr>"

lemma e2e_opened:
  "table_exists sample_store (new_table_uri label) opts (table_at schema label v files)
     = (Ok True, table_at schema label v files)"
  "open_table sample_store (new_table_uri label) opts (table_at schema label v files)
     = (Ok (new_table_uri label,
          Some ((created_log schema label)\<lparr>sl_version := v, sl_files := files\<rparr>)),
        table_at schema label v files)"
  "table_snapshot sample_store (url, Some log) = Ok log"
  "file_views sample_store log l w = (map Ok (map file_view_of (sl_files log)), w)"
  by (simp_all add: sample_store_eval table_at_def ok_or_def)

lemma e2e_described:
  obtains metadata protocol where
    "build_metadata_and_protocol sample_store
       ((created_log schema label)\<lparr>sl_version := v, sl_files := files\<rparr>) = Ok (metadata, protocol)"
proof -
  let ?log = "(created_log schema label)\<lparr>sl_version := v, sl_files := files\<rparr>"
  have "metadata_parse_schema sample_store (snapshot_metadata sample_store ?log) = Ok schema"
    using created_schema(1) by (simp add: sample_store_def)
  moreover have "schema_to_string sample_store schema = Ok schema" by (simp add: sample_store_def)
  ultimately show thesis using that by (simp add: build_metadata_and_protocol_def Let_def)
qed

lemma e2e_get_table:
  obtains response where
    "get_table sample_store open_server (new_table_uri label) (table_at schema label v files)
       = (Ok response, table_at schema label v files)" "gt_version response = v"
proof -
  obtain metadata protocol where "build_metadata_and_protocol sample_store
      ((created_log schema label)\<lparr>sl_version := v, sl_files := files\<rparr>) = Ok (metadata, protocol)"
    by (rule e2e_described)
  moreover have "snapshot_version sample_store log = sl_version log" for log
    by (simp add: sample_store_def)
  ultimately have "\<exists>response. get_table sample_store open_server (new_table_uri label)
      (table_at schema label v files) = (Ok response, table_at schema label v files)
    \<and> gt_version response = v"
    by (simp add: get_table_def io_then_def io_map_err_def io_return_def open_server_normalizes
        e2e_opened)
  with that show thesis by blast
qed

lemma e2e_listing:
  obtains header where
    "list_active_files sample_store e2e_serde open_server None (new_table_uri label)
       (table_at schema label v files)
     = (Ok (Ok (Header header) # map (\<lambda>b. Ok (Batch b))
           (chunks 1000 (map (\<lambda>a. active_file sample_store e2e_serde (file_view_of a)) files))),
        table_at schema label v files)"
proof -
  obtain metadata protocol where "build_metadata_and_protocol sample_store
      ((created_log schema label)\<lparr>sl_version := v, sl_files := files\<rparr>) = Ok (metadata, protocol)"
    by (rule e2e_described)
  from listing_stays(1) [OF open_server_normalizes e2e_opened(1-3) this e2e_opened(4), of e2e_serde] that
  show thesis by (simp add: batch_items_def comp_def)
qed

lemma listed_batches: "listed_files (map (\<lambda>b. Ok (Batch b)) bs) = Some (concat bs)"
  by (induction bs) auto

lemma active_file_path: "af_path (active_file d sj fv) = fv_path fv"
  by (simp add: active_file_def map_active_file_to_pb_def)

lemma large_file_set_test:
  "list_active_files_streams_multiple_batches_for_a_large_file_set schema"
proof -
  let ?uri = "new_table_uri ''wide''"
  let ?path = "\<lambda>i. ''part-'' @ pad5 i @ ''.parquet''"
  define mem where "mem = with_lock 0 ?uri lock_manager_default"
  define mem' where "mem' = with_lock 0 ?uri mem"
  define files where "files = map (\<lambda>i. logged_file (?path i)) [0..<1500]"
  define listed where "listed = map (\<lambda>a. active_file sample_store e2e_serde (file_view_of a)) files"
  have len: "length listed = 1500" by (simp add: listed_def files_def)
  have chunks: "chunks 1000 listed = [take 1000 listed, drop 1000 listed]"
    using len by (subst chunks.simps) (auto simp: chunks_short)
  have c: "commit sample_store e2e_serde open_server 0
      (commit_request_of ?uri None (create_table_actions schema ''wide'')) ([], lock_manager_default)
    = (Ok \<lparr>committed_version = 0\<rparr>, (table_at schema ''wide'' 0 [], mem))"
    by (simp add: e2e_create table_at_created mem_def)
  have a: "commit sample_store e2e_serde open_server 0
      (commit_request_of ?uri (Some 0) (map (\<lambda>i. add_file_action (?path i) 1) [0..<1500]))
      (table_at schema ''wide'' 0 [], mem)
    = (Ok \<lparr>committed_version = 1\<rparr>, (table_at schema ''wide'' 1 files, mem'))"
    using e2e_append [of 0 0 "''wide''" ?path "[0..<1500]" schema "[]" mem]
    by (simp add: files_def mem'_def)
  obtain header where l: "list_active_files sample_store e2e_serde open_server None ?uri
      (table_at schema ''wide'' 1 files)
    = (Ok (Ok (Header header) # map (\<lambda>b. Ok (Batch b)) (chunks 1000 listed)),
       table_at schema ''wide'' 1 files)"
    unfolding listed_def by (rule e2e_listing)
  show ?thesis
    unfolding list_active_files_streams_multiple_batches_for_a_large_file_set_def with_server_def
      start_default client_commit_def client_list_active_files_def default_authorized expect_def Let_def
      prod.case test_server.simps c a l result.case
    using len by (simp add: chunks listed_batches)
qed

subsection \<open>The concurrency test\<close>

text \<open>The sample store keeps the contract of the retrying clients.\<close>

definition sample_table :: "string \<Rightarrow> string \<Rightarrow> sample_world \<Rightarrow> bool" where
  "sample_table schema label w \<longleftrightarrow> (\<exists>v files. w = table_at schema label v files)"

definition table_version_of :: "string \<Rightarrow> sample_world \<Rightarrow> nat" where
  "table_version_of label w = unat (sl_version (the (map_of w (new_table_uri label))))"

definition table_files_of :: "string \<Rightarrow> sample_world \<Rightarrow> kernel_add list" where
  "table_files_of label w = sl_files (the (map_of w (new_table_uri label)))"

lemma table_at_simps [simp]:
  "sample_table schema label (table_at schema label v files)"
  "table_version_of label (table_at schema label v files) = unat v"
  "table_files_of label (table_at schema label v files) = files"
  by (auto simp: sample_table_def table_version_of_def table_files_of_def) (simp_all add: table_at_def)

lemma sample_build_lands:
  assumes "unat v < 2 ^ 64 - 1"
  shows "commit_builder_build sample_store [KAdd f] s (new_table_uri label) op
      (table_at schema label v files)
    = (Ok (of_nat (Suc (unat v))), table_at schema label (v + 1) (files @ [f]))
      \<and> unat (v + 1) = Suc (unat v)"
proof -
  have "v \<noteq> - 1"
  proof
    assume "v = - 1"
    then have "unat v = 2 ^ 64 - 1" by (simp add: unsigned_minus_1_eq_mask mask_eq_exp_minus_1)
    with assms show False by simp
  qed
  then have "v + 1 = of_nat (Suc (unat v))" "unat (v + 1) = Suc (unat v)"
    by simp (metis add.commute add_eq_0_iff unatSuc \<open>v \<noteq> - 1\<close>)
  with \<open>v \<noteq> - 1\<close> show ?thesis
    by (simp add: sample_store_def sample_commit_def sample_next_def table_at_def Let_def)
qed

lemma sample_reliable:
  "reliable_log sample_store [] (new_table_uri label) (new_table_uri label) (\<lambda>i. [KAdd (f i)]) f
     (table_version_of label) (table_files_of label) (sample_table schema label) (2 ^ 64 - 1)"
  unfolding reliable_log_def
proof (intro conjI allI impI)
  fix w assume "sample_table schema label w"
  then show "\<exists>w'. ensure_table_uri sample_store (new_table_uri label) w = (Ok (new_table_uri label), w')
      \<and> same_log (sample_table schema label) (table_version_of label) (table_files_of label) w w'"
    by (simp add: sample_store_def new_uri_scheme same_log_def)
next
  have "is_delta_table_location sample_store (new_table_uri label) w = (Ok True, w)"
    if "sample_table schema label w" for w
    using that by (auto simp: sample_table_def sample_store_def table_at_def)
  then show "\<exists>t. build_handle sample_store (new_table_uri label) [] = Ok t \<and>
      (\<forall>w. sample_table schema label w \<longrightarrow>
        (\<exists>w'. is_delta_table_location sample_store (log_store sample_store t) w = (Ok True, w')
          \<and> same_log (sample_table schema label) (table_version_of label) (table_files_of label) w w'))"
    by (intro exI [of _ "(new_table_uri label, None)"])
      (auto simp: same_log_def sample_store_def build_handle_def)
next
  fix w assume "sample_table schema label w"
  then obtain v files where w: "w = table_at schema label v files" by (auto simp: sample_table_def)
  let ?log = "(created_log schema label)\<lparr>sl_version := v, sl_files := files\<rparr>"
  let ?t = "(new_table_uri label, Some ?log)"
  have "open_table_with_storage_options sample_store (new_table_uri label) [] w = (Ok ?t, w)"
    "table_version sample_store ?t = Some v" "table_snapshot sample_store ?t = Ok ?log"
    "snapshot_version sample_store ?log = v" "log_store sample_store ?t = new_table_uri label"
    "metadata_parse_schema sample_store (snapshot_metadata sample_store ?log) = Ok schema"
    "schema_to_string sample_store schema = Ok schema"
    using created_schema(1) by (simp_all add: sample_store_def w table_at_def ok_or_def)
  moreover have "\<exists>w''. commit_builder_build sample_store [KAdd (f i)] (Some ?log) (new_table_uri label) op w
        = (Ok (of_nat (Suc (unat v))), w'')
      \<and> sample_table schema label w'' \<and> table_version_of label w'' = Suc (unat v)
      \<and> table_files_of label w'' = files @ [f i]" if "unat v < 2 ^ 64 - 1" for i op
    using sample_build_lands [OF that] unfolding w
    by (intro exI [of _ "table_at schema label (v + 1) (files @ [f i])"]) simp
  ultimately show "\<exists>t snap schm st w'.
      open_table_with_storage_options sample_store (new_table_uri label) [] w = (Ok t, w') \<and>
      same_log (sample_table schema label) (table_version_of label) (table_files_of label) w w' \<and>
      table_version sample_store t = Some (of_nat (table_version_of label w)) \<and>
      table_snapshot sample_store t = Ok snap \<and>
      snapshot_version sample_store snap = of_nat (table_version_of label w) \<and>
      metadata_parse_schema sample_store (snapshot_metadata sample_store snap) = Ok schm \<and>
      schema_to_string sample_store schm = Ok st \<and>
      (\<forall>i op. table_version_of label w < 2 ^ 64 - 1 \<longrightarrow>
         (\<exists>w''. commit_builder_build sample_store [KAdd (f i)] (Some snap) (log_store sample_store t) op w'
              = (Ok (of_nat (Suc (table_version_of label w))), w'')
            \<and> sample_table schema label w'' \<and> table_version_of label w'' = Suc (table_version_of label w)
            \<and> table_files_of label w'' = table_files_of label w @ [f i]))"
    by (intro exI [of _ ?t] exI [of _ ?log] exI [of _ schema] exI [of _ w])
      (auto simp: w same_log_def)
qed

lemma sample_clients_ready:
  "clients_ready sample_store e2e_serde open_server (new_table_uri label) (new_table_uri label)
     (\<lambda>i. [add_file_action (path i) 1]) (\<lambda>i. [KAdd (logged_file (path i))])
     (\<lambda>i. logged_file (path i)) (table_version_of label) (table_files_of label)
     (sample_table schema label) (2 ^ 64 - 1)"
proof -
  have "map_actions e2e_serde [add_file_action p 1] = Ok [KAdd (logged_file p)]" for p
    using map_add_file_actions [of id "[p]"] by simp
  then show ?thesis
    using sample_reliable [of label "\<lambda>i. logged_file (path i)" schema]
    by (simp add: clients_ready_def open_server_allows) (simp add: open_server_def)
qed

lemma lifecycle_tests:
  "commit_creates_a_new_table_and_get_table_reads_it_back ''s''"
  "commit_append_advances_version_and_checks_expected_version ''s''"
  "list_active_files_streams_header_then_batch_with_stats ''s''"
  "list_active_files_excludes_removed_files ''s''"
  by code_simp+

lemma validation_tests:
  "get_table_on_a_table_uri_that_does_not_exist_returns_not_found"
  "list_active_files_on_a_table_uri_that_does_not_exist_returns_not_found"
  "commit_that_creates_a_table_requires_protocol_and_metadata_actions"
  "commit_that_creates_a_table_rejects_expected_version_being_set ''s''"
  "commit_rejects_an_action_with_unspecified_data_change ''s''"
  by code_simp+

lemma security_tests:
  "requests_without_an_api_key_are_rejected_when_one_is_configured"
  "requests_with_the_wrong_api_key_are_rejected"
  "requests_with_the_correct_api_key_are_accepted"
  "table_uri_outside_the_allowlist_is_rejected"
  "table_uri_outside_the_allowlist_never_creates_a_local_directory"
  "table_uri_inside_the_allowlist_passes_the_check"
  by code_simp+

lemma health_tests:
  "overall_server_health_reports_serving"
  "delta_txn_service_health_reports_serving"
  "health_check_is_not_gated_behind_the_api_key"
  "health_check_for_an_unknown_service_name_is_not_serving"
  by code_simp+

definition minio_env :: environment where
  "minio_env =
     [(''AWS_ENDPOINT_URL'', ''http://minio:9000''), (''AWS_ACCESS_KEY_ID'', ''k''),
      (''DELTA_TXN_TEST_S3_BUCKET'', ''bucket'')]"

lemma minio_tests:
  "commit_creates_a_new_table_on_minio_and_get_table_reads_it_back minio_env ''s''"
  "commit_append_and_version_conflict_detection_work_against_minio minio_env ''s''"
  "list_active_files_round_trips_against_minio minio_env ''s''"
  by code_simp+

lemma writer_path_inject: "writer_path i = writer_path j \<longleftrightarrow> i = j"
  by (simp add: writer_path_def show_nat_inject)

lemma concurrent_writers_end:
  assumes "n < 2 ^ 64"
    and run: "runs (writer_exec sample_store e2e_serde open_server (new_table_uri ''orders'')
        (\<lambda>i. [add_file_action (writer_path i) 1]) n) schedule
        (writers_init (table_at schema ''orders'' 0 []) mem) = Some s"
    and ended: "list_all (\<lambda>i. wr_at s i = WDone \<or> wr_at s i = WPanic) [0..<n]"
  shows "list_all (\<lambda>i. wr_at s i = WDone) [0..<n] \<and>
      expect (client_get_table sample_store
          \<lparr>ts_api_key = None, ts_service = open_server, ts_health = health_init None\<rparr> []
          (new_table_uri ''orders''))
      (\<lambda>response.
         if gt_version response \<noteq> of_nat n then (\<lambda>_. False)
         else expect (client_list_active_files sample_store
          \<lparr>ts_api_key = None, ts_service = open_server, ts_health = health_init None\<rparr> []
          (new_table_uri ''orders''))
      (\<lambda>stream st.
         case listed_files stream of
           None \<Rightarrow> False
         | Some files \<Rightarrow>
             length (remdups (map af_path files)) = n \<and>
             list_all (\<lambda>i. writer_path i \<in> set (map af_path files)) [0..<n]))
      (wr_world s, wr_mem s)"
proof -
  let ?ver = "table_version_of ''orders''" and ?content = "table_files_of ''orders''"
    and ?good = "sample_table schema ''orders''" and ?w = "table_at schema ''orders'' 0 []"
    and ?eff = "\<lambda>i. logged_file (writer_path i)"
  have room: "?ver ?w + n \<le> 2 ^ 64 - 1" using assms(1) by simp
  obtain order where inv: "writers_inv ?ver ?content ?good ?eff n ?w order s"
    by (rule writers_runs [OF sample_clients_ready [of _ _ schema] _ room run]) simp_all
  have all: "wr_at s i = WDone" if "i < n" for i
    using ended inv that by (auto simp: writers_inv_def list_all_iff)
  note order = writers_all_done [OF inv all]
  obtain v files where w: "wr_world s = table_at schema ''orders'' v files"
    using inv by (auto simp: writers_inv_def sample_table_def)
  have "unat v = n" "files = map ?eff order" "distinct order"
    using inv order(2) by (simp_all add: writers_inv_def w)
  then have v: "v = of_nat n" by auto
  obtain response where g: "get_table sample_store open_server (new_table_uri ''orders'')
      (table_at schema ''orders'' v files) = (Ok response, table_at schema ''orders'' v files)"
    "gt_version response = v"
    by (rule e2e_get_table)
  obtain header where l: "list_active_files sample_store e2e_serde open_server None
      (new_table_uri ''orders'') (table_at schema ''orders'' v files)
    = (Ok (Ok (Header header) # map (\<lambda>b. Ok (Batch b))
          (chunks 1000 (map (\<lambda>a. active_file sample_store e2e_serde (file_view_of a)) files))),
       table_at schema ''orders'' v files)"
    by (rule e2e_listing)
  have paths: "map af_path (map (\<lambda>a. active_file sample_store e2e_serde (file_view_of a)) files)
      = map writer_path order"
    by (simp add: \<open>files = _\<close> active_file_path comp_def logged_file_def)
  have "distinct (map writer_path order)"
    using \<open>distinct order\<close> by (simp add: distinct_map inj_on_def writer_path_inject)
  then have "length (remdups (map writer_path order)) = n"
    using order(2) by (simp add: distinct_remdups_id)
  moreover have "list_all (\<lambda>i. writer_path i \<in> set (map writer_path order)) [0..<n]"
    using order(1) by (auto simp: list_all_iff)
  ultimately show ?thesis
    using all by (simp add: expect_def client_get_table_def client_list_active_files_def
        default_authorized w g l v [symmetric] listed_batches concat_chunks paths list_all_iff
        del: map_map)
qed

section \<open>Properties\<close>


text \<open>
  The end-to-end concurrency test passes for any
  number of writers, any schema and every schedule of their calls.
\<close>

theorem concurrency_test_passes_in_every_schedule:
  assumes "n < 2 ^ 64"
  shows "concurrent_writers_each_land_their_own_file_with_no_lost_updates schema n schedule"
proof -
  let ?uri = "new_table_uri ''orders''"
  let ?exec = "writer_exec sample_store e2e_serde open_server ?uri
    (\<lambda>i. [add_file_action (writer_path i) 1]) n"
  define mem where "mem = with_lock 0 ?uri lock_manager_default"
  let ?init = "writers_init (table_at schema ''orders'' 0 []) mem"
  have c: "commit sample_store e2e_serde open_server 0
      (commit_request_of ?uri None (create_table_actions schema ''orders'')) ([], lock_manager_default)
    = (Ok \<lparr>committed_version = 0\<rparr>, (table_at schema ''orders'' 0 [], mem))"
    by (simp add: e2e_create table_at_created mem_def)
  have fin: "list_all (\<lambda>i. wr_at s i = WDone) [0..<n] \<and>
      expect (client_get_table sample_store
          \<lparr>ts_api_key = None, ts_service = open_server, ts_health = health_init None\<rparr> [] ?uri)
      (\<lambda>response.
         if gt_version response \<noteq> of_nat n then (\<lambda>_. False)
         else expect (client_list_active_files sample_store
          \<lparr>ts_api_key = None, ts_service = open_server, ts_health = health_init None\<rparr> [] ?uri)
      (\<lambda>stream st.
         case listed_files stream of
           None \<Rightarrow> False
         | Some files \<Rightarrow>
             length (remdups (map af_path files)) = n \<and>
             list_all (\<lambda>i. writer_path i \<in> set (map af_path files)) [0..<n]))
      (wr_world s, wr_mem s)"
    if run: "runs ?exec schedule ?init = Some s"
      and ended: "list_all (\<lambda>i. wr_at s i = WDone \<or> wr_at s i = WPanic) [0..<n]" for s
    by (rule concurrent_writers_end [OF assms run ended])
  show ?thesis
    unfolding concurrent_writers_each_land_their_own_file_with_no_lost_updates_def with_server_def
      start_default client_commit_def default_authorized expect_def [of "commit _ _ _ _ _"] Let_def
      prod.case test_server.simps c result.case
    using fin by (simp split: option.split)
qed

section \<open>Witnesses\<close>

text \<open>Two writers that have both read version 0: one lands, the other is aborted and starts over.\<close>

definition two_writers :: "task list" where
  "two_writers = [0, 1, 0, 1, 1, 1]"

abbreviation two_writers_exec where
  "two_writers_exec \<equiv> writer_exec sample_store e2e_serde open_server (new_table_uri ''orders'')
     (\<lambda>i. [add_file_action (writer_path i) 1]) 2"

abbreviation two_writers_init where
  "two_writers_init \<equiv> writers_init (table_at ''s'' ''orders'' 0 []) lock_manager_default"

lemma two_writers_end:
  "case runs two_writers_exec two_writers two_writers_init of
     None \<Rightarrow> False
   | Some s \<Rightarrow> wr_at s 0 = WDone \<and> wr_at s 1 = WDone"
  by code_simp

theorem optimistic_writers_all_land_witness:
  "\<exists>s order. runs two_writers_exec two_writers two_writers_init = Some s
     \<and> length two_writers \<le> 14 \<and> set order = {..<2}
     \<and> table_version_of ''orders'' (wr_world s) = 2
     \<and> table_files_of ''orders'' (wr_world s) = map (\<lambda>i. logged_file (writer_path i)) order"
proof -
  obtain s where s: "runs two_writers_exec two_writers two_writers_init = Some s"
    "wr_at s 0 = WDone" "wr_at s 1 = WDone"
    using two_writers_end by (auto split: option.splits)
  have "two_writers_exec s i = None" for i
    using s(2,3) by (cases "i = 0"; cases "i = 1") (auto simp: writer_exec_def)
  with optimistic_writers_all_land [OF sample_clients_ready [of _ _ "''s''"] _ _ s(1)] s(1)
  show ?thesis by (auto simp: two_writers_def)
qed

theorem concurrency_test_passes_in_every_schedule_witness:
  "concurrent_writers_each_land_their_own_file_with_no_lost_updates ''s'' 2 two_writers"
  by (rule concurrency_test_passes_in_every_schedule) simp

end
