(* ===== verification/Spec2Isabelle.thy ===== *)
theory Spec2Isabelle
  imports File_Stream Well_Formed Commit_Spec Table_Independence Concurrent_Reads Graceful_Shutdown
    Served_Calls Telemetry Unit_Tests Lock_Tests E2e_Tests
begin

text \<open>
  Verification of delta-txn-service, a gRPC transaction coordinator for Delta Lake tables.

  \<^bold>\<open>The program.\<close> Clients send three calls. \<open>Commit\<close> writes a list of actions to a table, optionally
  only if the table still has an expected version; it creates a table that does not exist yet.
  \<open>GetTable\<close> reports version, metadata and protocol of a table. \<open>ListActiveFiles\<close> streams the files
  of a table. A call passes a trace layer and a metrics layer (src/telemetry), an API-key
  interceptor (src/grpc/auth.rs) and then a handler (src/grpc/server.rs). A handler checks the table
  URI against an allowlist (src/config/storage.rs), translates between wire messages and delta-rs
  actions (src/grpc/mapping.rs), and calls delta-rs through src/delta. Commits to one table are
  serialized inside the process by a reference-counted lock per table (src/locking). src/main.rs
  reads the configuration, starts the health reporting and serves.

  \<^bold>\<open>The theories\<close>, in the order in which they build on each other.
  \<^item> \<open>Prelude\<close>: machine integers, \<open>Result\<close>, effects on the outside world, the \<open>str\<close> methods on UTF-8
    bytes, \<open>HashMap\<close> and \<open>BTreeMap\<close> with their contracts as locales, transition systems with the
    locales of inductive invariants, of ranked systems, whose runs end, and of simulations by a
    history of atomic events. The invariants and bounds of the development are interpretations.
  \<^item> \<open>Table_Lock\<close> (locking/table\_lock.rs): the lock manager, as functions on a shared memory and as
    atomic actions of any number of tasks. Mutual exclusion, no eviction of a used entry, no leak;
    the locale \<open>table_mutex\<close> is what the commit handler relies on.
  \<^item> \<open>Json\<close>, \<open>Wire_Types\<close> (proto/delta\_txn.proto), \<open>Kernel_Types\<close>, \<open>Delta_Store\<close>: the data of both
    sides, and serde\_json, the delta-rs deserializers and delta-rs itself as records of parameters.
    \<open>Sample_Store\<close> is a small instance for concrete evaluations.
  \<^item> \<open>Delta_Errors\<close> (delta/errors.rs): errors, status codes and what a client sees of them.
  \<^item> \<open>Grpc_Mapping\<close> (grpc/mapping.rs): both directions of the translation. Ordered translation with
    the first error, round trips of statistics and files, independence of hash-map order.
  \<^item> \<open>Delta_Commit\<close> (delta/table.rs, delta/commit.rs): opening, creating and committing; the operation
    given to delta-rs against the one the request asks for.
  \<^item> \<open>Socket_Addr\<close>, \<open>Config\<close> (config/*.rs): the environment as bytes, the allowlist as a relation on
    path segments, no loss of protection through a value that is not UTF-8.
  \<^item> \<open>Auth\<close> (grpc/auth.rs): the interceptor accepts exactly the configured key.
  \<^item> \<open>Grpc_Server\<close> (grpc/server.rs: \<open>commit\<close>, \<open>get_table\<close> and helpers): the whole handlers. Expected
    versions, error codes, refusals before the lock, release of the lock, metadata round trip.
  \<^item> \<open>Active_Files\<close> (grpc/server.rs: \<open>list_active_files\<close>): completeness and batching of a listing,
    failures, clients that leave; no handler touches a table outside the allowlist.
  \<^item> \<open>File_Stream\<close> (grpc/server.rs: \<open>list_active_files\<close>): the task of a listing, its bounded channel and
    its client under every interleaving: how far the task gets ahead, what the client receives, and
    that every listing ends.
  \<^item> \<open>Well_Formed\<close>: everything the service builds is a well-formed value of its type.
  \<^item> \<open>Commit_System\<close>: the commit handler as atomic actions of concurrent tasks over the lock and a
    world that other processes may change. The version check and the write are atomic and there is no
    lost update; the sequential section of \<open>Grpc_Server\<close> is refined by these actions.
  \<^item> \<open>Commit_Spec\<close>: an atomic specification of commits, and that the system refines it: a history of
    atomic commits explains every answer and the versions in storage, and only grows. Later commits
    get later versions, and a commit sent again with its expected version lands at most once.
  \<^item> \<open>Commit_Progress\<close>: these commits end, whatever the schedule, with every commit answered or
    cancelled.
  \<^item> \<open>Table_Independence\<close>: one commit run alone while all others have stopped for good; only a commit
    to the same table can hold it up.
  \<^item> \<open>Concurrent_Reads\<close> (grpc/server.rs: \<open>get_table\<close>, \<open>list_active_files\<close>): reads interleaved with these
    commits and with other processes. A read never waits, shows the table at one moment between its
    request and its answer, and sees every commit that was answered before it began.
  \<^item> \<open>Retry_Clients\<close> (tests/e2e\_concurrency.rs): clients that read a version, commit against it and
    start over when they are aborted; all of them land, after a bounded number of calls.
  \<^item> \<open>Request_Layers\<close> (telemetry/metrics.rs, telemetry/trace\_context.rs), \<open>Telemetry\<close>
    (telemetry/tracing.rs), \<open>Process\<close> (main.rs): recording of calls, the life of the exporters,
    start-up and health status.
  \<^item> \<open>Service_Stack\<close> (telemetry/metrics.rs, telemetry/trace\_context.rs): the layers as tower services,
    with readiness and clones; which inner service a call reaches.
  \<^item> \<open>Graceful_Shutdown\<close> (main.rs): commits, health status and exit of a process together; after the
    shutdown signal every commit that has begun is answered before the process exits.
  \<^item> \<open>Served_Calls\<close> (main.rs): every call through the layers, the interceptor and its handler, and the
    health service beside them.
  \<^item> \<open>Unit_Tests\<close>, \<open>Lock_Tests\<close>: the unit tests of the modules on the model, the two concurrency tests
    of the lock for every schedule.
  \<^item> \<open>E2e_Tests\<close> (tests/*.rs): the end-to-end tests on the model, the concurrency test for every number
    of writers and every schedule.
  This theory has the properties of calls through the whole stack, as functions and as services.

  \<^bold>\<open>State and effects.\<close> A call that does I/O takes the outside world and returns it; the world is a
  type parameter, and what the proofs need of it is a named hypothesis (\<open>log_contract\<close>,
  \<open>snapshot_contract\<close>, \<open>reliable_log\<close>, \<open>tonic_contract\<close>, \<open>metadata_reads_json\<close>, \<open>serde_numbers_ok\<close>,
  \<open>json_text_ok\<close>), each with an instance on which the theorems are evaluated. Strings are UTF-8
  bytes, integers are words of their Rust width, a float is its bit pattern. A version is a 64-bit
  word in the code and a natural number in the contract of the log; the number of tasks is below
  \<open>2^64\<close> because each task has at most one handle counted in a 64-bit counter, and \<open>no_lost_update\<close>
  needs a table with fewer than \<open>2^64\<close> versions because an expected version is a word. No definition
  uses fuel: all loops of the source are structural, or end by a measure; the health probe, which
  runs for ever, is a transition system. Concurrent parts are shown to end by a rank that every
  action lowers (the locale \<open>ranked_system\<close>), and their bounds are the rank of the start: eleven
  actions for a commit and one for the exit of the process, three for a read, three for a listed
  file and six more for the stream, \<open>2 n + 3\<close> calls for each of \<open>n\<close> retrying clients.

  \<^bold>\<open>Not modelled.\<close> The code generated from the protobuf file, the gRPC and HTTP transport, TLS, the
  exporters and the JSON text format are libraries and appear only as parameters. Execution time is
  not modelled, so nothing is said of the timing of \<open>constant_time_eq\<close> or of the probe's interval and
  timeout. A storage stream of files is taken to end, and a call to storage to return. Log
  output is modelled only where it is the only trace of an error. The end-to-end
  tests run on the sample store, without sockets and file systems. The build script and the
  deployment files are not modelled; what else of src/ has no definition is imports, module
  declarations, comments, and the tests of the trace propagator, which is a library.
\<close>

section \<open>Properties of served calls\<close>

text \<open>
  Property C33 (unauthorized_call_changes_nothing_and_is_counted). A commit, a table lookup or a
  listing without the configured API key changes neither storage nor locks, and is still observable:
  it is recorded at once as one request and one error with the status UNAUTHENTICATED, under its
  service and method, and later polls of its body record nothing more. A health check needs no key.
\<close>

theorem unauthorized_call_changes_nothing_and_is_counted:
  assumes "run_api_key run = Some key"
    and "Option.bind (tr_get tr hs ''x-api-key'') (tr_to_str tr) \<noteq> Some key"
    and "Option.bind (tr_get tr hs ''authorization'') (tr_to_str tr) \<noteq> Some (''Bearer '' @ key)"
    and "tonic_contract tr"
  shows "(\<exists>span response m'. serve_call tr d sj run me gone h el path hs (TxnService call) ((w, mem), m)
        = (span, Ok response, (w, mem), m')
      \<and> m' = record_call (tr_code_text tr) (rpc_service path) (rpc_method path) el Unauthenticated m
      \<and> length (requests m') = Suc (length (requests m))
      \<and> length (errors m') = Suc (length (errors m))
      \<and> snd (snd (poll_frames (tr_code_text tr) (tr_from_header_map tr) polls (body response, m'))) = m')
    \<and> (\<exists>span response m'. serve_call tr d sj run me gone h el path hs (HealthService name) ((w, mem), m)
        = (span, Ok response, (w, mem), m')
      \<and> headers response = headers (tr_health tr h name)
      \<and> inner (body response) = body (tr_health tr h name))"
  by (cases "tr_from_header_map tr (headers (tr_health tr h name))")
    (simp_all add: serve_call_def trace_call_def Let_def metrics_call_def record_call_requests
      poll_frames_recorded unauthorized_intercept [OF assms(1-3)] tonic_contractD(1) [OF assms(4)])

text \<open>
  Property C16 (every_call_is_recorded_with_its_outcome). A call with the key, or with no key
  configured, does to storage and locks exactly what its handler does, and its reply is passed through
  both layers unchanged. However often its body is polled in between, the call is recorded once and
  with the status the client sees: at once when the handler refuses it, and otherwise when the client
  has taken the whole body, for a listing with the status its stream ended with. A client that takes
  only the first \<open>k\<close> frames of a longer body leaves it unrecorded.
\<close>

theorem every_call_is_recorded_with_its_outcome:
  assumes "tonic_contract tr"
    and "run_api_key run = None
      \<or> Option.bind (tr_get tr hs ''x-api-key'') (tr_to_str tr) = run_api_key run"
    and "handle_call d sj (run_server run) me gone call st = (reply, st')"
    and "filter (\<lambda>p. p \<noteq> Pending) (map snd polls)
      = frame_polls (take k (tr_frames tr (body (tr_encode tr reply))))"
  shows "\<exists>span response m' el'.
      serve_call tr d sj run me gone h el path hs (TxnService call) (st, m)
        = (span, Ok response, st', m')
    \<and> headers response = headers (tr_encode tr reply)
    \<and> inner (body response) = body (tr_encode tr reply)
    \<and> snd (snd (poll_frames (tr_code_text tr) (tr_from_header_map tr) polls (body response, m')))
      = (if reply_refusal reply = None \<and> k < length (tr_frames tr (body (tr_encode tr reply))) then m
         else record_call (tr_code_text tr) (rpc_service path) (rpc_method path) el'
           (reply_code reply) m)"
proof (cases "reply_refusal reply")
  case (Some s)
  with tonic_contractD(2) [OF assms(1) Some] assms(3) show ?thesis
    by (auto simp: serve_call_def trace_call_def Let_def metrics_call_def poll_frames_recorded
        authorized_intercept [OF assms(2)])
next
  case None
  obtain ds trailers
    where fs: "tr_frames tr (body (tr_encode tr reply)) = map DataFrame ds @ [Trailers trailers]"
    and code: "tr_from_header_map tr trailers = Some (reply_code reply)"
    using tonic_contractD(4) [OF assms(1) None] by blast
  have "\<exists>el'. settlement (tr_from_header_map tr) polls =
      (if k \<le> length ds then None else Some (el', reply_code reply))"
  proof (cases "k \<le> length ds")
    case True
    then have "filter (\<lambda>p. p \<noteq> Pending) (map snd polls) = frame_polls (map DataFrame (take k ds))"
      using assms(4) fs by (simp add: take_map)
    from settlement_data [OF this] True show ?thesis by simp
  next
    case False
    then have "filter (\<lambda>p. p \<noteq> Pending) (map snd polls)
        = frame_polls (map DataFrame ds @ [Trailers trailers])"
      using assms(4) fs by simp
    from settlement_frames [OF this, of "tr_from_header_map tr"] False code show ?thesis
      by (simp add: rust_simps)
  qed
  with None tonic_contractD(3) [OF assms(1) None] assms(3) fs show ?thesis
    by (cases "k \<le> length ds")
      (auto simp: serve_call_def trace_call_def Let_def metrics_call_def poll_frames_settlement
        authorized_intercept [OF assms(2)])
qed

text \<open>
  Property C14 (ok_listing_is_complete). A listing that ends with the status OK has given its client
  everything: the header of the opened snapshot and then all files of that snapshot, in order and once
  each. Every listing that is not complete ends with another status.
\<close>

theorem ok_listing_is_complete:
  assumes "list_active_files d sj srv None uri w = (Ok items, w')"
  shows "stream_code items = CodeOk \<longleftrightarrow>
    (\<exists>url w0 w1 table w2 snapshot metadata protocol fvs batches.
       normalize_and_check_table_uri d srv uri w = (Ok url, w0)
       \<and> table_exists d url (srv_storage_opts srv) w0 = (Ok True, w1)
       \<and> open_table d url (srv_storage_opts srv) w1 = (Ok table, w2)
       \<and> table_snapshot d table = Ok snapshot
       \<and> build_metadata_and_protocol d snapshot = Ok (metadata, protocol)
       \<and> file_views d snapshot (log_store d table) w2 = (map Ok fvs, w')
       \<and> items = Ok (Header \<lparr>lh_version = snapshot_version d snapshot, lh_metadata = Some metadata,
             lh_protocol = Some protocol\<rparr>) # map (\<lambda>b. Ok (Batch b)) batches
       \<and> concat batches = map (active_file d sj) fvs)"
  (is "_ \<longleftrightarrow> ?complete")
proof
  assume ?complete
  then show "stream_code items = CodeOk" by (auto simp: stream_code_batches)
next
  assume "stream_code items = CodeOk"
  with assms show ?complete by (rule listing_outcome)
qed


section \<open>Witnesses\<close>

text \<open>
  Headers are an association list with the status, if there is one, beside it; a body is the status
  of its trailers. The body has one data frame before the trailers.
\<close>

definition sample_transport ::
  "((string \<times> string) list \<times> code option, string, code, unit, unit) transport" where
  "sample_transport =
     \<lparr>tr_get = (\<lambda>hs. map_of (fst hs)), tr_to_str = Some, tr_keys = (\<lambda>hs. map fst (fst hs)),
      tr_extract = (\<lambda>_ _. ()), tr_set_parent = (\<lambda>_. True), tr_from_header_map = snd,
      tr_status_response = (\<lambda>s. \<lparr>headers = ([], Some (status_code s)), body = CodeOk\<rparr>),
      tr_encode = (\<lambda>r. \<lparr>headers = ([], map_option status_code (reply_refusal r)), body = reply_code r\<rparr>),
      tr_health = (\<lambda>h name. \<lparr>headers = ([], None), body = CodeOk\<rparr>),
      tr_frames = (\<lambda>c. [DataFrame (), Trailers ([], Some c)]),
      tr_code_text = (\<lambda>c. if c = CodeOk then ''ok'' else ''error'')\<rparr>"

lemma sample_tonic_contract: "tonic_contract sample_transport"
  by (auto simp: tonic_contract_def sample_transport_def intro: exI [of _ "[()]"])

definition sample_running :: running where
  "sample_running =
     \<lparr>run_addr = SocketAddrV4 [0, 0, 0, 0] 50051, run_identity = None, run_api_key = Some ''key'',
      run_server = sample_server, run_locks = lock_manager_default, run_probe = None\<rparr>"

abbreviation sample_serve where
  "sample_serve creds call \<equiv>
     serve_call sample_transport sample_store sample_sj0 sample_running 0 None (health_init None) 0
       ''/s/m'' (creds, None) call ((sample_world_at 5, sample_mem), no_instruments)"

theorem unauthorized_call_changes_nothing_and_is_counted_witness:
  "\<exists>span response m'.
     sample_serve [(''x-api-key'', ''guess'')] (TxnService (ListFilesCall ''s3://b/t''))
       = (span, Ok response, (sample_world_at 5, sample_mem), m')
     \<and> length (requests m') = 1 \<and> length (errors m') = 1"
proof -
  have "\<exists>span response m'.
      sample_serve [(''x-api-key'', ''guess'')] (TxnService (ListFilesCall ''s3://b/t''))
        = (span, Ok response, (sample_world_at 5, sample_mem), m')
      \<and> m' = record_call (tr_code_text sample_transport) (rpc_service ''/s/m'')
          (rpc_method ''/s/m'') 0 Unauthenticated no_instruments
      \<and> length (requests m') = Suc (length (requests no_instruments))
      \<and> length (errors m') = Suc (length (errors no_instruments))
      \<and> snd (snd (poll_frames (tr_code_text sample_transport) (tr_from_header_map sample_transport) []
          (body response, m'))) = m'"
    by (rule unauthorized_call_changes_nothing_and_is_counted [where key = "''key''", THEN conjunct1])
      (simp_all add: sample_tonic_contract, simp_all add: sample_running_def sample_transport_def)
  then show ?thesis by (auto simp: no_instruments_def)
qed

text \<open>A stale commit with the key: refused with its version conflict, and recorded so at once.\<close>

theorem every_call_is_recorded_with_its_outcome_witness:
  "\<exists>span response m' el'.
     sample_serve [(''x-api-key'', ''key'')] (TxnService (CommitCall (sample_request [])))
       = (span, Ok response, (sample_world_at 5, with_lock 0 ''s3://b/t'' sample_mem), m')
     \<and> snd (snd (poll_frames (tr_code_text sample_transport) (tr_from_header_map sample_transport)
           [(0, Pending :: (unit, (string \<times> string) list \<times> code option, unit) poll)]
           (body response, m')))
       = record_call (tr_code_text sample_transport) (rpc_service ''/s/m'') (rpc_method ''/s/m'') el'
           Aborted no_instruments"
proof -
  let ?reply = "CommitReply (Err (status_of_error (VersionConflict 3 5)))"
  let ?polls = "[(0, Pending :: (unit, (string \<times> string) list \<times> code option, unit) poll)]"
  have "handle_call sample_store sample_sj0 (run_server sample_running) 0 None
      (CommitCall (sample_request [])) (sample_world_at 5, sample_mem)
    = (?reply, (sample_world_at 5, with_lock 0 ''s3://b/t'' sample_mem))"
    using sample_stale_commit by (simp add: sample_running_def)
  from every_call_is_recorded_with_its_outcome [OF sample_tonic_contract _ this, of
      "([(''x-api-key'', ''key'')], None)" ?polls 0 "health_init None" 0 "''/s/m''" no_instruments]
  show ?thesis by (force simp: sample_running_def sample_transport_def frame_polls_def)
qed

theorem ok_listing_is_complete_witness:
  "\<exists>items batches fvs. list_active_files sample_store sample_sj0 sample_server None ''s3://b/t''
       sample_full_world = (Ok items, sample_full_world)
     \<and> stream_code items = CodeOk
     \<and> concat batches = map (active_file sample_store sample_sj0) fvs
     \<and> tl items = map (\<lambda>b. Ok (Batch b)) batches"
proof -
  obtain metadata protocol
    where "build_metadata_and_protocol sample_store sample_full_log = Ok (metadata, protocol)"
    using sample_build by blast
  then obtain header batches where l:
    "list_active_files sample_store sample_sj0 sample_server None ''s3://b/t'' sample_full_world =
       (Ok (Ok (Header header) # map (\<lambda>b. Ok (Batch b)) batches), sample_full_world)"
    by (rule sample_listing)
  have "stream_code (Ok (Header header) # map (\<lambda>b. Ok (Batch b)) batches) = CodeOk"
    by (simp add: stream_code_batches)
  with ok_listing_is_complete [OF l] l show ?thesis by fastforce
qed

abbreviation sample_handler_service where
  "sample_handler_service \<equiv>
     (handler_service (\<lambda>req. routed_call sample_transport sample_store sample_sj0 sample_running 0 None
        (health_init None) (rq_headers req) (rq_body req)) :: (_, _, unit, _, unit) service)"


end
